(* ===== verification/Relay_Prelude.thy ===== *)
theory Relay_Prelude
  imports Complex_Main "HOL-Library.AList" "HOL-Library.Sublist" "HOL-Library.Multiset"
begin

text \<open>
  Shared vocabulary of the development: Python exceptions and the effectful computations that may
  raise them, Python sets and strings, decimal integers, and reachability of a step relation with
  the invariant rule every state machine of the development uses.

  Conventions.  A Python \<open>str\<close> is an Isabelle \<open>string\<close> whose characters are the code points
  U+0000 to U+00FF; \<open>utf8_size\<close> is the length of its UTF-8 encoding.  Time (\<open>time.time()\<close>) and
  the other floating point quantities of the configuration are rationals, in seconds.  A Python
  \<open>dict\<close> whose iteration order matters is an association list updated with \<open>AList.update\<close>, which
  keeps the position of an existing key and appends a new one, as \<open>dict\<close> does; other dicts are
  maps.  A Python \<open>set\<close> is a list without duplicates.
\<close>

named_theorems io_simps
  "evaluation of effectful computations"

named_theorems dict_simps
  "lookup after an update of a dictionary or a set"

type_synonym time = rat

section \<open>Exceptions and effectful computations\<close>

text \<open>
  The exceptions the code raises, catches or lets pass.  A computation over a state returns the
  state it reached also when it raises: effects done before the exception persist.
\<close>

datatype exn =
    RedisConnectionError
  | RedisTimeoutError
  | ResponseError
  | ValidationError string
  | WebSocketDisconnect
  | RuntimeError
  | AttributeError
  | TypeError
  | KeyError string
  | ValueError string
  | SlowConsumerError string
  | AuthenticationError string
  | HTTPException int string
  | IntegrityError
  | DataError
  | AsyncTimeout

type_synonym ('s, 'a) io = "'s \<Rightarrow> (exn + 'a) \<times> 's"

definition returnE :: "'a \<Rightarrow> ('s, 'a) io" where
  "returnE a s = (Inr a, s)"

definition raiseE :: "exn \<Rightarrow> ('s, 'a) io" where
  "raiseE e s = (Inl e, s)"

definition bindE :: "('s, 'a) io \<Rightarrow> ('a \<Rightarrow> ('s, 'b) io) \<Rightarrow> ('s, 'b) io" where
  "bindE m f s = (case m s of (Inl e, s') \<Rightarrow> (Inl e, s') | (Inr a, s') \<Rightarrow> f a s')"

definition thenE :: "('s, 'a) io \<Rightarrow> ('s, 'b) io \<Rightarrow> ('s, 'b) io" where
  "thenE m m' = bindE m (\<lambda>_. m')"

text \<open>\<open>try: m except e: h e\<close>, where \<open>h\<close> re-raises what it does not handle.\<close>

definition catchE :: "('s, 'a) io \<Rightarrow> (exn \<Rightarrow> ('s, 'a) io) \<Rightarrow> ('s, 'a) io" where
  "catchE m h s = (case m s of (Inl e, s') \<Rightarrow> h e s' | (Inr a, s') \<Rightarrow> (Inr a, s'))"

text \<open>\<open>with contextlib.suppress(Exception): m\<close>.\<close>

definition suppressE :: "('s, unit) io \<Rightarrow> ('s, unit) io" where
  "suppressE m = catchE m (\<lambda>_. returnE ())"

definition getE :: "('s \<Rightarrow> 'a) \<Rightarrow> ('s, 'a) io" where
  "getE f s = (Inr (f s), s)"

definition modifyE :: "('s \<Rightarrow> 's) \<Rightarrow> ('s, unit) io" where
  "modifyE f s = (Inr (), f s)"

definition whenE :: "bool \<Rightarrow> ('s, unit) io \<Rightarrow> ('s, unit) io" where
  "whenE b m = (if b then m else returnE ())"

fun forE :: "'a list \<Rightarrow> ('a \<Rightarrow> ('s, unit) io) \<Rightarrow> ('s, unit) io" where
  "forE [] f = returnE ()"
| "forE (x # xs) f = thenE (f x) (forE xs f)"

lemma returnE_run [io_simps, simp]: "returnE a s = (Inr a, s)"
  by (simp add: returnE_def)

lemma raiseE_run [io_simps, simp]: "raiseE e s = (Inl e, s)"
  by (simp add: raiseE_def)

lemma getE_run [io_simps, simp]: "getE f s = (Inr (f s), s)"
  by (simp add: getE_def)

lemma modifyE_run [io_simps, simp]: "modifyE f s = (Inr (), f s)"
  by (simp add: modifyE_def)

lemma bindE_Inr [io_simps]: "m s = (Inr a, s') \<Longrightarrow> bindE m f s = f a s'"
  by (simp add: bindE_def)

lemma bindE_Inl [io_simps]: "m s = (Inl e, s') \<Longrightarrow> bindE m f s = (Inl e, s')"
  by (simp add: bindE_def)

lemma thenE_Inr [io_simps]: "m s = (Inr a, s') \<Longrightarrow> thenE m m' s = m' s'"
  by (simp add: thenE_def bindE_def)

lemma thenE_Inl [io_simps]: "m s = (Inl e, s') \<Longrightarrow> thenE m m' s = (Inl e, s')"
  by (simp add: thenE_def bindE_def)

lemma bindE_assoc: "bindE (bindE m f) g = bindE m (\<lambda>a. bindE (f a) g)"
  by (auto simp: bindE_def fun_eq_iff split: prod.split sum.split)

lemma bindE_run_Inr_iff:
  "bindE m f s = (Inr b, t) \<longleftrightarrow> (\<exists>a s'. m s = (Inr a, s') \<and> f a s' = (Inr b, t))"
  by (auto simp: bindE_def split: prod.splits sum.splits)

lemma bindE_run_Inl_iff:
  "bindE m f s = (Inl e, t) \<longleftrightarrow>
     m s = (Inl e, t) \<or> (\<exists>a s'. m s = (Inr a, s') \<and> f a s' = (Inl e, t))"
  by (auto simp: bindE_def split: prod.splits sum.splits)

lemma thenE_run_Inr_iff:
  "thenE m m' s = (Inr b, t) \<longleftrightarrow> (\<exists>a s'. m s = (Inr a, s') \<and> m' s' = (Inr b, t))"
  by (simp add: thenE_def bindE_run_Inr_iff)

lemma thenE_run_Inl_iff:
  "thenE m m' s = (Inl e, t) \<longleftrightarrow>
     m s = (Inl e, t) \<or> (\<exists>a s'. m s = (Inr a, s') \<and> m' s' = (Inl e, t))"
  by (simp add: thenE_def bindE_run_Inl_iff)

lemmas io_run_iffs = bindE_run_Inr_iff bindE_run_Inl_iff thenE_run_Inr_iff thenE_run_Inl_iff

text \<open>A relation between the state before and after is kept by every composition.\<close>

lemma bindE_rel:
  assumes "snd (bindE m f s) = t"
    and "\<And>s. R s (snd (m s))" and "\<And>a s. R s (snd (f a s))"
    and "\<And>s u v. R s u \<Longrightarrow> R u v \<Longrightarrow> R s v"
  shows "R s t"
  using assms by (auto simp: bindE_def split: prod.splits sum.splits) (metis snd_conv)+

section \<open>Python sets, as lists without duplicates\<close>

definition set_add :: "'a \<Rightarrow> 'a list \<Rightarrow> 'a list" where
  "set_add x A = (if x \<in> set A then A else A @ [x])"

definition set_discard :: "'a \<Rightarrow> 'a list \<Rightarrow> 'a list" where
  "set_discard x A = removeAll x A"

lemma set_set_add [simp]: "set (set_add x A) = insert x (set A)"
  by (auto simp: set_add_def)

lemma set_set_discard [simp]: "set (set_discard x A) = set A - {x}"
  by (simp add: set_discard_def)

lemma distinct_set_add [simp]: "distinct (set_add x A) = distinct A"
  by (simp add: set_add_def)

lemma distinct_set_discard [simp]: "distinct A \<Longrightarrow> distinct (set_discard x A)"
  by (simp add: set_discard_def distinct_removeAll)

lemma length_set_add: "length (set_add x A) = (if x \<in> set A then length A else Suc (length A))"
  by (simp add: set_add_def)

lemma length_set_discard: "length (set_discard x A) \<le> length A"
  by (simp add: set_discard_def)

text \<open>A dictionary of sets: \<open>d.setdefault(k, set()).add(x)\<close> and \<open>d.get(k, set())\<close>.\<close>

definition get_set :: "('k \<rightharpoonup> 'a list) \<Rightarrow> 'k \<Rightarrow> 'a list" where
  "get_set d k = (case d k of None \<Rightarrow> [] | Some A \<Rightarrow> A)"

definition setdefault_add :: "('k \<rightharpoonup> 'a list) \<Rightarrow> 'k \<Rightarrow> 'a \<Rightarrow> ('k \<rightharpoonup> 'a list)" where
  "setdefault_add d k x = d(k \<mapsto> set_add x (get_set d k))"

text \<open>\<open>d.get(k, set()).discard(x)\<close>: changes the stored set when there is one, and a throw-away
  empty set otherwise.\<close>

definition get_discard :: "('k \<rightharpoonup> 'a list) \<Rightarrow> 'k \<Rightarrow> 'a \<Rightarrow> ('k \<rightharpoonup> 'a list)" where
  "get_discard d k x = (case d k of None \<Rightarrow> d | Some A \<Rightarrow> d(k \<mapsto> set_discard x A))"

lemma get_set_setdefault_add [dict_simps, simp]:
  "get_set (setdefault_add d k x) k' = (if k' = k then set_add x (get_set d k) else get_set d k')"
  by (simp add: get_set_def setdefault_add_def)

lemma get_set_get_discard [dict_simps, simp]:
  "get_set (get_discard d k x) k' = (if k' = k then set_discard x (get_set d k) else get_set d k')"
  by (simp add: get_set_def get_discard_def set_discard_def split: option.split)

lemma get_set_empty [simp]: "get_set Map.empty k = []"
  by (simp add: get_set_def)

section \<open>Strings\<close>

definition utf8_size :: "string \<Rightarrow> nat" where
  "utf8_size s = (\<Sum>c \<leftarrow> s. if of_char c < (128 :: nat) then 1 else 2)"

text \<open>\<open>s.startswith(p)\<close>, \<open>s.endswith(p)\<close> and \<open>s.removeprefix(p)\<close>.\<close>

definition startswith :: "string \<Rightarrow> string \<Rightarrow> bool" where
  "startswith s p = (take (length p) s = p)"

definition endswith :: "string \<Rightarrow> string \<Rightarrow> bool" where
  "endswith s p = (length p \<le> length s \<and> drop (length s - length p) s = p)"

definition removeprefix :: "string \<Rightarrow> string \<Rightarrow> string" where
  "removeprefix p s = (if startswith s p then drop (length p) s else s)"

lemma startswith_iff: "startswith s p \<longleftrightarrow> (\<exists>t. s = p @ t)"
  by (metis append_eq_conv_conj append_take_drop_id startswith_def)

lemma startswith_append [simp]: "startswith (p @ t) p"
  by (simp add: startswith_def)

lemma endswith_iff: "endswith s p \<longleftrightarrow> (\<exists>t. s = t @ p)"
  unfolding endswith_def
  by (metis append_take_drop_id diff_add_inverse2 append_eq_conv_conj le_add2 length_append)

lemma endswith_append [simp]: "endswith (t @ p) p"
  by (auto simp: endswith_iff)

lemma removeprefix_append [simp]: "removeprefix p (p @ t) = t"
  by (simp add: removeprefix_def)

text \<open>A separator that does not occur in the first components makes concatenation injective.\<close>

lemma append_sep_inject:
  assumes "c \<notin> set u" and "c \<notin> set u'" and "u @ c # v = u' @ c # v'"
  shows "u = u' \<and> v = v'"
proof -
  have "takeWhile (\<lambda>x. x \<noteq> c) (u @ c # v) = u"
    using assms(1) by (subst takeWhile_append2) auto
  moreover have "takeWhile (\<lambda>x. x \<noteq> c) (u' @ c # v') = u'"
    using assms(2) by (subst takeWhile_append2) auto
  ultimately have "u = u'" using assms(3) by simp
  with assms(3) show ?thesis by simp
qed

section \<open>Decimal integers\<close>

text \<open>\<open>str(n)\<close> and \<open>int(s)\<close>; \<open>None\<close> stands for the \<open>ValueError\<close> of a malformed numeral.\<close>

definition digit_char :: "nat \<Rightarrow> char" where
  "digit_char d = char_of (48 + d)"

definition is_digit :: "char \<Rightarrow> bool" where
  "is_digit c = (48 \<le> (of_char c :: nat) \<and> (of_char c :: nat) \<le> 57)"

definition digit_val :: "char \<Rightarrow> nat" where
  "digit_val c = of_char c - 48"

fun show_nat :: "nat \<Rightarrow> string" where
  "show_nat n = (if n < 10 then [digit_char n] else show_nat (n div 10) @ [digit_char (n mod 10)])"

declare show_nat.simps [simp del]

definition show_int :: "int \<Rightarrow> string" where
  "show_int i = (if i < 0 then CHR ''-'' # show_nat (nat (- i)) else show_nat (nat i))"

text \<open>Decimal integers as Redis reads them and \<open>str\<close> writes them.  Python's \<open>int\<close> also accepts surrounding white
  space and underscores between digits, which nothing the program writes contains.\<close>

definition parse_nat :: "string \<Rightarrow> nat option" where
  "parse_nat s =
     (if s \<noteq> [] \<and> list_all is_digit s then Some (foldl (\<lambda>n c. 10 * n + digit_val c) 0 s) else None)"

definition parse_int :: "string \<Rightarrow> int option" where
  "parse_int s =
     (case s of
        [] \<Rightarrow> None
      | c # cs \<Rightarrow>
          if c = CHR ''-'' then map_option (\<lambda>n. - int n) (parse_nat cs)
          else if c = CHR ''+'' then map_option int (parse_nat cs)
          else map_option int (parse_nat s))"

lemma of_char_digit_char [simp]: "d < 10 \<Longrightarrow> (of_char (digit_char d) :: nat) = 48 + d"
  by (simp add: digit_char_def)

lemma is_digit_digit_char [simp]: "d < 10 \<Longrightarrow> is_digit (digit_char d)"
  by (simp add: is_digit_def)

lemma digit_val_digit_char [simp]: "d < 10 \<Longrightarrow> digit_val (digit_char d) = d"
  by (simp add: digit_val_def)

lemma show_nat_not_Nil [simp]: "show_nat n \<noteq> []"
  by (subst show_nat.simps) simp

lemma show_nat_digits: "list_all is_digit (show_nat n)"
proof (induction n rule: show_nat.induct)
  case (1 n)
  then show ?case by (subst show_nat.simps) simp
qed

lemma show_nat_value: "foldl (\<lambda>n c. 10 * n + digit_val c) 0 (show_nat n) = n"
proof (induction n rule: show_nat.induct)
  case (1 n)
  then show ?case by (subst show_nat.simps) simp
qed

lemma parse_show_nat [simp]: "parse_nat (show_nat n) = Some n"
  by (simp add: parse_nat_def show_nat_digits show_nat_value)

lemma hd_show_nat_digit: "is_digit (hd (show_nat n))"
  using show_nat_digits [of n] by (cases "show_nat n") auto

lemma parse_show_int [simp]: "parse_int (show_int i) = Some i"
proof (cases "i < 0")
  case True
  then show ?thesis by (simp add: show_int_def parse_int_def)
next
  case False
  obtain c cs where s: "show_nat (nat i) = c # cs" by (cases "show_nat (nat i)") auto
  with hd_show_nat_digit [of "nat i"] have "c \<noteq> CHR ''-''" "c \<noteq> CHR ''+''"
    by (auto simp: is_digit_def)
  moreover have "parse_nat (c # cs) = Some (nat i)"
    using parse_show_nat [of "nat i"] s by simp
  ultimately show ?thesis using False s by (simp add: show_int_def parse_int_def)
qed

lemma show_int_inject [simp]: "show_int i = show_int j \<longleftrightarrow> i = j"
  by (metis option.inject parse_show_int)

section \<open>Counting in an updated list\<close>

lemma length_filter_update:
  "i < length xs \<Longrightarrow> int (length (filter P (xs[i := y]))) =
     int (length (filter P xs)) - (if P (xs ! i) then 1 else 0) + (if P y then 1 else 0)"
proof (induction xs arbitrary: i)
  case (Cons x xs)
  show ?case
  proof (cases i)
    case (Suc j)
    then show ?thesis using Cons.IH [of j] Cons.prems by auto
  qed simp
qed simp

section \<open>Reachable states and invariants\<close>

inductive reachable :: "('s \<Rightarrow> bool) \<Rightarrow> ('s \<Rightarrow> 's \<Rightarrow> bool) \<Rightarrow> 's \<Rightarrow> bool"
  for init :: "'s \<Rightarrow> bool" and step :: "'s \<Rightarrow> 's \<Rightarrow> bool" where
  reach_init: "init s \<Longrightarrow> reachable init step s"
| reach_step: "reachable init step s \<Longrightarrow> step s t \<Longrightarrow> reachable init step t"

lemma reachable_steps:
  assumes "reachable init step s" and "step\<^sup>*\<^sup>* s t"
  shows "reachable init step t"
  using assms(2,1) by (induction rule: rtranclp_induct) (auto intro: reach_step)

text \<open>The contract of a state machine with an inductive invariant.\<close>

locale invariant_system =
  fixes init :: "'s \<Rightarrow> bool" and step :: "'s \<Rightarrow> 's \<Rightarrow> bool" and inv :: "'s \<Rightarrow> bool"
  assumes init_inv: "init s \<Longrightarrow> inv s"
    and step_inv: "inv s \<Longrightarrow> step s t \<Longrightarrow> inv t"
begin

lemma reachable_inv: "reachable init step s \<Longrightarrow> inv s"
  by (induction rule: reachable.induct) (auto intro: init_inv step_inv)

lemma steps_inv: "step\<^sup>*\<^sup>* s t \<Longrightarrow> inv s \<Longrightarrow> inv t"
  by (induction rule: rtranclp_induct) (auto intro: step_inv)

end

end
