(* ===== verification/Auth.thy ===== *)
theory Auth
  imports Config
begin

text \<open>
  \<open>packages/database/models.py\<close>, \<open>packages/security/api_keys.py\<close> and
  \<open>apps/gateway/protocol/auth.py\<close>: the durable rows, API keys, authentication and the tenant
  namespace of channels.  The database is its contents, a record of tables; \<open>db_wf\<close> are the constraints
  the models declare, which the database enforces when a transaction is committed.  SHA-256 and the random part of a new key are arguments.
\<close>

section \<open>Rows and tables\<close>

record tenant_row =
  tr_id :: string
  tr_name :: string
  tr_status :: string
  tr_created_at :: time
  tr_updated_at :: time

record api_key_row =
  ak_id :: string
  ak_tenant :: string
  ak_prefix :: string
  ak_hash :: string
  ak_status :: string
  ak_created_at :: time
  ak_expires_at :: "time option"

record channel_row =
  cr_id :: string
  cr_tenant :: string
  cr_name :: string
  cr_ordering :: bool
  cr_mode :: string
  cr_retention :: int
  cr_max_size :: int
  cr_created_at :: time

record room_row =
  rm_id :: string
  rm_tenant :: string
  rm_name :: string
  rm_created_at :: time

record session_row =
  sr_id :: string
  sr_tenant :: string
  sr_created_at :: time
  sr_last_seen :: time
  sr_expires_at :: time
  sr_status :: string

record database =
  db_tenants :: "tenant_row list"
  db_api_keys :: "api_key_row list"
  db_channels :: "channel_row list"
  db_rooms :: "room_row list"
  db_sessions :: "session_row list"

definition empty_database :: database where
  "empty_database = \<lparr>db_tenants = [], db_api_keys = [], db_channels = [], db_rooms = [], db_sessions = []\<rparr>"

text \<open>Primary keys and key hashes are unique, every reference to a tenant has its tenant, and the values fit
  their columns: \<open>String(n)\<close> and the 32-bit \<open>Integer\<close>.\<close>

definition fits_integer :: "int \<Rightarrow> bool" where
  "fits_integer n = (- (2 ^ 31) \<le> n \<and> n < 2 ^ 31)"

definition db_keys :: "database \<Rightarrow> bool" where
  "db_keys d =
     (distinct (map tr_id (db_tenants d)) \<and> distinct (map ak_id (db_api_keys d)) \<and>
      distinct (map ak_hash (db_api_keys d)) \<and> distinct (map cr_id (db_channels d)) \<and>
      distinct (map rm_id (db_rooms d)) \<and> distinct (map sr_id (db_sessions d)))"

definition db_refs :: "database \<Rightarrow> bool" where
  "db_refs d =
     ((\<forall>k \<in> set (db_api_keys d). ak_tenant k \<in> tr_id ` set (db_tenants d)) \<and>
      (\<forall>c \<in> set (db_channels d). cr_tenant c \<in> tr_id ` set (db_tenants d)) \<and>
      (\<forall>r \<in> set (db_rooms d). rm_tenant r \<in> tr_id ` set (db_tenants d)) \<and>
      (\<forall>r \<in> set (db_sessions d). sr_tenant r \<in> tr_id ` set (db_tenants d)))"

definition db_columns :: "database \<Rightarrow> bool" where
  "db_columns d =
     ((\<forall>t \<in> set (db_tenants d). length (tr_name t) \<le> 255 \<and> length (tr_status t) \<le> 32) \<and>
      (\<forall>k \<in> set (db_api_keys d). length (ak_prefix k) \<le> 32 \<and> length (ak_hash k) \<le> 64 \<and> length (ak_status k) \<le> 32) \<and>
      (\<forall>c \<in> set (db_channels d). length (cr_name c) \<le> 200 \<and> length (cr_mode c) \<le> 32 \<and>
         fits_integer (cr_retention c) \<and> fits_integer (cr_max_size c)) \<and>
      (\<forall>r \<in> set (db_rooms d). length (rm_name r) \<le> 200) \<and>
      (\<forall>r \<in> set (db_sessions d). length (sr_status r) \<le> 32))"

definition db_wf :: "database \<Rightarrow> bool" where
  "db_wf d = (db_keys d \<and> db_refs d \<and> db_columns d)"

lemmas db_wf_defs = db_wf_def db_keys_def db_refs_def db_columns_def

section \<open>API keys\<close>

definition KEY_PREFIX_LENGTH :: nat where
  "KEY_PREFIX_LENGTH = 8"

definition hash_api_key :: "(string \<Rightarrow> string) \<Rightarrow> string \<Rightarrow> string" where
  "hash_api_key sha256 plaintext = sha256 plaintext"

definition generate_api_key :: "(string \<Rightarrow> string) \<Rightarrow> string \<Rightarrow> string \<times> string \<times> string" where
  "generate_api_key sha256 token =
     (let plaintext = ''relay_'' @ token;
          pre = take (KEY_PREFIX_LENGTH + 6) plaintext;
          key_hash = hash_api_key sha256 plaintext
      in (plaintext, pre, key_hash))"

definition verify_api_key :: "(string \<Rightarrow> string) \<Rightarrow> string \<Rightarrow> string \<Rightarrow> bool" where
  "verify_api_key sha256 plaintext key_hash = (hash_api_key sha256 plaintext = key_hash)"

section \<open>Authentication\<close>

record auth_context =
  ac_tenant_id :: string
  ac_api_key_id :: string

text \<open>The rows of the select: the join of keys and tenants under the three conditions.\<close>

definition auth_rows :: "database \<Rightarrow> string \<Rightarrow> (api_key_row \<times> tenant_row) list" where
  "auth_rows d key_hash =
     [(k, t). k \<leftarrow> db_api_keys d, t \<leftarrow> db_tenants d,
        ak_tenant k = tr_id t \<and> ak_hash k = key_hash \<and> ak_status k = ''active'' \<and> tr_status t = ''active'']"

definition authenticate_token :: "(string \<Rightarrow> string) \<Rightarrow> database \<Rightarrow> string \<Rightarrow> exn + auth_context" where
  "authenticate_token sha256 d token =
     (if token = [] then Inl (AuthenticationError ''missing token'')
      else
        (case auth_rows d (hash_api_key sha256 token) of
           [] \<Rightarrow> Inl (AuthenticationError ''invalid or revoked API key'')
         | (k, t) # _ \<Rightarrow> Inr \<lparr>ac_tenant_id = tr_id t, ac_api_key_id = ak_id k\<rparr>))"

definition channel_belongs_to_tenant :: "string \<Rightarrow> string \<Rightarrow> bool" where
  "channel_belongs_to_tenant channel tid = startswith channel (''t-'' @ tid @ '':'')"

definition namespaced_channel :: "string \<Rightarrow> string \<Rightarrow> string" where
  "namespaced_channel tid logical_name = ''t-'' @ tid @ '':'' @ logical_name"

section \<open>Lemmas\<close>

lemma auth_rows_iff:
  "(k, t) \<in> set (auth_rows d h) \<longleftrightarrow>
     k \<in> set (db_api_keys d) \<and> t \<in> set (db_tenants d) \<and> ak_tenant k = tr_id t \<and> ak_hash k = h \<and>
     ak_status k = ''active'' \<and> tr_status t = ''active''"
  by (auto simp: auth_rows_def)

lemma auth_rows_unique:
  assumes "db_wf d" and "(k, t) \<in> set (auth_rows d h)" and "(k', t') \<in> set (auth_rows d h)"
  shows "k' = k \<and> t' = t"
  using assms unfolding auth_rows_iff db_wf_def db_keys_def by (metis distinct_map inj_on_def)

lemma authenticate_Inr_iff:
  assumes "db_wf d"
  shows "authenticate_token sha d token = Inr a \<longleftrightarrow>
    token \<noteq> [] \<and> (\<exists>k t. (k, t) \<in> set (auth_rows d (hash_api_key sha token)) \<and>
      a = \<lparr>ac_tenant_id = tr_id t, ac_api_key_id = ak_id k\<rparr>)"
proof (cases "auth_rows d (hash_api_key sha token)")
  case Nil
  then show ?thesis by (simp add: authenticate_token_def)
next
  case (Cons x xs)
  obtain k t where x: "x = (k, t)" by (cases x)
  have "(k, t) \<in> set (auth_rows d (hash_api_key sha token))" using Cons x by simp
  then have "(k', t') \<in> set (auth_rows d (hash_api_key sha token)) \<longleftrightarrow> k' = k \<and> t' = t" for k' t'
    using auth_rows_unique [OF assms] by blast
  then show ?thesis using Cons x by (auto simp: authenticate_token_def)
qed

lemma authenticate_error:
  "authenticate_token sha d token = Inl e \<Longrightarrow> \<exists>m. e = AuthenticationError m"
  by (auto simp: authenticate_token_def split: if_splits list.splits)

lemma channel_belongs_iff: "channel_belongs_to_tenant ch tid \<longleftrightarrow> (\<exists>name. ch = namespaced_channel tid name)"
  by (auto simp: channel_belongs_to_tenant_def startswith_iff namespaced_channel_def)

lemma channel_one_tenant:
  assumes "CHR '':'' \<notin> set tid" and "CHR '':'' \<notin> set tid'"
    and "channel_belongs_to_tenant ch tid" and "channel_belongs_to_tenant ch tid'"
  shows "tid' = tid"
proof -
  from assms(3,4) obtain n n' where "ch = namespaced_channel tid n" "ch = namespaced_channel tid' n'"
    unfolding channel_belongs_iff by blast
  then have "tid @ CHR '':'' # n = tid' @ CHR '':'' # n'" by (simp add: namespaced_channel_def)
  from append_sep_inject [OF assms(1,2) this] show ?thesis by simp
qed

section \<open>Properties\<close>

text \<open>C32: Authentication admits exactly the active keys of active tenants.  In a database that satisfies
  its constraints, a token is accepted, and yields the ids of the key and of its tenant, exactly when
  it is not empty and its hash is that of an active key whose tenant is active; in every other case
  the call raises \<open>AuthenticationError\<close>.\<close>

theorem authenticate_exactly_active:
  assumes "db_wf d"
  shows "(authenticate_token sha d token = Inr \<lparr>ac_tenant_id = tid, ac_api_key_id = kid\<rparr> \<longleftrightarrow>
      token \<noteq> [] \<and>
      (\<exists>k \<in> set (db_api_keys d). \<exists>t \<in> set (db_tenants d).
         ak_hash k = sha token \<and> ak_status k = ''active'' \<and> ak_tenant k = tr_id t \<and> tr_status t = ''active'' \<and>
         tr_id t = tid \<and> ak_id k = kid)) \<and>
    (\<forall>e. authenticate_token sha d token = Inl e \<longrightarrow> (\<exists>m. e = AuthenticationError m))"
proof -
  have "authenticate_token sha d token = Inr \<lparr>ac_tenant_id = tid, ac_api_key_id = kid\<rparr> \<longleftrightarrow>
      token \<noteq> [] \<and>
      (\<exists>k \<in> set (db_api_keys d). \<exists>t \<in> set (db_tenants d).
         ak_hash k = sha token \<and> ak_status k = ''active'' \<and> ak_tenant k = tr_id t \<and> tr_status t = ''active'' \<and>
         tr_id t = tid \<and> ak_id k = kid)"
    unfolding authenticate_Inr_iff [OF assms] auth_rows_iff hash_api_key_def by auto
  then show ?thesis using authenticate_error by blast
qed

definition demo_db :: database where
  "demo_db =
     \<lparr>db_tenants = [\<lparr>tr_id = ''1'', tr_name = ''acme'', tr_status = ''active'', tr_created_at = 0, tr_updated_at = 0\<rparr>],
      db_api_keys =
        [\<lparr>ak_id = ''k1'', ak_tenant = ''1'', ak_prefix = ''relay_a'', ak_hash = ''relay_a'', ak_status = ''revoked'',
          ak_created_at = 0, ak_expires_at = None\<rparr>,
         \<lparr>ak_id = ''k2'', ak_tenant = ''1'', ak_prefix = ''relay_b'', ak_hash = ''relay_b'', ak_status = ''active'',
          ak_created_at = 0, ak_expires_at = None\<rparr>],
      db_channels = [], db_rooms = [], db_sessions = []\<rparr>"

lemma demo_db_wf: "db_wf demo_db"
  by (simp add: db_wf_defs demo_db_def)

theorem authenticate_exactly_active_witness:
  "authenticate_token id demo_db ''relay_b'' = Inr \<lparr>ac_tenant_id = ''1'', ac_api_key_id = ''k2''\<rparr> \<and>
   authenticate_token id demo_db ''relay_a'' \<noteq> Inr \<lparr>ac_tenant_id = ''1'', ac_api_key_id = ''k1''\<rparr>"
  using authenticate_exactly_active [OF demo_db_wf, of id "''relay_b''" "''1''" "''k2''"]
    authenticate_exactly_active [OF demo_db_wf, of id "''relay_a''" "''1''" "''k1''"]
  by (simp add: demo_db_def)

text \<open>A channel belongs to at most one tenant.  For tenant ids without a colon (they are UUIDs), the
  namespaces of two tenants are disjoint; every name built by \<open>namespaced_channel\<close> belongs to its
  tenant, and every channel of a tenant is built this way.\<close>

theorem channel_tenant_unique:
  assumes "CHR '':'' \<notin> set tid" and "CHR '':'' \<notin> set tid'"
  shows "(channel_belongs_to_tenant ch tid \<and> channel_belongs_to_tenant ch tid' \<longrightarrow> tid' = tid) \<and>
    (channel_belongs_to_tenant ch tid \<longleftrightarrow> (\<exists>name. ch = namespaced_channel tid name))"
  using channel_one_tenant [OF assms] channel_belongs_iff by blast

theorem channel_tenant_unique_witness:
  "channel_belongs_to_tenant ''t-1:chat'' ''1'' \<and> \<not> channel_belongs_to_tenant ''t-1:chat'' ''2''"
  using channel_tenant_unique [of "''1''" "''2''" "''t-1:chat''"]
  by (simp add: channel_belongs_to_tenant_def startswith_def)

end
