(* ===== verification/Redis_Service.thy ===== *)
theory Redis_Service
  imports Config
begin

text \<open>
  Redis, as the program sees it.  The server and the \<open>redis.asyncio\<close> client library are not part of
  the repository: they are a parameter of the model, the record \<open>redis\<close> with one operation \<open>rexec\<close>
  that sends a list of commands (one command, or a \<open>MULTI\<close>/\<open>EXEC\<close> pipeline) and \<open>rclock\<close>, the clock
  \<open>time.time()\<close> reads.  What the program relies on is the documented behaviour of the commands it
  uses, the relation \<open>redis_ok\<close> over an abstract keyspace, and two contracts: \<open>redis_service\<close>, with
  interference by other clients, lost connections, timeouts and the retries of the client library
  (a command may be executed several times, and also when the call raises), and \<open>redis_calm\<close>, a
  service without faults and without other clients.  An in-memory Redis with a script of faults
  interprets the contracts.
\<close>

section \<open>Keyspace, commands and replies\<close>

type_synonym fields = "(string \<times> string) list"
type_synonym entry_id = "int \<times> int"
type_synonym entry = "entry_id \<times> fields"

datatype rvalue =
    RString string
  | RHash fields
  | RSet "string list"
  | RStream "entry list"

type_synonym slot = "rvalue \<times> time option"

record rdb =
  rkeys :: "string \<rightharpoonup> slot"
  rpublished :: "(string \<times> string) list"

datatype rcmd =
    GET string
  | SET string string "int option"
  | DEL "string list"
  | INCR string
  | HSET string fields
  | HGETALL string
  | EXPIRE string int
  | SADD string string
  | SREM string string
  | SCARD string
  | XADD string fields int
  | XTRIM string int
  | XRANGE string
  | PUBLISH string string
  | SCAN string
  | RPING

datatype rreply =
    RNil
  | ROk
  | RInt int
  | RBulk string
  | RPairs fields
  | REntries "entry list"
  | RKeys "string list"
  | RErr

text \<open>A key with a deadline is absent from that time on.\<close>

definition expired :: "time \<Rightarrow> time option \<Rightarrow> bool" where
  "expired t dl = (case dl of None \<Rightarrow> False | Some x \<Rightarrow> x \<le> t)"

definition lookup_at :: "time \<Rightarrow> rdb \<Rightarrow> string \<Rightarrow> slot option" where
  "lookup_at t d k =
     (case rkeys d k of None \<Rightarrow> None | Some (v, dl) \<Rightarrow> if expired t dl then None else Some (v, dl))"

definition put_key :: "string \<Rightarrow> slot \<Rightarrow> rdb \<Rightarrow> rdb" where
  "put_key k x d = d\<lparr>rkeys := (rkeys d)(k \<mapsto> x)\<rparr>"

definition del_key :: "string \<Rightarrow> rdb \<Rightarrow> rdb" where
  "del_key k d = d\<lparr>rkeys := (rkeys d)(k := None)\<rparr>"

definition id_less :: "entry_id \<Rightarrow> entry_id \<Rightarrow> bool" where
  "id_less i j = (fst i < fst j \<or> fst i = fst j \<and> snd i < snd j)"

definition millis :: "time \<Rightarrow> int" where
  "millis t = floor (t * 1000)"

text \<open>\<open>MAXLEN = n\<close>: the newest \<open>n\<close> entries stay.\<close>

definition keep_last :: "int \<Rightarrow> 'a list \<Rightarrow> 'a list" where
  "keep_last n xs = drop (length xs - nat n) xs"

definition glob_free :: "string \<Rightarrow> bool" where
  "glob_free p = (set p \<inter> {CHR ''*'', CHR ''?'', CHR ''['', CHR '']'', CHR ''^'', CHR 0x5C} = {})"

section \<open>Documented behaviour of the commands\<close>

text \<open>
  \<open>redis_ok t c d r d'\<close>: executed at time \<open>t\<close> on the contents \<open>d\<close>, the command \<open>c\<close> may reply \<open>r\<close> and
  leave \<open>d'\<close>.  A command on a key of another type replies an error and changes nothing.  The id of a
  new stream entry is above every id of the stream and not before the time; approximate trimming
  removes some of the entries it may remove; a scan lists the live keys in any order, possibly
  repeated.
\<close>

fun redis_ok :: "time \<Rightarrow> rcmd \<Rightarrow> rdb \<Rightarrow> rreply \<Rightarrow> rdb \<Rightarrow> bool" where
  "redis_ok t (GET k) d r d' =
     (d' = d \<and>
      r = (case lookup_at t d k of
             None \<Rightarrow> RNil | Some (RString s, _) \<Rightarrow> RBulk s | Some _ \<Rightarrow> RErr))"
| "redis_ok t (SET k v ex) d r d' =
     (case ex of
        None \<Rightarrow> r = ROk \<and> d' = put_key k (RString v, None) d
      | Some n \<Rightarrow>
          if n \<le> 0 then r = RErr \<and> d' = d
          else r = ROk \<and> d' = put_key k (RString v, Some (t + of_int n)) d)"
| "redis_ok t (DEL ks) d r d' = (d' = foldr del_key ks d \<and> (\<exists>n. r = RInt n))"
| "redis_ok t (INCR k) d r d' =
     (case lookup_at t d k of
        None \<Rightarrow> r = RInt 1 \<and> d' = put_key k (RString (show_int 1), None) d
      | Some (RString s, dl) \<Rightarrow>
          (case parse_int s of
             None \<Rightarrow> r = RErr \<and> d' = d
           | Some n \<Rightarrow>
               if n < 2 ^ 63 - 1 then
                 r = RInt (n + 1) \<and> d' = put_key k (RString (show_int (n + 1)), dl) d
               else r = RErr \<and> d' = d)
      | Some _ \<Rightarrow> r = RErr \<and> d' = d)"
| "redis_ok t (HSET k fs) d r d' =
     (case lookup_at t d k of
        None \<Rightarrow> (\<exists>n. r = RInt n) \<and> d' = put_key k (RHash (AList.updates (map fst fs) (map snd fs) []), None) d
      | Some (RHash h, dl) \<Rightarrow>
          (\<exists>n. r = RInt n) \<and> d' = put_key k (RHash (AList.updates (map fst fs) (map snd fs) h), dl) d
      | Some _ \<Rightarrow> r = RErr \<and> d' = d)"
| "redis_ok t (HGETALL k) d r d' =
     (d' = d \<and>
      r = (case lookup_at t d k of
             None \<Rightarrow> RPairs [] | Some (RHash h, _) \<Rightarrow> RPairs h | Some _ \<Rightarrow> RErr))"
| "redis_ok t (EXPIRE k n) d r d' =
     (case lookup_at t d k of
        None \<Rightarrow> r = RInt 0 \<and> d' = d
      | Some (v, _) \<Rightarrow>
          r = RInt 1 \<and> d' = (if n \<le> 0 then del_key k d else put_key k (v, Some (t + of_int n)) d))"
| "redis_ok t (SADD k x) d r d' =
     (case lookup_at t d k of
        None \<Rightarrow> r = RInt 1 \<and> d' = put_key k (RSet [x], None) d
      | Some (RSet A, dl) \<Rightarrow>
          r = RInt (if x \<in> set A then 0 else 1) \<and> d' = put_key k (RSet (set_add x A), dl) d
      | Some _ \<Rightarrow> r = RErr \<and> d' = d)"
| "redis_ok t (SREM k x) d r d' =
     (case lookup_at t d k of
        None \<Rightarrow> r = RInt 0 \<and> d' = d
      | Some (RSet A, dl) \<Rightarrow>
          r = RInt (if x \<in> set A then 1 else 0) \<and>
          d' = (if set_discard x A = [] then del_key k d else put_key k (RSet (set_discard x A), dl) d)
      | Some _ \<Rightarrow> r = RErr \<and> d' = d)"
| "redis_ok t (SCARD k) d r d' =
     (d' = d \<and>
      r = (case lookup_at t d k of
             None \<Rightarrow> RInt 0 | Some (RSet A, _) \<Rightarrow> RInt (int (length A)) | Some _ \<Rightarrow> RErr))"
| "redis_ok t (XADD k fs n) d r d' =
     (if n < 0 then r = RErr \<and> d' = d
      else
        (case lookup_at t d k of
           None \<Rightarrow>
             (\<exists>i s. r = RBulk s \<and> millis t \<le> fst i \<and>
                d' = put_key k (RStream (keep_last n [(i, fs)]), None) d)
         | Some (RStream es, dl) \<Rightarrow>
             (\<exists>i s. r = RBulk s \<and> millis t \<le> fst i \<and> (\<forall>e \<in> set es. id_less (fst e) i) \<and>
                d' = put_key k (RStream (keep_last n (es @ [(i, fs)])), dl) d)
         | Some _ \<Rightarrow> r = RErr \<and> d' = d))"
| "redis_ok t (XTRIM k m) d r d' =
     (case lookup_at t d k of
        None \<Rightarrow> r = RInt 0 \<and> d' = d
      | Some (RStream es, dl) \<Rightarrow>
          (\<exists>j \<le> length es. (\<forall>e \<in> set (take j es). fst (fst e) < m) \<and> r = RInt (int j) \<and>
             d' = put_key k (RStream (drop j es), dl) d)
      | Some _ \<Rightarrow> r = RErr \<and> d' = d)"
| "redis_ok t (XRANGE k) d r d' =
     (d' = d \<and>
      r = (case lookup_at t d k of
             None \<Rightarrow> REntries [] | Some (RStream es, _) \<Rightarrow> REntries es | Some _ \<Rightarrow> RErr))"
| "redis_ok t (PUBLISH c m) d r d' =
     (d' = d\<lparr>rpublished := rpublished d @ [(c, m)]\<rparr> \<and> (\<exists>n. r = RInt n))"
| "redis_ok t (SCAN p) d r d' =
     (d' = d \<and>
      (\<exists>ks. r = RKeys ks \<and> (\<forall>k \<in> set ks. lookup_at t d k \<noteq> None) \<and>
         (\<forall>q. p = q @ ''*'' \<and> glob_free q \<longrightarrow>
            set ks = {k. startswith k q \<and> lookup_at t d k \<noteq> None})))"
| "redis_ok t RPING d r d' = (d' = d \<and> r = ROk)"

text \<open>A transaction executes its commands one after the other, at one time; an error reply does not
  undo the others.\<close>

fun redis_txn :: "time \<Rightarrow> rcmd list \<Rightarrow> rdb \<Rightarrow> rreply list \<Rightarrow> rdb \<Rightarrow> bool" where
  "redis_txn t [] d rs d' = (rs = [] \<and> d' = d)"
| "redis_txn t (c # cs) d rs d' =
     (\<exists>r d1 rs'. redis_ok t c d r d1 \<and> redis_txn t cs d1 rs' d' \<and> rs = r # rs')"

section \<open>The client and its contracts\<close>

record 'r redis =
  rexec :: "rcmd list \<Rightarrow> ('r, rreply list) io"
  rclock :: "'r \<Rightarrow> time"

text \<open>A single command raises the error the server replies; a pipeline raises the first one.\<close>

definition pipeline :: "'r redis \<Rightarrow> rcmd list \<Rightarrow> ('r, rreply list) io" where
  "pipeline X cs = bindE (rexec X cs) (\<lambda>rs. if RErr \<in> set rs then raiseE ResponseError else returnE rs)"

definition rcall :: "'r redis \<Rightarrow> rcmd \<Rightarrow> ('r, rreply) io" where
  "rcall X c = bindE (pipeline X [c]) (\<lambda>rs. returnE (hd rs))"

text \<open>Replies as the library hands them over; a reply of another kind does not occur.\<close>

definition int_reply :: "rreply \<Rightarrow> ('s, int) io" where
  "int_reply r = (case r of RInt n \<Rightarrow> returnE n | _ \<Rightarrow> raiseE ResponseError)"

definition string_reply :: "rreply \<Rightarrow> ('s, string option) io" where
  "string_reply r =
     (case r of RNil \<Rightarrow> returnE None | RBulk s \<Rightarrow> returnE (Some s) | _ \<Rightarrow> raiseE ResponseError)"

definition pairs_reply :: "rreply \<Rightarrow> ('s, fields) io" where
  "pairs_reply r = (case r of RPairs h \<Rightarrow> returnE h | _ \<Rightarrow> raiseE ResponseError)"

definition entries_reply :: "rreply \<Rightarrow> ('s, entry list) io" where
  "entries_reply r = (case r of REntries es \<Rightarrow> returnE es | _ \<Rightarrow> raiseE ResponseError)"

definition keys_reply :: "rreply \<Rightarrow> ('s, string list) io" where
  "keys_reply r = (case r of RKeys ks \<Rightarrow> returnE ks | _ \<Rightarrow> raiseE ResponseError)"

text \<open>What may happen before the attempt that answers: other clients run (\<open>rely\<close>), and earlier
  attempts of the same commands are executed whose replies are lost.\<close>

definition attempt ::
  "(rdb \<Rightarrow> rdb \<Rightarrow> bool) \<Rightarrow> time \<Rightarrow> time \<Rightarrow> rcmd list \<Rightarrow> rdb \<Rightarrow> rdb \<Rightarrow> bool" where
  "attempt rely t0 t1 cs d d' \<longleftrightarrow>
     rely d d' \<or> (\<exists>t rs. t0 \<le> t \<and> t \<le> t1 \<and> redis_txn t cs d rs d')"

locale redis_service =
  fixes X :: "'r redis" and db :: "'r \<Rightarrow> rdb" and rely :: "rdb \<Rightarrow> rdb \<Rightarrow> bool"
  assumes rely_refl: "rely d d"
    and exec_clock: "rexec X cs s = (x, s') \<Longrightarrow> rclock X s \<le> rclock X s'"
    and exec_ok: "rexec X cs s = (Inr rs, s') \<Longrightarrow>
      \<exists>t d d'. rclock X s \<le> t \<and> t \<le> rclock X s' \<and>
        (attempt rely (rclock X s) (rclock X s') cs)\<^sup>*\<^sup>* (db s) d \<and>
        redis_txn t cs d rs d' \<and> rely d' (db s')"
    and exec_error: "rexec X cs s = (Inl e, s') \<Longrightarrow>
      e \<in> {RedisConnectionError, RedisTimeoutError} \<and>
      (attempt rely (rclock X s) (rclock X s') cs)\<^sup>*\<^sup>* (db s) (db s')"

text \<open>No faults and no other clients: every call answers, executed exactly once.\<close>

locale redis_calm =
  fixes X :: "'r redis" and db :: "'r \<Rightarrow> rdb"
  assumes calm_exec: "\<exists>rs s' t. rexec X cs s = (Inr rs, s') \<and>
      rclock X s \<le> t \<and> t \<le> rclock X s' \<and> redis_txn t cs (db s) rs (db s')"

section \<open>Facts every client uses\<close>

lemma pipeline_Inr_iff:
  "pipeline X cs s = (Inr rs, s') \<longleftrightarrow> rexec X cs s = (Inr rs, s') \<and> RErr \<notin> set rs"
  by (auto simp: pipeline_def io_run_iffs split: if_splits)

lemma pipeline_Inl_iff:
  "pipeline X cs s = (Inl e, s') \<longleftrightarrow>
     rexec X cs s = (Inl e, s') \<or> (\<exists>rs. rexec X cs s = (Inr rs, s') \<and> RErr \<in> set rs \<and> e = ResponseError)"
  by (auto simp: pipeline_def io_run_iffs split: if_splits)

lemma pipeline_state: "snd (pipeline X cs s) = snd (rexec X cs s)"
  by (auto simp: pipeline_def bindE_def split: prod.splits sum.splits)

lemma rcall_state: "snd (rcall X c s) = snd (rexec X [c] s)"
  by (auto simp: rcall_def bindE_def pipeline_state [symmetric] split: prod.splits sum.splits)

lemma reply_Inr_iffs [simp]:
  "int_reply r s = (Inr n, s') \<longleftrightarrow> r = RInt n \<and> s' = s"
  "string_reply r s = (Inr x, s') \<longleftrightarrow> (r = RNil \<and> x = None \<or> (\<exists>v. r = RBulk v \<and> x = Some v)) \<and> s' = s"
  "pairs_reply r s = (Inr h, s') \<longleftrightarrow> r = RPairs h \<and> s' = s"
  "entries_reply r s = (Inr es, s') \<longleftrightarrow> r = REntries es \<and> s' = s"
  "keys_reply r s = (Inr ks, s') \<longleftrightarrow> r = RKeys ks \<and> s' = s"
  by (cases r; auto simp: int_reply_def string_reply_def pairs_reply_def entries_reply_def keys_reply_def)+

lemma reply_eval [simp]:
  "int_reply (RInt n) = returnE n"
  "string_reply RNil = returnE None" "string_reply (RBulk v) = returnE (Some v)"
  "pairs_reply (RPairs h) = returnE h"
  "entries_reply (REntries es) = returnE es"
  "keys_reply (RKeys ks) = returnE ks"
  by (simp_all add: int_reply_def string_reply_def pairs_reply_def entries_reply_def keys_reply_def)

lemma reply_state [simp]:
  "snd (int_reply r s) = s" "snd (string_reply r s) = s" "snd (pairs_reply r s) = s"
  "snd (entries_reply r s) = s" "snd (keys_reply r s) = s"
  by (cases r; simp add: int_reply_def string_reply_def pairs_reply_def entries_reply_def keys_reply_def)+

lemma redis_txn_single [simp]: "redis_txn t [c] d rs d' \<longleftrightarrow> (\<exists>r. rs = [r] \<and> redis_ok t c d r d')"
  by auto

lemma rkeys_put_key [simp]: "rkeys (put_key k x d) = (rkeys d)(k \<mapsto> x)"
  by (simp add: put_key_def)

lemma rkeys_del_key [simp]: "rkeys (del_key k d) = (rkeys d)(k := None)"
  by (simp add: del_key_def)

lemma rpublished_put_key [simp]: "rpublished (put_key k x d) = rpublished d"
  by (simp add: put_key_def)

lemma rpublished_del_key [simp]: "rpublished (del_key k d) = rpublished d"
  by (simp add: del_key_def)

lemma rkeys_del_keys [simp]: "rkeys (foldr del_key ks d) k = (if k \<in> set ks then None else rkeys d k)"
  by (induction ks) auto

lemma rpublished_del_keys [simp]: "rpublished (foldr del_key ks d) = rpublished d"
  by (induction ks) auto

lemma lookup_put_key [simp]:
  "lookup_at t (put_key k (v, dl) d) k' =
     (if k' = k then (if expired t dl then None else Some (v, dl)) else lookup_at t d k')"
  by (simp add: lookup_at_def)

lemma lookup_del_key [simp]: "lookup_at t (del_key k d) k' = (if k' = k then None else lookup_at t d k')"
  by (simp add: lookup_at_def)

lemma lookup_del_keys [simp]:
  "lookup_at t (foldr del_key ks d) k = (if k \<in> set ks then None else lookup_at t d k)"
  by (simp add: lookup_at_def)

lemma lookup_published [simp]: "lookup_at t (d\<lparr>rpublished := p\<rparr>) k = lookup_at t d k"
  by (simp add: lookup_at_def)

lemma expired_None [simp]: "\<not> expired t None"
  by (simp add: expired_def)

lemma expired_Some [simp]: "expired t (Some x) \<longleftrightarrow> x \<le> t"
  by (simp add: expired_def)

lemma lookup_mono:
  "lookup_at t d k = Some x \<Longrightarrow> t' \<le> t \<Longrightarrow> lookup_at t' d k = Some x"
  by (auto simp: lookup_at_def expired_def split: option.splits if_splits)

lemma lookup_None_mono: "lookup_at t d k = None \<Longrightarrow> t \<le> t' \<Longrightarrow> lookup_at t' d k = None"
  by (auto simp: lookup_at_def expired_def split: option.splits if_splits)

text \<open>The keys a command may write.\<close>

fun written :: "rcmd \<Rightarrow> string set" where
  "written (SET k _ _) = {k}"
| "written (DEL ks) = set ks"
| "written (INCR k) = {k}"
| "written (HSET k _) = {k}"
| "written (EXPIRE k _) = {k}"
| "written (SADD k _) = {k}"
| "written (SREM k _) = {k}"
| "written (XADD k _ _) = {k}"
| "written (XTRIM k _) = {k}"
| "written _ = {}"

lemma redis_ok_frame: "redis_ok t c d r d' \<Longrightarrow> k \<notin> written c \<Longrightarrow> rkeys d' k = rkeys d k"
  by (cases c) (auto split: option.split_asm prod.split_asm rvalue.split_asm if_split_asm)

lemma lookup_frame: "rkeys d' k = rkeys d k \<Longrightarrow> lookup_at t d' k = lookup_at t d k"
  by (simp add: lookup_at_def)

lemma redis_txn_frame:
  "redis_txn t cs d rs d' \<Longrightarrow> (\<forall>c \<in> set cs. k \<notin> written c) \<Longrightarrow> rkeys d' k = rkeys d k"
  by (induction cs arbitrary: d rs) (auto dest: redis_ok_frame)

lemma redis_ok_published:
  "redis_ok t c d r d' \<Longrightarrow> (\<And>ch m. c \<noteq> PUBLISH ch m) \<Longrightarrow> rpublished d' = rpublished d"
  by (cases c) (auto split: option.split_asm prod.split_asm rvalue.split_asm if_split_asm)

text \<open>Time does not run backwards in a computation.\<close>

definition clocked :: "'r redis \<Rightarrow> ('r, 'a) io \<Rightarrow> bool" where
  "clocked X m = (\<forall>s. rclock X s \<le> rclock X (snd (m s)))"

lemma clockedD: "clocked X m \<Longrightarrow> m s = (x, s') \<Longrightarrow> rclock X s \<le> rclock X s'"
  by (metis clocked_def snd_conv)

lemma clocked_bindE: "clocked X m \<Longrightarrow> (\<And>a. clocked X (f a)) \<Longrightarrow> clocked X (bindE m f)"
  by (fastforce simp: clocked_def bindE_def split: prod.splits sum.splits intro: order_trans)

lemma clocked_thenE: "clocked X m \<Longrightarrow> clocked X m' \<Longrightarrow> clocked X (thenE m m')"
  by (simp add: thenE_def clocked_bindE)

lemma clocked_basic [simp]:
  "clocked X (returnE a)" "clocked X (raiseE e)" "clocked X (getE f)"
  "clocked X (int_reply r)" "clocked X (string_reply r)" "clocked X (pairs_reply r)"
  "clocked X (entries_reply r)" "clocked X (keys_reply r)" "clocked X (Pair x)"
  by (simp_all add: clocked_def)

context redis_service
begin

text \<open>What other clients keep and the commands keep, the call keeps, whatever its outcome.\<close>

lemma attempts_inv:
  assumes "(attempt rely t0 t1 cs)\<^sup>*\<^sup>* d d'" and "I d"
    and "\<And>d d'. rely d d' \<Longrightarrow> I d \<Longrightarrow> I d'"
    and "\<And>t rs d d'. t0 \<le> t \<Longrightarrow> t \<le> t1 \<Longrightarrow> redis_txn t cs d rs d' \<Longrightarrow> I d \<Longrightarrow> I d'"
  shows "I d'"
  using assms(1,2) by (induction rule: rtranclp_induct) (auto simp: attempt_def intro: assms(3,4))

lemma exec_inv:
  assumes "rexec X cs s = (x, s')" and "I (db s)"
    and rely: "\<And>d d'. rely d d' \<Longrightarrow> I d \<Longrightarrow> I d'"
    and txn: "\<And>t rs d d'. rclock X s \<le> t \<Longrightarrow> t \<le> rclock X s' \<Longrightarrow> redis_txn t cs d rs d' \<Longrightarrow> I d \<Longrightarrow> I d'"
  shows "I (db s')"
proof (cases x)
  case (Inl e)
  with exec_error assms(1) have "(attempt rely (rclock X s) (rclock X s') cs)\<^sup>*\<^sup>* (db s) (db s')"
    by blast
  then show ?thesis by (rule attempts_inv [where I = I]) (use assms in auto)
next
  case (Inr rs)
  with exec_ok assms(1) obtain t d d' where t: "rclock X s \<le> t" "t \<le> rclock X s'"
    and d: "(attempt rely (rclock X s) (rclock X s') cs)\<^sup>*\<^sup>* (db s) d"
    and run: "redis_txn t cs d rs d'" and r: "rely d' (db s')"
    by blast
  from d have "I d" by (rule attempts_inv [where I = I]) (use assms in auto)
  then show ?thesis using t run r rely txn by blast
qed

lemma exec_state: "rexec X cs s = (fst (rexec X cs s), snd (rexec X cs s))"
  by simp

lemma rcall_inv:
  assumes "I (db s)" and "\<And>d d'. rely d d' \<Longrightarrow> I d \<Longrightarrow> I d'"
    and "\<And>t r d d'. rclock X s \<le> t \<Longrightarrow> redis_ok t c d r d' \<Longrightarrow> I d \<Longrightarrow> I d'"
  shows "I (db (snd (rcall X c s)))"
  unfolding rcall_state
  by (rule exec_inv [OF exec_state, where I = I]) (use assms in auto)

lemma pipeline_inv:
  assumes "I (db s)" and "\<And>d d'. rely d d' \<Longrightarrow> I d \<Longrightarrow> I d'"
    and "\<And>t rs d d'. rclock X s \<le> t \<Longrightarrow> redis_txn t cs d rs d' \<Longrightarrow> I d \<Longrightarrow> I d'"
  shows "I (db (snd (pipeline X cs s)))"
  unfolding pipeline_state
  by (rule exec_inv [OF exec_state, where I = I]) (use assms in auto)

lemma rcall_clock: "rclock X s \<le> rclock X (snd (rcall X c s))"
  unfolding rcall_state by (rule exec_clock [OF exec_state])

lemma pipeline_clock: "rclock X s \<le> rclock X (snd (pipeline X cs s))"
  unfolding pipeline_state by (rule exec_clock [OF exec_state])

lemma clocked_rcall: "clocked X (rcall X c)"
  by (simp add: clocked_def rcall_clock)

lemma clocked_pipeline: "clocked X (pipeline X cs)"
  by (simp add: clocked_def pipeline_clock)

lemma rcall_ok:
  assumes "rcall X c s = (Inr r, s')"
  obtains t d d' where "rclock X s \<le> t" "t \<le> rclock X s'"
    "(attempt rely (rclock X s) (rclock X s') [c])\<^sup>*\<^sup>* (db s) d"
    "redis_ok t c d r d'" "rely d' (db s')" "r \<noteq> RErr"
proof -
  from assms obtain rs where rs: "rexec X [c] s = (Inr rs, s')" "RErr \<notin> set rs" "r = hd rs"
    by (auto simp: rcall_def io_run_iffs pipeline_Inr_iff)
  from exec_ok [OF rs(1)] rs that show thesis by fastforce
qed

lemma rcall_error:
  assumes "rcall X c s = (Inl e, s')"
  shows "e \<in> {RedisConnectionError, RedisTimeoutError, ResponseError}"
  using assms exec_error by (auto simp: rcall_def io_run_iffs pipeline_Inl_iff)

end

context redis_calm
begin

lemma calm_pipeline:
  obtains rs s' t where "rexec X cs s = (Inr rs, s')" "rclock X s \<le> t" "t \<le> rclock X s'"
    "redis_txn t cs (db s) rs (db s')"
    "pipeline X cs s = (if RErr \<in> set rs then Inl ResponseError else Inr rs, s')"
proof -
  from calm_exec obtain rs s' t where "rexec X cs s = (Inr rs, s')" "rclock X s \<le> t"
    "t \<le> rclock X s'" "redis_txn t cs (db s) rs (db s')" by blast
  then show thesis by (intro that) (auto simp: pipeline_def bindE_def)
qed

lemma calm_call:
  obtains r s' t where "rclock X s \<le> t" "t \<le> rclock X s'" "redis_ok t c (db s) r (db s')"
    "rcall X c s = (if r = RErr then Inl ResponseError else Inr r, s')"
  by (rule calm_pipeline [of "[c]" s])
    (auto simp: rcall_def bindE_def intro!: that split: if_splits)

end

sublocale redis_calm \<subseteq> redis_service X db "(=)"
proof unfold_locales
  show "rclock X s \<le> rclock X s'" if "rexec X cs s = (x, s')" for cs s x s'
    using calm_exec [of cs s] that by force
  show "\<exists>t d d'. rclock X s \<le> t \<and> t \<le> rclock X s' \<and>
      (attempt (=) (rclock X s) (rclock X s') cs)\<^sup>*\<^sup>* (db s) d \<and> redis_txn t cs d rs d' \<and> d' = db s'"
    if "rexec X cs s = (Inr rs, s')" for cs s rs s'
    using calm_exec [of cs s] that by fastforce
  show "e \<in> {RedisConnectionError, RedisTimeoutError} \<and>
      (attempt (=) (rclock X s) (rclock X s') cs)\<^sup>*\<^sup>* (db s) (db s')"
    if "rexec X cs s = (Inl e, s')" for cs s e s'
    using calm_exec [of cs s] that by force
qed simp

context redis_calm
begin

lemma calm_service: "redis_service X db (=)"
  by unfold_locales

end

section \<open>An in-memory Redis with a script of faults\<close>

text \<open>Each call consumes one entry of the script: it is served, refused, served with the reply lost,
  or served twice, the first reply lost and the command retried.\<close>

datatype fault = Served | Refused | ReplyLost | Retried

record mem =
  mem_keys :: "(string \<times> slot) list"
  mem_pub :: "(string \<times> string) list"
  mem_clock :: time
  mem_faults :: "fault list"

definition mem_db :: "mem \<Rightarrow> rdb" where
  "mem_db m = \<lparr>rkeys = map_of (mem_keys m), rpublished = mem_pub m\<rparr>"

definition mem_put :: "string \<Rightarrow> slot \<Rightarrow> mem \<Rightarrow> mem" where
  "mem_put k x m = m\<lparr>mem_keys := AList.update k x (mem_keys m)\<rparr>"

definition mem_del :: "string \<Rightarrow> mem \<Rightarrow> mem" where
  "mem_del k m = m\<lparr>mem_keys := AList.delete k (mem_keys m)\<rparr>"

definition mem_get :: "time \<Rightarrow> mem \<Rightarrow> string \<Rightarrow> slot option" where
  "mem_get t m k =
     (case map_of (mem_keys m) k of
        None \<Rightarrow> None | Some (v, dl) \<Rightarrow> if expired t dl then None else Some (v, dl))"

definition next_id :: "time \<Rightarrow> entry list \<Rightarrow> entry_id" where
  "next_id t es =
     (fold max (map (fst \<circ> fst) es) (millis t), 1 + fold max (map (snd \<circ> fst) es) (- 1))"

fun mem_do :: "time \<Rightarrow> rcmd \<Rightarrow> mem \<Rightarrow> rreply \<times> mem" where
  "mem_do t (GET k) m =
     ((case mem_get t m k of None \<Rightarrow> RNil | Some (RString s, _) \<Rightarrow> RBulk s | Some _ \<Rightarrow> RErr), m)"
| "mem_do t (SET k v ex) m =
     (case ex of
        None \<Rightarrow> (ROk, mem_put k (RString v, None) m)
      | Some n \<Rightarrow>
          if n \<le> 0 then (RErr, m) else (ROk, mem_put k (RString v, Some (t + of_int n)) m))"
| "mem_do t (DEL ks) m =
     (RInt (int (length (filter (\<lambda>k. mem_get t m k \<noteq> None) ks))), foldr mem_del ks m)"
| "mem_do t (INCR k) m =
     (case mem_get t m k of
        None \<Rightarrow> (RInt 1, mem_put k (RString (show_int 1), None) m)
      | Some (RString s, dl) \<Rightarrow>
          (case parse_int s of
             None \<Rightarrow> (RErr, m)
           | Some n \<Rightarrow>
               if n < 2 ^ 63 - 1 then (RInt (n + 1), mem_put k (RString (show_int (n + 1)), dl) m)
               else (RErr, m))
      | Some _ \<Rightarrow> (RErr, m))"
| "mem_do t (HSET k fs) m =
     (case mem_get t m k of
        None \<Rightarrow> (RInt (int (length fs)),
                 mem_put k (RHash (AList.updates (map fst fs) (map snd fs) []), None) m)
      | Some (RHash h, dl) \<Rightarrow>
          (RInt (int (length fs)), mem_put k (RHash (AList.updates (map fst fs) (map snd fs) h), dl) m)
      | Some _ \<Rightarrow> (RErr, m))"
| "mem_do t (HGETALL k) m =
     ((case mem_get t m k of None \<Rightarrow> RPairs [] | Some (RHash h, _) \<Rightarrow> RPairs h | Some _ \<Rightarrow> RErr), m)"
| "mem_do t (EXPIRE k n) m =
     (case mem_get t m k of
        None \<Rightarrow> (RInt 0, m)
      | Some (v, _) \<Rightarrow>
          (RInt 1, if n \<le> 0 then mem_del k m else mem_put k (v, Some (t + of_int n)) m))"
| "mem_do t (SADD k x) m =
     (case mem_get t m k of
        None \<Rightarrow> (RInt 1, mem_put k (RSet [x], None) m)
      | Some (RSet A, dl) \<Rightarrow> (RInt (if x \<in> set A then 0 else 1), mem_put k (RSet (set_add x A), dl) m)
      | Some _ \<Rightarrow> (RErr, m))"
| "mem_do t (SREM k x) m =
     (case mem_get t m k of
        None \<Rightarrow> (RInt 0, m)
      | Some (RSet A, dl) \<Rightarrow>
          (RInt (if x \<in> set A then 1 else 0),
           if set_discard x A = [] then mem_del k m else mem_put k (RSet (set_discard x A), dl) m)
      | Some _ \<Rightarrow> (RErr, m))"
| "mem_do t (SCARD k) m =
     ((case mem_get t m k of
         None \<Rightarrow> RInt 0 | Some (RSet A, _) \<Rightarrow> RInt (int (length A)) | Some _ \<Rightarrow> RErr), m)"
| "mem_do t (XADD k fs n) m =
     (if n < 0 then (RErr, m)
      else
        (case mem_get t m k of
           None \<Rightarrow> (RBulk [], mem_put k (RStream (keep_last n [(next_id t [], fs)]), None) m)
         | Some (RStream es, dl) \<Rightarrow>
             (RBulk [], mem_put k (RStream (keep_last n (es @ [(next_id t es, fs)])), dl) m)
         | Some _ \<Rightarrow> (RErr, m)))"
| "mem_do t (XTRIM k i) m =
     (case mem_get t m k of
        None \<Rightarrow> (RInt 0, m)
      | Some (RStream es, dl) \<Rightarrow>
          let old = takeWhile (\<lambda>e. fst (fst e) < i) es
          in (RInt (int (length old)), mem_put k (RStream (drop (length old) es), dl) m)
      | Some _ \<Rightarrow> (RErr, m))"
| "mem_do t (XRANGE k) m =
     ((case mem_get t m k of
         None \<Rightarrow> REntries [] | Some (RStream es, _) \<Rightarrow> REntries es | Some _ \<Rightarrow> RErr), m)"
| "mem_do t (PUBLISH c x) m = (RInt 0, m\<lparr>mem_pub := mem_pub m @ [(c, x)]\<rparr>)"
| "mem_do t (SCAN p) m =
     (RKeys (if p \<noteq> [] \<and> last p = CHR ''*'' then
               filter (\<lambda>k. startswith k (butlast p) \<and> mem_get t m k \<noteq> None) (map fst (mem_keys m))
             else []), m)"
| "mem_do t RPING m = (ROk, m)"

fun mem_txn :: "time \<Rightarrow> rcmd list \<Rightarrow> mem \<Rightarrow> rreply list \<times> mem" where
  "mem_txn t [] m = ([], m)"
| "mem_txn t (c # cs) m =
     (let (r, m1) = mem_do t c m; (rs, m2) = mem_txn t cs m1 in (r # rs, m2))"

definition mem_serve :: "rcmd list \<Rightarrow> (mem, rreply list) io" where
  "mem_serve cs m = (let (rs, m') = mem_txn (mem_clock m) cs m in (Inr rs, m'))"

definition mem_exec :: "rcmd list \<Rightarrow> (mem, rreply list) io" where
  "mem_exec cs m =
     (case mem_faults m of
        [] \<Rightarrow> mem_serve cs m
      | f # fs \<Rightarrow>
          let m0 = m\<lparr>mem_faults := fs\<rparr>
          in (case f of
                Served \<Rightarrow> mem_serve cs m0
              | Refused \<Rightarrow> (Inl RedisConnectionError, m0)
              | ReplyLost \<Rightarrow> (Inl RedisTimeoutError, snd (mem_serve cs m0))
              | Retried \<Rightarrow> mem_serve cs (snd (mem_serve cs m0))))"

definition calm_redis :: "mem redis" where
  "calm_redis = \<lparr>rexec = mem_serve, rclock = mem_clock\<rparr>"

definition mem_redis :: "mem redis" where
  "mem_redis = \<lparr>rexec = mem_exec, rclock = mem_clock\<rparr>"

definition mem_start :: "time \<Rightarrow> fault list \<Rightarrow> mem" where
  "mem_start t fs = \<lparr>mem_keys = [], mem_pub = [], mem_clock = t, mem_faults = fs\<rparr>"

lemma mem_db_put [simp]: "mem_db (mem_put k x m) = put_key k x (mem_db m)"
  by (simp add: mem_db_def mem_put_def put_key_def update_conv')

lemma mem_db_del [simp]: "mem_db (mem_del k m) = del_key k (mem_db m)"
  by (simp add: mem_db_def mem_del_def del_key_def delete_conv')

lemma mem_db_dels [simp]: "mem_db (foldr mem_del ks m) = foldr del_key ks (mem_db m)"
  by (induction ks) auto

lemma mem_db_publish [simp]:
  "mem_db (m\<lparr>mem_pub := p\<rparr>) = (mem_db m)\<lparr>rpublished := p\<rparr>"
  by (simp add: mem_db_def)

lemma rpublished_mem_db [simp]: "rpublished (mem_db m) = mem_pub m"
  by (simp add: mem_db_def)

lemma mem_db_control [simp]:
  "mem_db (m\<lparr>mem_faults := f\<rparr>) = mem_db m" "mem_db (m\<lparr>mem_clock := t\<rparr>) = mem_db m"
  by (simp_all add: mem_db_def)

lemma mem_get_lookup [simp]: "mem_get t m k = lookup_at t (mem_db m) k"
  by (simp add: mem_get_def lookup_at_def mem_db_def)

lemma mem_put_control [simp]:
  "mem_clock (mem_put k x m) = mem_clock m" "mem_faults (mem_put k x m) = mem_faults m"
  "mem_clock (mem_del k m) = mem_clock m" "mem_faults (mem_del k m) = mem_faults m"
  by (simp_all add: mem_put_def mem_del_def)

lemma mem_dels_control [simp]:
  "mem_clock (foldr mem_del ks m) = mem_clock m" "mem_faults (foldr mem_del ks m) = mem_faults m"
  by (induction ks) auto

lemma fold_max_ge: "x \<le> fold max xs (x :: int)" "y \<in> set xs \<Longrightarrow> y \<le> fold max xs (x :: int)"
proof -
  have ge: "z \<le> fold max xs z" for z :: int and xs
    by (induction xs arbitrary: z) (auto intro: order_trans [OF max.cobounded2])
  show "x \<le> fold max xs x" by (rule ge)
  show "y \<in> set xs \<Longrightarrow> y \<le> fold max xs x"
  proof (induction xs arbitrary: x)
    case (Cons a xs)
    then show ?case using ge [of "max a x" xs] by auto
  qed simp
qed

lemma next_id_ok: "millis t \<le> fst (next_id t es)" "e \<in> set es \<Longrightarrow> id_less (fst e) (next_id t es)"
proof -
  show "millis t \<le> fst (next_id t es)" by (simp add: next_id_def fold_max_ge)
  assume e: "e \<in> set es"
  then have "fst (fst e) \<le> fold max (map (fst \<circ> fst) es) (millis t)"
    by (intro fold_max_ge(2)) auto
  moreover have "snd (fst e) \<le> fold max (map (snd \<circ> fst) es) (- 1)"
    using e by (intro fold_max_ge(2)) auto
  ultimately show "id_less (fst e) (next_id t es)" by (auto simp: id_less_def next_id_def)
qed

lemma mem_scan_ok:
  "{k \<in> fst ` set (mem_keys m). startswith k q \<and> lookup_at t (mem_db m) k \<noteq> None} =
     {k. startswith k q \<and> lookup_at t (mem_db m) k \<noteq> None}"
proof -
  have "k \<in> fst ` set (mem_keys m)" if "lookup_at t (mem_db m) k \<noteq> None" for k
    using that by (cases "map_of (mem_keys m) k")
      (auto simp: lookup_at_def mem_db_def dom_map_of_conv_image_fst [symmetric])
  then show ?thesis by blast
qed

lemma mem_xadd_ok:
  "\<exists>i. millis t \<le> fst i \<and> (\<forall>e \<in> set es. id_less (fst e) i) \<and>
     put_key k (RStream (keep_last n (es @ [(next_id t es, fs)])), dl) d =
     put_key k (RStream (keep_last n (es @ [(i, fs)])), dl) d"
  by (rule exI [of _ "next_id t es"]) (simp add: next_id_ok)

lemma mem_xtrim_ok:
  "\<forall>e \<in> set (take (length (takeWhile (\<lambda>e. fst (fst e) < i) es)) es). fst (fst (e :: entry)) < i"
  unfolding takeWhile_eq_take [symmetric] by (metis (mono_tags, lifting) set_takeWhileD)

lemma mem_do_ok: "mem_do t c m = (r, m') \<Longrightarrow> redis_ok t c (mem_db m) r (mem_db m')"
proof (cases c)
  case (XADD k fs n)
  moreover assume "mem_do t c m = (r, m')"
  ultimately show ?thesis
    using mem_xadd_ok [of t "[]"] mem_xadd_ok
    by (auto simp del: split_paired_Ex split: if_split_asm option.split_asm prod.split_asm rvalue.split_asm)
next
  case (XTRIM k i)
  moreover assume "mem_do t c m = (r, m')"
  ultimately have run: "mem_do t (XTRIM k i) m = (r, m')" by simp
  show ?thesis
  proof (cases "lookup_at t (mem_db m) k")
    case (Some x)
    obtain v dl where x: "x = (v, dl)" by (cases x)
    show ?thesis
    proof (cases v)
      case (RStream es)
      let ?n = "length (takeWhile (\<lambda>e. fst (fst e) < i) es)"
      have "r = RInt (int ?n)" "mem_db m' = put_key k (RStream (drop ?n es), dl) (mem_db m)"
        using run Some x RStream by (auto simp: Let_def)
      then have "?n \<le> length es \<and> (\<forall>e \<in> set (take ?n es). fst (fst e) < i) \<and> r = RInt (int ?n) \<and>
          mem_db m' = put_key k (RStream (drop ?n es), dl) (mem_db m)"
        using mem_xtrim_ok [of i es] length_takeWhile_le [of _ es] by blast
      then show ?thesis unfolding XTRIM redis_ok.simps Some x RStream
        unfolding option.case prod.case rvalue.case by (rule exI [of _ ?n])
    qed (use run XTRIM Some x in simp_all)
  qed (use run XTRIM in simp)
next
  case (SCAN p)
  moreover assume "mem_do t c m = (r, m')"
  ultimately show ?thesis using mem_scan_ok [of m "butlast p" t] by auto
qed (auto split: option.split prod.split rvalue.split if_split)

lemma mem_do_control:
  "mem_do t c m = (r, m') \<Longrightarrow> mem_clock m' = mem_clock m \<and> mem_faults m' = mem_faults m"
  by (cases c) (auto simp: Let_def split: option.split_asm prod.split_asm rvalue.split_asm if_split_asm)

lemma mem_txn_ok:
  "mem_txn t cs m = (rs, m') \<Longrightarrow>
     redis_txn t cs (mem_db m) rs (mem_db m') \<and> mem_clock m' = mem_clock m \<and> mem_faults m' = mem_faults m"
  by (induction cs arbitrary: m rs)
    (fastforce split: prod.splits dest: mem_do_ok mem_do_control)+

lemma mem_serve_ok:
  "mem_serve cs m = (x, m') \<Longrightarrow>
     \<exists>rs. x = Inr rs \<and> redis_txn (mem_clock m) cs (mem_db m) rs (mem_db m') \<and>
       mem_clock m' = mem_clock m \<and> mem_faults m' = mem_faults m"
  using mem_txn_ok by (fastforce simp: mem_serve_def split: prod.splits)

interpretation calm_mem: redis_calm calm_redis mem_db
proof unfold_locales
  fix cs m
  show "\<exists>rs m' t. rexec calm_redis cs m = (Inr rs, m') \<and> rclock calm_redis m \<le> t \<and>
      t \<le> rclock calm_redis m' \<and> redis_txn t cs (mem_db m) rs (mem_db m')"
    using mem_serve_ok [of cs m] by (cases "mem_serve cs m") (fastforce simp: calm_redis_def)
qed

text \<open>The clock of the in-memory Redis moves only when a scenario moves it.\<close>

definition still :: "(mem, 'a) io \<Rightarrow> bool" where
  "still m = (\<forall>s. mem_clock (snd (m s)) = mem_clock s)"

lemma still_rcall: "still (rcall calm_redis c)"
proof -
  have "mem_clock (snd (mem_serve [c] s)) = mem_clock s" for s
    using mem_serve_ok [of "[c]" s] by (metis surjective_pairing)
  then show ?thesis by (simp add: still_def rcall_state calm_redis_def)
qed

lemma still_bindE: "still m \<Longrightarrow> (\<And>a. still (f a)) \<Longrightarrow> still (bindE m f)"
  by (auto simp: still_def bindE_def split: prod.splits sum.splits) (metis snd_conv)+

lemma still_thenE: "still m \<Longrightarrow> still m' \<Longrightarrow> still (thenE m m')"
  by (simp add: thenE_def still_bindE)

lemma still_basic [simp]:
  "still (returnE a)" "still (raiseE e)" "still (getE f)" "still (int_reply r)" "still (string_reply r)"
  "still (pairs_reply r)" "still (entries_reply r)" "still (keys_reply r)" "still (Pair x)"
  by (simp_all add: still_def)

lemma mem_attempt:
  assumes "mem_serve cs m = (x, m')" "\<And>d. rely d d"
  shows "(attempt rely (mem_clock m) (mem_clock m) cs)\<^sup>*\<^sup>* (mem_db m) (mem_db m')"
  using mem_serve_ok [OF assms(1)] by (auto simp: attempt_def intro!: r_into_rtranclp)

lemma mem_exec_ok:
  assumes rely: "\<And>d. rely d d" and run: "mem_exec cs m = (x, m')"
  shows "mem_clock m' = mem_clock m \<and>
    (case x of
       Inl e \<Rightarrow> e \<in> {RedisConnectionError, RedisTimeoutError} \<and>
         (attempt rely (mem_clock m) (mem_clock m) cs)\<^sup>*\<^sup>* (mem_db m) (mem_db m')
     | Inr rs \<Rightarrow> \<exists>d. (attempt rely (mem_clock m) (mem_clock m) cs)\<^sup>*\<^sup>* (mem_db m) d \<and>
         redis_txn (mem_clock m) cs d rs (mem_db m'))"
proof (cases "mem_faults m")
  case Nil
  with run mem_serve_ok [of cs m x m'] show ?thesis by (auto simp: mem_exec_def)
next
  case (Cons f fs)
  let ?m = "m\<lparr>mem_faults := fs\<rparr>"
  obtain y m1 where y: "mem_serve cs ?m = (y, m1)" by (cases "mem_serve cs ?m")
  note ok = mem_serve_ok [OF y] and att = mem_attempt [OF y, of rely, OF rely]
  show ?thesis
  proof (cases f)
    case Retried
    with run Cons y have "mem_serve cs m1 = (x, m')" by (simp add: mem_exec_def Let_def)
    from mem_serve_ok [OF this] ok att show ?thesis by auto
  qed (use run Cons y ok att in \<open>auto simp: mem_exec_def Let_def\<close>)
qed

lemma mem_redis_service:
  assumes rely: "\<And>d. rely d d"
  shows "redis_service mem_redis mem_db rely"
proof unfold_locales
  note ok = mem_exec_ok [where rely = rely, OF rely]
  show "rclock mem_redis m \<le> rclock mem_redis m'" if "rexec mem_redis cs m = (x, m')" for cs m x m'
    using that ok [of cs m x m'] by (simp add: mem_redis_def)
  show "\<exists>t d d'. rclock mem_redis m \<le> t \<and> t \<le> rclock mem_redis m' \<and>
      (attempt rely (rclock mem_redis m) (rclock mem_redis m') cs)\<^sup>*\<^sup>* (mem_db m) d \<and>
      redis_txn t cs d rs d' \<and> rely d' (mem_db m')"
    if "rexec mem_redis cs m = (Inr rs, m')" for cs m rs m'
    using that ok [of cs m "Inr rs" m'] rely by (auto simp: mem_redis_def)
  show "e \<in> {RedisConnectionError, RedisTimeoutError} \<and>
      (attempt rely (rclock mem_redis m) (rclock mem_redis m') cs)\<^sup>*\<^sup>* (mem_db m) (mem_db m')"
    if "rexec mem_redis cs m = (Inl e, m')" for cs m e m'
    using that ok [of cs m "Inl e" m'] by (simp add: mem_redis_def)
qed (rule rely)

text \<open>With faults, and without other clients.\<close>

interpretation faulty_mem: redis_service mem_redis mem_db "(=)"
  by (rule mem_redis_service) simp

end
