(* ===== verification/Json.thy ===== *)
theory Json
  imports Relay_Prelude
begin

text \<open>
  The part of Python's \<open>json\<close> module the program uses: JSON values, \<open>json.dumps\<close> (with its default
  \<open>ensure_ascii\<close> escaping and the separators as arguments) and \<open>json.loads\<close> (whitespace, escapes,
  numbers, duplicate keys resolved to the last one).  A float is kept as the text of its literal.
  \<open>loads\<close> runs a recursive descent parser on fuel; two units per character and two more are enough
  for every output of \<open>dumps\<close> (\<open>p_value_dumps\<close>).  A code point above U+00FF in an escape sequence
  has no counterpart in the string model and is rejected.
\<close>

section \<open>Values\<close>

datatype json =
    JNull
  | JBool bool
  | JInt int
  | JFloat string
  | JStr string
  | JArr "json list"
  | JObj "(string \<times> json) list"

abbreviation dquote :: char where "dquote \<equiv> CHR 0x22"
abbreviation backslash :: char where "backslash \<equiv> CHR 0x5C"

text \<open>\<open>d.get(key)\<close> on a JSON object; \<open>None\<close> when the key is missing.\<close>

definition jget :: "(string \<times> json) list \<Rightarrow> string \<Rightarrow> json option" where
  "jget kvs k = map_of kvs k"

section \<open>json.dumps\<close>

definition hex_digit :: "nat \<Rightarrow> char" where
  "hex_digit d = (if d < 10 then char_of (48 + d) else char_of (87 + d))"

definition esc_char :: "char \<Rightarrow> string" where
  "esc_char c =
     (if c = dquote \<or> c = backslash then [backslash, c]
      else if c = CHR 0x08 then [backslash, CHR ''b'']
      else if c = CHR 0x09 then [backslash, CHR ''t'']
      else if c = CHR 0x0A then [backslash, CHR ''n'']
      else if c = CHR 0x0C then [backslash, CHR ''f'']
      else if c = CHR 0x0D then [backslash, CHR ''r'']
      else if 32 \<le> (of_char c :: nat) \<and> (of_char c :: nat) \<le> 126 then [c]
      else [backslash, CHR ''u'', CHR ''0'', CHR ''0'',
            hex_digit (of_char c div 16), hex_digit (of_char c mod 16)])"

definition dump_str :: "string \<Rightarrow> string" where
  "dump_str s = dquote # concat (map esc_char s) @ [dquote]"

fun dumps :: "string \<Rightarrow> string \<Rightarrow> json \<Rightarrow> string"
  and dumps_elems :: "string \<Rightarrow> string \<Rightarrow> json list \<Rightarrow> string"
  and dumps_members :: "string \<Rightarrow> string \<Rightarrow> (string \<times> json) list \<Rightarrow> string" where
  "dumps si sk JNull = ''null''"
| "dumps si sk (JBool b) = (if b then ''true'' else ''false'')"
| "dumps si sk (JInt i) = show_int i"
| "dumps si sk (JFloat t) = t"
| "dumps si sk (JStr s) = dump_str s"
| "dumps si sk (JArr xs) = CHR ''['' # dumps_elems si sk xs @ '']''"
| "dumps si sk (JObj kvs) = CHR ''{'' # dumps_members si sk kvs @ ''}''"
| "dumps_elems si sk [] = []"
| "dumps_elems si sk (x # xs) =
     dumps si sk x @ (if xs = [] then [] else si @ dumps_elems si sk xs)"
| "dumps_members si sk [] = []"
| "dumps_members si sk ((k, v) # kvs) =
     dump_str k @ sk @ dumps si sk v @ (if kvs = [] then [] else si @ dumps_members si sk kvs)"

text \<open>\<open>json.dumps(v)\<close> with the default separators.\<close>

definition json_dumps :: "json \<Rightarrow> string" where
  "json_dumps v = dumps '', '' '': '' v"

section \<open>json.loads\<close>

definition is_ws :: "char \<Rightarrow> bool" where
  "is_ws c = (c = CHR 0x20 \<or> c = CHR 0x09 \<or> c = CHR 0x0A \<or> c = CHR 0x0D)"

definition skip_ws :: "string \<Rightarrow> string" where
  "skip_ws s = dropWhile is_ws s"

definition hex_val :: "char \<Rightarrow> nat option" where
  "hex_val c =
     (let n = (of_char c :: nat) in
      if 48 \<le> n \<and> n \<le> 57 then Some (n - 48)
      else if 97 \<le> n \<and> n \<le> 102 then Some (n - 87)
      else if 65 \<le> n \<and> n \<le> 70 then Some (n - 55)
      else None)"

definition unesc :: "char \<Rightarrow> char option" where
  "unesc c =
     (if c = dquote \<or> c = backslash \<or> c = CHR ''/'' then Some c
      else if c = CHR ''b'' then Some (CHR 0x08)
      else if c = CHR ''t'' then Some (CHR 0x09)
      else if c = CHR ''n'' then Some (CHR 0x0A)
      else if c = CHR ''f'' then Some (CHR 0x0C)
      else if c = CHR ''r'' then Some (CHR 0x0D)
      else None)"

definition unesc_hex :: "char \<Rightarrow> char \<Rightarrow> char \<Rightarrow> char \<Rightarrow> char option" where
  "unesc_hex a b c d =
     (case (hex_val a, hex_val b, hex_val c, hex_val d) of
        (Some w, Some x, Some y, Some z) \<Rightarrow>
          if w = 0 \<and> x = 0 then Some (char_of (16 * y + z)) else None
      | _ \<Rightarrow> None)"

text \<open>The body of a string literal, after its opening quote.\<close>

fun p_string :: "string \<Rightarrow> (string \<times> string) option" where
  "p_string [] = None"
| "p_string (c # s) =
     (if c = dquote then Some ([], s)
      else if c = backslash then
        (case s of
           [] \<Rightarrow> None
         | e # s1 \<Rightarrow>
             if e = CHR ''u'' then
               (case s1 of
                  h1 # h2 # h3 # h4 # s2 \<Rightarrow>
                    (case unesc_hex h1 h2 h3 h4 of
                       None \<Rightarrow> None
                     | Some x \<Rightarrow> map_option (\<lambda>(t, r). (x # t, r)) (p_string s2))
                | _ \<Rightarrow> None)
             else
               (case unesc e of
                  None \<Rightarrow> None
                | Some x \<Rightarrow> map_option (\<lambda>(t, r). (x # t, r)) (p_string s1)))
      else if (of_char c :: nat) < 32 then None
      else map_option (\<lambda>(t, r). (c # t, r)) (p_string s))"

definition num_char :: "char \<Rightarrow> bool" where
  "num_char c = (is_digit c \<or> c \<in> {CHR ''-'', CHR ''+'', CHR ''.'', CHR ''e'', CHR ''E''})"

definition json_int_tok :: "string \<Rightarrow> bool" where
  "json_int_tok s =
     (s = ''-0'' \<or> (case parse_int s of Some i \<Rightarrow> show_int i = s | None \<Rightarrow> False))"

definition exp_tok :: "string \<Rightarrow> bool" where
  "exp_tok s =
     (case s of
        [] \<Rightarrow> False
      | e # ds \<Rightarrow>
          e \<in> {CHR ''e'', CHR ''E''} \<and>
          (case ds of
             [] \<Rightarrow> False
           | d # ds' \<Rightarrow>
               if d \<in> {CHR ''+'', CHR ''-''} then ds' \<noteq> [] \<and> list_all is_digit ds'
               else list_all is_digit ds))"

definition json_float_tok :: "string \<Rightarrow> bool" where
  "json_float_tok s =
     (let ip = takeWhile (\<lambda>c. is_digit c \<or> c = CHR ''-'') s;
          r = dropWhile (\<lambda>c. is_digit c \<or> c = CHR ''-'') s
      in json_int_tok ip \<and>
         (case r of
            [] \<Rightarrow> False
          | c # r' \<Rightarrow>
              if c = CHR ''.'' then
                (let fp = takeWhile is_digit r'; x = dropWhile is_digit r'
                 in fp \<noteq> [] \<and> (x = [] \<or> exp_tok x))
              else exp_tok r))"

definition p_number :: "string \<Rightarrow> (json \<times> string) option" where
  "p_number s =
     (let tok = takeWhile num_char s; r = dropWhile num_char s
      in if json_int_tok tok then Some (JInt (the (parse_int tok)), r)
         else if json_float_tok tok then Some (JFloat tok, r)
         else None)"

text \<open>Python's decoder stores the pairs of an object in a dict, so the last duplicate wins.\<close>

definition dict_of :: "(string \<times> json) list \<Rightarrow> (string \<times> json) list" where
  "dict_of kvs = foldl (\<lambda>d (k, v). AList.update k v d) [] kvs"

fun p_value :: "nat \<Rightarrow> string \<Rightarrow> (json \<times> string) option"
  and p_elems :: "nat \<Rightarrow> string \<Rightarrow> (json list \<times> string) option"
  and p_members :: "nat \<Rightarrow> string \<Rightarrow> ((string \<times> json) list \<times> string) option" where
  "p_value 0 s = None"
| "p_value (Suc n) s =
     (case skip_ws s of
        [] \<Rightarrow> None
      | c # r \<Rightarrow>
          if c = dquote then map_option (\<lambda>(t, r'). (JStr t, r')) (p_string r)
          else if c = CHR ''['' then
            (if startswith (skip_ws r) '']'' then Some (JArr [], tl (skip_ws r))
             else map_option (\<lambda>(xs, r'). (JArr xs, r')) (p_elems n r))
          else if c = CHR ''{'' then
            (if startswith (skip_ws r) ''}'' then Some (JObj [], tl (skip_ws r))
             else map_option (\<lambda>(kvs, r'). (JObj (dict_of kvs), r')) (p_members n r))
          else if startswith (c # r) ''null'' then Some (JNull, drop 4 (c # r))
          else if startswith (c # r) ''true'' then Some (JBool True, drop 4 (c # r))
          else if startswith (c # r) ''false'' then Some (JBool False, drop 5 (c # r))
          else if startswith (c # r) ''NaN'' then Some (JFloat ''NaN'', drop 3 (c # r))
          else if startswith (c # r) ''Infinity'' then Some (JFloat ''Infinity'', drop 8 (c # r))
          else if startswith (c # r) ''-Infinity'' then Some (JFloat ''-Infinity'', drop 9 (c # r))
          else p_number (c # r))"
| "p_elems 0 s = None"
| "p_elems (Suc n) s =
     (case p_value n s of
        None \<Rightarrow> None
      | Some (v, r) \<Rightarrow>
          if startswith (skip_ws r) '']'' then Some ([v], tl (skip_ws r))
          else if startswith (skip_ws r) '','' then
            map_option (\<lambda>(xs, r'). (v # xs, r')) (p_elems n (tl (skip_ws r)))
          else None)"
| "p_members 0 s = None"
| "p_members (Suc n) s =
     (case skip_ws s of
        [] \<Rightarrow> None
      | c # r \<Rightarrow>
          if c = dquote then
            (case p_string r of
               None \<Rightarrow> None
             | Some (k, r1) \<Rightarrow>
                 if startswith (skip_ws r1) '':'' then
                   (case p_value n (tl (skip_ws r1)) of
                      None \<Rightarrow> None
                    | Some (v, r2) \<Rightarrow>
                        if startswith (skip_ws r2) ''}'' then Some ([(k, v)], tl (skip_ws r2))
                        else if startswith (skip_ws r2) '','' then
                          map_option (\<lambda>(kvs, r'). ((k, v) # kvs, r'))
                            (p_members n (tl (skip_ws r2)))
                        else None)
                 else None)
          else None)"

definition json_loads :: "string \<Rightarrow> json option" where
  "json_loads s =
     (case p_value (2 * length s + 2) s of
        None \<Rightarrow> None
      | Some (v, r) \<Rightarrow> if skip_ws r = [] then Some v else None)"

text \<open>The values \<open>dumps\<close> is used on: objects are dicts (distinct keys), floats are finite literals.\<close>

fun wf_json :: "json \<Rightarrow> bool" where
  "wf_json (JFloat t) = (json_float_tok t \<and> list_all num_char t \<and> \<not> json_int_tok t)"
| "wf_json (JArr xs) = list_all wf_json xs"
| "wf_json (JObj kvs) = (distinct (map fst kvs) \<and> list_all (\<lambda>(k, v). wf_json v) kvs)"
| "wf_json _ = True"

section \<open>Reading back what was written\<close>

text \<open>Separators as \<open>json.dumps\<close> is called with: a comma, a colon, then optional blanks.\<close>

definition good_seps :: "string \<Rightarrow> string \<Rightarrow> bool" where
  "good_seps si sk =
     (si \<noteq> [] \<and> hd si = CHR '','' \<and> list_all is_ws (tl si) \<and>
      sk \<noteq> [] \<and> hd sk = CHR '':'' \<and> list_all is_ws (tl sk))"

definition delim :: "string \<Rightarrow> bool" where
  "delim r = (r = [] \<or> \<not> num_char (hd r))"

lemma skip_ws_append: "list_all is_ws w \<Longrightarrow> skip_ws (w @ s) = skip_ws s"
  by (induction w) (simp_all add: skip_ws_def)

lemma skip_ws_Cons: "skip_ws (c # s) = (if is_ws c then skip_ws s else c # s)"
  by (simp add: skip_ws_def)

lemma startswith_Cons: "startswith (c # s) (d # p) = (c = d \<and> startswith s p)"
  by (auto simp: startswith_def)

lemma startswith_Nil_right [simp]: "startswith s []"
  by (simp add: startswith_def)

lemma startswith_Nil_left [simp]: "startswith [] p = (p = [])"
  by (auto simp: startswith_def)

lemma skip_ws_idem [simp]: "skip_ws (skip_ws s) = skip_ws s"
  unfolding skip_ws_def by (induction s) simp_all

lemma p_value_ws: "list_all is_ws w \<Longrightarrow> p_value n (w @ s) = p_value n s"
  by (cases n) (simp_all add: skip_ws_append)

lemma p_elems_ws: "list_all is_ws w \<Longrightarrow> p_elems n (w @ s) = p_elems n s"
  by (cases n) (simp_all add: p_value_ws)

lemma p_members_ws: "list_all is_ws w \<Longrightarrow> p_members n (w @ s) = p_members n s"
  by (cases n) (simp_all add: skip_ws_append)

subsection \<open>Strings\<close>

lemma hex_val_hex_digit [simp]: "d < 16 \<Longrightarrow> hex_val (hex_digit d) = Some d"
  by (simp add: hex_val_def hex_digit_def Let_def)

lemma unesc_hex_hex_digit:
  "unesc_hex (CHR ''0'') (CHR ''0'') (hex_digit (of_char c div 16)) (hex_digit (of_char c mod 16))
     = Some c"
proof -
  have "of_char c < (256 :: nat)" by simp
  then have "of_char c div 16 < (16 :: nat)" by (simp only: less_mult_imp_div_less)
  moreover have "hex_val (CHR ''0'') = Some 0" by (simp add: hex_val_def Let_def)
  ultimately show ?thesis by (simp add: unesc_hex_def mult_div_mod_eq)
qed

lemma p_string_esc:
  "p_string (esc_char c @ s) = map_option (\<lambda>(t, r). (c # t, r)) (p_string s)"
  by (simp add: esc_char_def unesc_def unesc_hex_hex_digit)

lemma p_string_dump:
  "p_string (concat (map esc_char s) @ dquote # r) = Some (s, r)"
  by (induction s) (simp_all add: p_string_esc)

subsection \<open>Numbers\<close>

lemma is_digit_num_char: "is_digit c \<Longrightarrow> num_char c"
  by (simp add: num_char_def)

lemma show_int_num_char: "list_all num_char (show_int i)"
  using show_nat_digits [of "nat i"] show_nat_digits [of "nat (- i)"]
  by (auto simp: show_int_def list_all_iff num_char_def)

lemma json_int_tok_show_int [simp]: "json_int_tok (show_int i)"
  by (simp add: json_int_tok_def)

lemma not_json_int_tok_Nil [simp]: "\<not> json_int_tok []"
  by (simp add: json_int_tok_def parse_int_def)

lemma not_json_tok_minus [simp]: "\<not> json_int_tok ''-''" "\<not> json_float_tok ''-''"
  by (simp_all add: json_int_tok_def json_float_tok_def parse_int_def parse_nat_def)

lemma not_json_float_tok_Nil [simp]: "\<not> json_float_tok []"
  by (simp add: json_float_tok_def)

lemma p_number_append:
  assumes "list_all num_char tok" and "delim r"
  shows "p_number (tok @ r) =
     (if json_int_tok tok then Some (JInt (the (parse_int tok)), r)
      else if json_float_tok tok then Some (JFloat tok, r) else None)"
proof -
  have "takeWhile num_char r = []" "dropWhile num_char r = r"
    using assms(2) by (cases r; simp add: delim_def)+
  then have "takeWhile num_char (tok @ r) = tok" "dropWhile num_char (tok @ r) = r"
    using assms(1) by (simp_all add: list_all_iff)
  then show ?thesis by (simp add: p_number_def)
qed

lemma num_char_simps:
  "\<not> num_char (CHR ''I'')" "\<not> num_char dquote" "\<not> num_char (CHR ''['')" "\<not> num_char (CHR ''{'')"
  "\<not> num_char (CHR ''n'')" "\<not> num_char (CHR ''t'')" "\<not> num_char (CHR ''f'')"
  "\<not> num_char (CHR ''N'')" "\<not> num_char (CHR '','')" "\<not> num_char (CHR '']'')"
  "\<not> num_char (CHR ''}'')" "\<not> num_char (CHR '':'')"
  by (simp_all add: num_char_def is_digit_def)

lemma num_char_not_ws: "num_char c \<Longrightarrow> \<not> is_ws c"
  by (auto simp: num_char_def is_digit_def is_ws_def)

lemma p_value_number:
  assumes "list_all num_char tok" and "json_int_tok tok \<or> json_float_tok tok" and "delim r"
  shows "p_value (Suc n) (tok @ r) = p_number (tok @ r)"
proof -
  obtain c cs where tok: "tok = c # cs" using assms(2) by (cases tok) auto
  with assms(1) have c: "num_char c" and cs: "list_all num_char cs" by auto
  have "cs \<noteq> [] \<or> c \<noteq> CHR ''-''"
    using assms(2) tok by auto
  then have "\<not> startswith (c # cs @ r) ''-Infinity''"
    using cs num_char_simps(1) by (cases cs) (auto simp: startswith_Cons)
  moreover have "c \<noteq> dquote" "c \<noteq> CHR ''[''" "c \<noteq> CHR ''{''" "c \<noteq> CHR ''n''" "c \<noteq> CHR ''t''"
    "c \<noteq> CHR ''f''" "c \<noteq> CHR ''N''" "c \<noteq> CHR ''I''"
    using c num_char_simps by auto
  ultimately show ?thesis
    using num_char_not_ws [OF c] by (auto simp: tok skip_ws_Cons startswith_Cons)
qed

lemma p_value_JInt:
  "delim r \<Longrightarrow> p_value (Suc n) (show_int i @ r) = Some (JInt i, r)"
  by (subst p_value_number) (simp_all add: show_int_num_char p_number_append)

lemma p_value_JFloat:
  "wf_json (JFloat t) \<Longrightarrow> delim r \<Longrightarrow> p_value (Suc n) (t @ r) = Some (JFloat t, r)"
  by (subst p_value_number) (simp_all add: p_number_append)

subsection \<open>Values\<close>

lemma dict_of_distinct:
  assumes "distinct (map fst kvs)"
  shows "dict_of kvs = kvs"
proof -
  have upd: "AList.update k v d = d @ [(k, v)]" if "k \<notin> fst ` set d" for k :: string and v :: json and d
    using that by (induction d) auto
  have "foldl (\<lambda>d (k, v). AList.update k v d) d kvs = d @ kvs"
    if "distinct (map fst (d @ kvs))" for d
    using that
  proof (induction kvs arbitrary: d)
    case (Cons kv kvs)
    obtain k v where kv: "kv = (k, v)" by force
    with Cons.prems have "k \<notin> fst ` set d" by (auto simp: image_iff)
    with Cons kv show ?case by (simp add: upd)
  qed simp
  from this [of "[]"] assms show ?thesis by (simp add: dict_of_def)
qed

lemma dump_str_Cons: "dump_str s @ r = dquote # concat (map esc_char s) @ dquote # r"
  by (simp add: dump_str_def)

lemma p_value_JStr: "p_value (Suc n) (dump_str s @ r) = Some (JStr s, r)"
  unfolding dump_str_Cons by (simp add: skip_ws_Cons is_ws_def p_string_dump)

lemma dumps_not_Nil: "wf_json v \<Longrightarrow> dumps si sk v \<noteq> []"
  by (cases v) (auto simp: dump_str_def show_int_def)

lemma dumps_hd:
  assumes "wf_json v"
  shows "\<not> is_ws (hd (dumps si sk v)) \<and> hd (dumps si sk v) \<noteq> CHR '']''"
proof (cases v)
  case (JInt i)
  obtain c cs where "show_int i = c # cs" by (cases "show_int i") (auto simp: show_int_def split: if_splits)
  with JInt show_int_num_char [of i] show ?thesis by (auto dest: num_char_not_ws simp: num_char_simps)
next
  case (JFloat t)
  with assms have t: "list_all num_char t" "t \<noteq> []" by auto
  then have "num_char (hd t)" by (cases t) auto
  with JFloat show ?thesis using num_char_not_ws num_char_simps(10) by auto
qed (auto simp: dump_str_def is_ws_def)

lemma skip_ws_dumps:
  assumes "wf_json v"
  shows "skip_ws (dumps si sk v @ r) = dumps si sk v @ r"
    and "\<not> startswith (dumps si sk v @ r) '']''"
  using dumps_hd [OF assms, of si sk] dumps_not_Nil [OF assms, of si sk]
  by (cases "dumps si sk v"; simp add: skip_ws_Cons startswith_Cons)+

lemma dumps_elems_Cons_hd:
  assumes "wf_json x"
  shows "skip_ws (dumps_elems si sk (x # xs) @ r) = dumps_elems si sk (x # xs) @ r"
    and "\<not> startswith (dumps_elems si sk (x # xs) @ r) '']''"
  using skip_ws_dumps [OF assms] by auto

definition is_atom :: "json \<Rightarrow> bool" where
  "is_atom v = (case v of JArr _ \<Rightarrow> False | JObj _ \<Rightarrow> False | _ \<Rightarrow> True)"

lemma is_atom_simps [simp]:
  "is_atom JNull" "is_atom (JBool b)" "is_atom (JInt i)" "is_atom (JFloat t)" "is_atom (JStr s)"
  by (simp_all add: is_atom_def)

lemma p_value_atom:
  assumes "is_atom v" and "wf_json v" and "delim r" and "2 * length (dumps si sk v) \<le> n"
  shows "p_value n (dumps si sk v @ r) = Some (v, r)"
proof -
  have "dumps si sk v \<noteq> []" using assms(2) by (rule dumps_not_Nil)
  with assms(4) obtain m where "n = Suc m" by (cases n) auto
  with assms(1-3) show ?thesis
  proof (cases v)
    case (JInt i)
    with \<open>n = Suc m\<close> assms(3) show ?thesis by (simp only: dumps.simps p_value_JInt)
  next
    case (JFloat t)
    with \<open>n = Suc m\<close> assms(2,3) show ?thesis by (simp only: dumps.simps p_value_JFloat)
  next
    case (JStr s)
    with \<open>n = Suc m\<close> show ?thesis by (simp only: dumps.simps p_value_JStr)
  qed (simp_all add: is_atom_def skip_ws_Cons is_ws_def startswith_Cons)
qed

text \<open>One level of the parser, given what it does on the parts.\<close>

lemma p_value_array:
  assumes "list_all wf_json xs" and "xs \<noteq> [] \<Longrightarrow> p_elems m (dumps_elems si sk xs @ CHR '']'' # r) = Some (xs, r)"
  shows "p_value (Suc m) (dumps si sk (JArr xs) @ r) = Some (JArr xs, r)"
proof (cases xs)
  case Nil
  then show ?thesis by (simp add: skip_ws_Cons is_ws_def startswith_Cons)
next
  case (Cons x xs')
  then show ?thesis
    using assms dumps_elems_Cons_hd [of x si sk xs' "CHR '']'' # r"]
    by (simp add: skip_ws_Cons is_ws_def del: dumps_elems.simps)
qed

lemma p_value_object:
  assumes "distinct (map fst kvs)" and "kvs \<noteq> [] \<Longrightarrow> p_members m (dumps_members si sk kvs @ CHR ''}'' # r) = Some (kvs, r)"
  shows "p_value (Suc m) (dumps si sk (JObj kvs) @ r) = Some (JObj kvs, r)"
proof (cases kvs)
  case Nil
  then show ?thesis by (simp add: skip_ws_Cons is_ws_def startswith_Cons dict_of_def)
next
  case (Cons kv kvs')
  have "skip_ws (dumps_members si sk kvs @ CHR ''}'' # r) = dumps_members si sk kvs @ CHR ''}'' # r"
    "\<not> startswith (dumps_members si sk kvs @ CHR ''}'' # r) ''}''"
    by (cases kv; simp add: Cons dump_str_def skip_ws_Cons is_ws_def startswith_Cons)+
  then show ?thesis using assms Cons by (simp add: skip_ws_Cons is_ws_def dict_of_distinct)
qed

lemma p_elems_step:
  assumes "good_seps si sk" and x: "\<And>t. delim t \<Longrightarrow> p_value m (dumps si sk x @ t) = Some (x, t)"
    and xs: "xs \<noteq> [] \<Longrightarrow> p_elems m (dumps_elems si sk xs @ CHR '']'' # r) = Some (xs, r)"
  shows "p_elems (Suc m) (dumps_elems si sk (x # xs) @ CHR '']'' # r) = Some (x # xs, r)"
proof -
  obtain si' where si: "si = CHR '','' # si'" "list_all is_ws si'"
    using assms(1) by (cases si) (auto simp: good_seps_def)
  show ?thesis
    using x [of "CHR '']'' # r"] x [of "si @ dumps_elems si sk xs @ CHR '']'' # r"] xs si
    by (cases "xs = []") (simp_all add: skip_ws_Cons is_ws_def startswith_Cons delim_def num_char_simps p_elems_ws)
qed

lemma p_members_step:
  assumes "good_seps si sk" and "\<And>t. delim t \<Longrightarrow> p_value m (dumps si sk v @ t) = Some (v, t)"
    and kvs: "kvs \<noteq> [] \<Longrightarrow> p_members m (dumps_members si sk kvs @ CHR ''}'' # r) = Some (kvs, r)"
  shows "p_members (Suc m) (dumps_members si sk ((k, v) # kvs) @ CHR ''}'' # r) = Some ((k, v) # kvs, r)"
proof -
  obtain si' sk' where si: "si = CHR '','' # si'" "list_all is_ws si'" and sk: "sk = CHR '':'' # sk'" "list_all is_ws sk'"
    using assms(1) by (cases si; cases sk) (auto simp: good_seps_def)
  have v: "p_value m (sk' @ dumps si sk v @ t) = Some (v, t)" if "delim t" for t
    using assms(2) [OF that] sk by (simp add: p_value_ws)
  show ?thesis
    using v [of "CHR ''}'' # r"] v [of "si @ dumps_members si sk kvs @ CHR ''}'' # r"] kvs si sk(1)
    by (cases "kvs = []")
      (simp_all add: dump_str_def skip_ws_Cons is_ws_def startswith_Cons delim_def num_char_simps p_string_dump p_members_ws)
qed

text \<open>Fuel of two units per character is enough for the parser to read a dumped value back.\<close>

lemma p_value_dumps:
  assumes "good_seps si sk"
  shows "wf_json v \<Longrightarrow> delim r \<Longrightarrow> 2 * length (dumps si sk v) \<le> n \<Longrightarrow>
           p_value n (dumps si sk v @ r) = Some (v, r)"
    and "xs \<noteq> [] \<Longrightarrow> list_all wf_json xs \<Longrightarrow> 2 * length (dumps_elems si sk xs) + 1 \<le> n \<Longrightarrow>
           p_elems n (dumps_elems si sk xs @ CHR '']'' # r) = Some (xs, r)"
    and "kvs \<noteq> [] \<Longrightarrow> list_all (\<lambda>(k, v). wf_json v) kvs \<Longrightarrow>
           2 * length (dumps_members si sk kvs) + 1 \<le> n \<Longrightarrow>
           p_members n (dumps_members si sk kvs @ CHR ''}'' # r) = Some (kvs, r)"
  using assms
proof (induction si sk v and si sk xs and si sk kvs arbitrary: n r and n r and n r
    rule: dumps_dumps_elems_dumps_members.induct)
  case (6 si sk xs)
  then obtain m where n: "n = Suc m" by (cases n) auto
  show ?case unfolding n by (rule p_value_array) (use 6 n in auto)
next
  case (7 si sk kvs)
  then obtain m where n: "n = Suc m" by (cases n) auto
  show ?case unfolding n by (rule p_value_object) (use 7 n in auto)
next
  case (9 si sk x xs)
  then obtain m where n: "n = Suc m" by (cases n) auto
  obtain c si' where si: "si = c # si'" using 9 by (cases si) (auto simp: good_seps_def)
  with 9 n show ?case unfolding n by (intro p_elems_step) auto
next
  case (11 si sk k v kvs)
  then obtain m where n: "n = Suc m" by (cases n) auto
  obtain c si' where "si = c # si'" using 11 by (cases si) (auto simp: good_seps_def)
  with 11 n show ?case unfolding n by (intro p_members_step) (auto simp: dump_str_def)
qed (simp_all del: dumps.simps add: p_value_atom)

lemma loads_dumps:
  assumes "good_seps si sk" and "wf_json v"
  shows "json_loads (dumps si sk v) = Some v"
  using p_value_dumps(1) [OF assms, of "[]" "2 * length (dumps si sk v) + 2"]
  by (simp add: json_loads_def delim_def skip_ws_def)

lemma good_seps_default [simp]: "good_seps '', '' '': ''"
  and good_seps_compact [simp]: "good_seps '','' '':''"
  by (simp_all add: good_seps_def is_ws_def)

lemma loads_json_dumps [simp]: "wf_json v \<Longrightarrow> json_loads (json_dumps v) = Some v"
  by (simp add: json_dumps_def loads_dumps)

end
