(* ===== verification/Redis_Client.thy ===== *)
theory Redis_Client
  imports Redis_Service Json
begin

text \<open>
  \<open>packages/redis/client.py\<close>: the key shapes, the shared client, the per-channel sequence allocator
  and the bounded recovery buffer of a channel.  The operations run on any Redis of
  \<open>Redis_Service\<close>.  Python's conversions between floats and text are a parameter, the record
  \<open>pyfloat\<close>; \<open>repr\<close> of a float reads back as the same float, which is the law of \<open>pyfloat_ok\<close>.
\<close>

section \<open>Floats as text\<close>

record pyfloat =
  str_float :: "rat \<Rightarrow> string"
  float_str :: "string \<Rightarrow> rat option"

locale pyfloat_ok =
  fixes F :: pyfloat
  assumes float_str_float [simp]: "float_str F (str_float F x) = Some x"
    and wf_json_float [simp]: "wf_json (JFloat (str_float F x))"

text \<open>An instance: the numerator and the denominator of the fraction in lowest terms, with a point
  between them.\<close>

definition frac_text :: "rat \<Rightarrow> string" where
  "frac_text x = show_int (fst (quotient_of x)) @ CHR ''.'' # show_int (snd (quotient_of x))"

definition text_frac :: "string \<Rightarrow> rat option" where
  "text_frac s =
     (case (parse_int (takeWhile (\<lambda>c. c \<noteq> CHR ''.'') s), parse_int (tl (dropWhile (\<lambda>c. c \<noteq> CHR ''.'') s))) of
        (Some a, Some b) \<Rightarrow> Some (of_int a / of_int b) | _ \<Rightarrow> None)"

definition frac_float :: pyfloat where
  "frac_float = \<lparr>str_float = frac_text, float_str = text_frac\<rparr>"

lemma show_int_chars: "c \<in> set (show_int i) \<Longrightarrow> is_digit c \<or> c = CHR ''-''"
  using show_nat_digits [of "nat i"] show_nat_digits [of "nat (- i)"]
  by (auto simp: show_int_def list_all_iff split: if_splits)

lemma not_digit_point [simp]: "\<not> is_digit (CHR ''.'')" "\<not> is_digit (CHR ''-'')"
  by (simp_all add: is_digit_def)

lemma not_json_int_tok_point: "CHR ''.'' \<in> set s \<Longrightarrow> \<not> json_int_tok s"
  by (cases s) (auto simp: json_int_tok_def parse_int_def parse_nat_def list_all_iff)

lemma frac_text_split:
  assumes "\<not> P (CHR ''.'')" and "\<forall>c. is_digit c \<or> c = CHR ''-'' \<longrightarrow> P c"
  shows "takeWhile P (frac_text x) = show_int (fst (quotient_of x))"
    "dropWhile P (frac_text x) = CHR ''.'' # show_int (snd (quotient_of x))"
proof -
  have P: "P c" if "c \<in> set (show_int i)" for c i using assms(2) show_int_chars [OF that] by blast
  show "takeWhile P (frac_text x) = show_int (fst (quotient_of x))"
    unfolding frac_text_def by (subst takeWhile_append2) (simp_all add: P assms(1))
  show "dropWhile P (frac_text x) = CHR ''.'' # show_int (snd (quotient_of x))"
    unfolding frac_text_def by (subst dropWhile_append2) (simp_all add: P assms(1))
qed

lemma wf_frac_text: "wf_json (JFloat (frac_text x))"
proof -
  have "0 < snd (quotient_of x)" by (rule quotient_of_denom_pos')
  then have d: "show_int (snd (quotient_of x)) = show_nat (nat (snd (quotient_of x)))" by (simp add: show_int_def)
  have "takeWhile is_digit (show_nat n) = show_nat n" "dropWhile is_digit (show_nat n) = []" for n
    using show_nat_digits [of n] by (simp_all add: list_all_iff)
  then have "json_float_tok (frac_text x)"
    using frac_text_split [of "\<lambda>c. is_digit c \<or> c = CHR ''-''" x]
    by (simp add: json_float_tok_def Let_def d del: takeWhile_eq_all_conv dropWhile_eq_Nil_conv)
  moreover have "list_all num_char (frac_text x)"
    using show_int_num_char by (simp add: frac_text_def num_char_def)
  moreover have "\<not> json_int_tok (frac_text x)" by (rule not_json_int_tok_point) (simp add: frac_text_def)
  ultimately show ?thesis by simp
qed

interpretation frac: pyfloat_ok frac_float
proof
  fix x :: rat
  have "of_int (fst (quotient_of x)) / of_int (snd (quotient_of x)) = x"
    by (metis prod.collapse quotient_of_div)
  moreover have "\<forall>c. is_digit c \<or> c = CHR ''-'' \<longrightarrow> c \<noteq> CHR ''.''" using not_digit_point by auto
  ultimately show "float_str frac_float (str_float frac_float x) = Some x"
    using frac_text_split [of "\<lambda>c. c \<noteq> CHR ''.''" x] by (simp add: frac_float_def text_frac_def)
  show "wf_json (JFloat (str_float frac_float x))" using wf_frac_text by (simp add: frac_float_def)
qed

text \<open>\<open>int(x)\<close> of a float truncates towards zero.\<close>

definition int_of_float :: "rat \<Rightarrow> int" where
  "int_of_float x = (if 0 \<le> x then floor x else ceiling x)"

lemma int_of_float_mono: "x \<le> y \<Longrightarrow> int_of_float x \<le> int_of_float y"
proof -
  assume "x \<le> y"
  moreover have "ceiling x \<le> floor y" if "\<not> 0 \<le> x" "0 \<le> y"
  proof -
    have "ceiling x \<le> 0" "0 \<le> floor y" using that by simp_all
    then show ?thesis by linarith
  qed
  ultimately show ?thesis by (auto simp: int_of_float_def floor_mono ceiling_mono)
qed

section \<open>Key shapes\<close>

definition connection_key :: "string \<Rightarrow> string" where
  "connection_key cid = ''relay:connection:'' @ cid"

definition session_key :: "string \<Rightarrow> string" where
  "session_key sid = ''relay:session:'' @ sid"

definition session_ack_key :: "string \<Rightarrow> string \<Rightarrow> string" where
  "session_ack_key sid channel = ''relay:session:'' @ sid @ '':ack:'' @ channel"

definition channel_stream_key :: "string \<Rightarrow> string" where
  "channel_stream_key channel = ''relay:messages:'' @ channel"

definition channel_sequence_key :: "string \<Rightarrow> string" where
  "channel_sequence_key channel = ''relay:sequence:'' @ channel"

definition node_key :: "string \<Rightarrow> string" where
  "node_key nid = ''relay:nodes:'' @ nid"

definition presence_key :: "string \<Rightarrow> string" where
  "presence_key user_key = ''relay:presence:'' @ user_key"

definition dedup_key :: "string \<Rightarrow> string \<Rightarrow> string" where
  "dedup_key channel message_id = ''relay:dedup:'' @ channel @ '':'' @ message_id"

definition idempotency_redis_key :: "string \<Rightarrow> string \<Rightarrow> string" where
  "idempotency_redis_key tid key = ''relay:idempotency:'' @ tid @ '':'' @ key"

definition room_nodes_key :: "string \<Rightarrow> string" where
  "room_nodes_key room = ''relay:room:'' @ room @ '':nodes''"

definition pubsub_channel_key :: "string \<Rightarrow> string" where
  "pubsub_channel_key channel = ''relay:pubsub:'' @ channel"

definition rate_limit_key :: "string \<Rightarrow> string \<Rightarrow> string" where
  "rate_limit_key scope key = ''relay:ratelimit:'' @ scope @ '':'' @ key"

lemmas redis_key_defs =
  connection_key_def session_key_def session_ack_key_def channel_stream_key_def
  channel_sequence_key_def node_key_def presence_key_def dedup_key_def idempotency_redis_key_def
  room_nodes_key_def pubsub_channel_key_def rate_limit_key_def

section \<open>The shared client\<close>

record redis_options =
  opt_url :: string
  decode_responses :: bool
  health_check_interval :: int
  socket_connect_timeout :: int
  socket_keepalive :: bool
  backoff_base :: rat
  backoff_cap :: rat
  retries :: int
  retry_on_error :: "exn list"

definition get_redis :: "settings \<Rightarrow> redis_options option \<Rightarrow> redis_options \<times> redis_options option" where
  "get_redis cfg pool =
     (let p = (case pool of
                 None \<Rightarrow> \<lparr>opt_url = redis_url cfg, decode_responses = True, health_check_interval = 10,
                         socket_connect_timeout = 2, socket_keepalive = True, backoff_base = 1 / 20,
                         backoff_cap = 1, retries = 3,
                         retry_on_error = [RedisConnectionError, RedisTimeoutError]\<rparr>
               | Some p \<Rightarrow> p)
      in (p, Some p))"

definition close_redis :: "redis_options option \<Rightarrow> redis_options option" where
  "close_redis pool = None"

section \<open>Sequence numbers and the recovery buffer\<close>

definition allocate_sequence :: "'r redis \<Rightarrow> string \<Rightarrow> ('r, int) io" where
  "allocate_sequence X channel =
     bindE (rcall X (INCR (channel_sequence_key channel))) int_reply"

definition buffer_fields :: "pyfloat \<Rightarrow> string \<Rightarrow> int \<Rightarrow> json \<Rightarrow> time \<Rightarrow> fields" where
  "buffer_fields F message_id sequence payload created =
     [(''message_id'', message_id), (''sequence'', show_int sequence),
      (''payload'', json_dumps payload), (''created_at'', str_float F created)]"

definition append_to_channel_buffer ::
  "'r redis \<Rightarrow> pyfloat \<Rightarrow> settings \<Rightarrow> string \<Rightarrow> string \<Rightarrow> int \<Rightarrow> json \<Rightarrow> ('r, unit) io" where
  "append_to_channel_buffer X F cfg channel message_id sequence payload =
     (let stream_key = channel_stream_key channel
      in bindE (getE (rclock X)) (\<lambda>now.
         thenE (rcall X (XADD stream_key (buffer_fields F message_id sequence payload now)
                   (channel_buffer_max_messages cfg)))
        (bindE (getE (rclock X)) (\<lambda>now'.
         let min_id = int_of_float ((now' - of_int (message_retention_seconds cfg)) * 1000)
         in thenE (rcall X (XTRIM stream_key min_id)) (returnE ())))))"

section \<open>The counter of a channel\<close>

definition seq_counter :: "rdb \<Rightarrow> string \<Rightarrow> int" where
  "seq_counter d ch =
     (case rkeys d (channel_sequence_key ch) of
        Some (RString s, _) \<Rightarrow> (case parse_int s of Some n \<Rightarrow> n | None \<Rightarrow> 0) | _ \<Rightarrow> 0)"

text \<open>The key is absent, or holds a positive decimal and never expires.\<close>

definition counter_wf :: "rdb \<Rightarrow> string \<Rightarrow> bool" where
  "counter_wf d ch =
     (rkeys d (channel_sequence_key ch) = None \<or>
      (\<exists>n \<ge> 1. rkeys d (channel_sequence_key ch) = Some (RString (show_int n), None)))"

definition counter_rely :: "(rdb \<Rightarrow> rdb \<Rightarrow> bool) \<Rightarrow> string \<Rightarrow> bool" where
  "counter_rely rely ch =
     (\<forall>d d'. rely d d' \<longrightarrow> counter_wf d ch \<longrightarrow> counter_wf d' ch \<and> seq_counter d ch \<le> seq_counter d' ch)"

lemma counter_rely_eq [simp]: "counter_rely (=) ch"
  by (simp add: counter_rely_def)

lemma counter_frame:
  "rkeys d' (channel_sequence_key ch) = rkeys d (channel_sequence_key ch) \<Longrightarrow>
     seq_counter d' ch = seq_counter d ch \<and> counter_wf d' ch = counter_wf d ch"
  by (simp add: seq_counter_def counter_wf_def)

lemma incr_counter:
  assumes "counter_wf d ch" and "redis_ok t (INCR (channel_sequence_key ch)) d r d'"
  shows "counter_wf d' ch \<and> seq_counter d ch \<le> seq_counter d' ch \<and>
    (r \<noteq> RErr \<longrightarrow> r = RInt (seq_counter d ch + 1) \<and> seq_counter d' ch = seq_counter d ch + 1) \<and>
    (r = RErr \<longrightarrow> d' = d \<and> seq_counter d ch \<ge> 2 ^ 63 - 1)"
proof (cases "rkeys d (channel_sequence_key ch)")
  case None
  with assms(2) show ?thesis by (auto simp: lookup_at_def seq_counter_def counter_wf_def)
next
  case (Some x)
  with assms(1) obtain n where n: "n \<ge> 1" "rkeys d (channel_sequence_key ch) = Some (RString (show_int n), None)"
    by (auto simp: counter_wf_def)
  then have c: "seq_counter d ch = n" by (simp add: seq_counter_def)
  from n assms(2) have "if n < 2 ^ 63 - 1
      then r = RInt (n + 1) \<and> d' = put_key (channel_sequence_key ch) (RString (show_int (n + 1)), None) d
      else r = RErr \<and> d' = d"
    by (simp add: lookup_at_def)
  then show ?thesis using n c assms(1) by (auto simp: seq_counter_def counter_wf_def split: if_splits)
qed

text \<open>Several allocations one after the other; a call that raises allocates nothing for its caller.\<close>

fun allocate_many :: "'r redis \<Rightarrow> string \<Rightarrow> nat \<Rightarrow> 'r \<Rightarrow> int list \<times> 'r" where
  "allocate_many X ch 0 s = ([], s)"
| "allocate_many X ch (Suc k) s =
     (let (x, s1) = allocate_sequence X ch s; (ns, s2) = allocate_many X ch k s1
      in (case x of Inl _ \<Rightarrow> ns | Inr n \<Rightarrow> n # ns, s2))"

context redis_service
begin

lemma allocate_sequence_state: "snd (allocate_sequence X ch s) = snd (rcall X (INCR (channel_sequence_key ch)) s)"
  by (auto simp: allocate_sequence_def bindE_def split: prod.splits sum.splits)

lemma allocate_keeps_counter:
  assumes "counter_rely rely ch" and "counter_wf (db s) ch"
  shows "counter_wf (db (snd (allocate_sequence X ch s))) ch \<and>
    seq_counter (db s) ch \<le> seq_counter (db (snd (allocate_sequence X ch s))) ch"
  unfolding allocate_sequence_state
  by (rule rcall_inv [where I = "\<lambda>d. counter_wf d ch \<and> seq_counter (db s) ch \<le> seq_counter d ch"])
    (use assms in \<open>auto simp: counter_rely_def dest: incr_counter intro: order_trans\<close>)

lemma allocate_fresh:
  assumes "counter_rely rely ch" and "counter_wf (db s) ch"
    and "allocate_sequence X ch s = (Inr n, s')"
  shows "seq_counter (db s) ch < n \<and> n \<le> seq_counter (db s') ch \<and> counter_wf (db s') ch"
proof -
  let ?c = "INCR (channel_sequence_key ch)"
  from assms(3) obtain r where call: "rcall X ?c s = (Inr r, s')" and r: "r = RInt n"
    by (auto simp: allocate_sequence_def io_run_iffs)
  from call obtain t d d' where d: "(attempt rely (rclock X s) (rclock X s') [?c])\<^sup>*\<^sup>* (db s) d"
    and step: "redis_ok t ?c d r d'" and r2: "rely d' (db s')" by (rule rcall_ok)
  have "counter_wf d ch \<and> seq_counter (db s) ch \<le> seq_counter d ch"
    by (rule attempts_inv [OF d]) (use assms in \<open>auto simp: counter_rely_def dest: incr_counter intro: order_trans\<close>)
  with incr_counter [OF _ step] r r2 assms(1) show ?thesis
    by (fastforce simp: counter_rely_def)
qed

lemma allocate_many_increasing:
  assumes "counter_rely rely ch" and "counter_wf (db s) ch"
    and "allocate_many X ch k s = (ns, s')"
  shows "sorted_wrt (<) ns \<and> (\<forall>n \<in> set ns. seq_counter (db s) ch < n \<and> n \<le> seq_counter (db s') ch) \<and>
    counter_wf (db s') ch \<and> seq_counter (db s) ch \<le> seq_counter (db s') ch"
  using assms(2,3)
proof (induction k arbitrary: s ns)
  case (Suc k)
  obtain x s1 where x: "allocate_sequence X ch s = (x, s1)" by (cases "allocate_sequence X ch s")
  obtain ns1 where ns1: "allocate_many X ch k s1 = (ns1, s')" using Suc.prems x by (auto split: prod.splits)
  note keep = allocate_keeps_counter [OF assms(1) Suc.prems(1), unfolded x snd_conv]
  note IH = Suc.IH [OF _ ns1]
  show ?case
  proof (cases x)
    case (Inl e)
    with Suc.prems x ns1 IH keep show ?thesis by fastforce
  next
    case (Inr n)
    from allocate_fresh [OF assms(1) Suc.prems(1)] x Inr
    have "seq_counter (db s) ch < n" "n \<le> seq_counter (db s1) ch" by auto
    with Suc.prems x ns1 IH keep Inr show ?thesis by fastforce
  qed
qed simp

end

context redis_calm
begin

lemma calm_allocate:
  assumes "counter_wf (db s) ch" and "seq_counter (db s) ch < 2 ^ 63 - 1"
  obtains s' where "allocate_sequence X ch s = (Inr (seq_counter (db s) ch + 1), s')"
    "counter_wf (db s') ch" "seq_counter (db s') ch = seq_counter (db s) ch + 1"
    "\<And>k. k \<noteq> channel_sequence_key ch \<Longrightarrow> rkeys (db s') k = rkeys (db s) k"
    "rpublished (db s') = rpublished (db s)" "rclock X s \<le> rclock X s'"
proof (rule calm_call [of s "INCR (channel_sequence_key ch)"])
  fix r s' t
  assume t: "rclock X s \<le> t" "t \<le> rclock X s'"
    and ok: "redis_ok t (INCR (channel_sequence_key ch)) (db s) r (db s')"
    and call: "rcall X (INCR (channel_sequence_key ch)) s = (if r = RErr then Inl ResponseError else Inr r, s')"
  from incr_counter [OF assms(1) ok] assms(2) have r: "r = RInt (seq_counter (db s) ch + 1)"
    "counter_wf (db s') ch" "seq_counter (db s') ch = seq_counter (db s) ch + 1" by fastforce+
  with call have "allocate_sequence X ch s = (Inr (seq_counter (db s) ch + 1), s')"
    by (simp add: allocate_sequence_def bindE_def)
  then show thesis
    using that r redis_ok_frame [OF ok] redis_ok_published [OF ok] t by auto
qed

end

section \<open>Properties\<close>

text \<open>C18: Sequence numbers are never handed out twice.  On any Redis that follows the documented
  behaviour, with lost replies, retries by the client library and other clients that never lower
  the counter of the channel, the numbers that successive calls of \<open>allocate_sequence\<close> return are
  strictly increasing, and all of them are above the counter before the first call.\<close>

theorem allocated_sequences_increase:
  assumes "redis_service X db rely" and "counter_rely rely ch" and "counter_wf (db s) ch"
    and "allocate_many X ch k s = (ns, s')"
  shows "sorted_wrt (<) ns \<and> (\<forall>n \<in> set ns. seq_counter (db s) ch < n \<and> n \<le> seq_counter (db s') ch)"
  using redis_service.allocate_many_increasing [OF assms] by blast

theorem allocated_sequences_increase_witness:
  "fst (allocate_many mem_redis ''t-1:a'' 4 (mem_start 0 [Served, ReplyLost, Retried, Refused])) = [1, 4] \<and>
   sorted_wrt (<) (fst (allocate_many mem_redis ''t-1:a'' 4 (mem_start 0 [Served, ReplyLost, Retried, Refused])))"
proof -
  let ?s = "mem_start 0 [Served, ReplyLost, Retried, Refused]"
  have "counter_wf (mem_db ?s) ''t-1:a''" by (simp add: counter_wf_def mem_db_def mem_start_def)
  moreover obtain ns s' where run: "allocate_many mem_redis ''t-1:a'' 4 ?s = (ns, s')" by fastforce
  ultimately have "sorted_wrt (<) ns"
    using allocated_sequences_increase [OF faulty_mem.redis_service_axioms counter_rely_eq, of ?s] by blast
  moreover have "fst (allocate_many mem_redis ''t-1:a'' 4 ?s) = [1, 4]" by code_simp
  ultimately show ?thesis using run by simp
qed

end
