(* ===== verification/Nodes.thy ===== *)
theory Nodes
  imports Redis_Client
begin

text \<open>
  \<open>apps/gateway/nodes/registration.py\<close>: every gateway process writes a record of itself under a short
  time to live and refreshes it on a timer; the live nodes are the keys that have not expired.
\<close>

section \<open>Operations\<close>

record node_registrar =
  nr_node_id :: string
  nr_status :: string
  nr_task :: bool

definition new_registrar :: "string \<Rightarrow> node_registrar" where
  "new_registrar nid = \<lparr>nr_node_id = nid, nr_status = ''active'', nr_task = False\<rparr>"

definition node_record :: "pyfloat \<Rightarrow> node_registrar \<Rightarrow> int \<Rightarrow> time \<Rightarrow> json" where
  "node_record F n active now =
     JObj [(''node_id'', JStr (nr_node_id n)), (''status'', JStr (nr_status n)),
           (''connections'', JInt active), (''updated_at'', JFloat (str_float F now))]"

text \<open>\<open>active\<close> is \<open>registry.active_count()\<close> at the time of the write.\<close>

definition node_write ::
  "'r redis \<Rightarrow> pyfloat \<Rightarrow> settings \<Rightarrow> node_registrar \<Rightarrow> int \<Rightarrow> ('r, unit) io" where
  "node_write X F cfg n active =
     bindE (getE (rclock X)) (\<lambda>now.
       thenE (rcall X (SET (node_key (nr_node_id n)) (json_dumps (node_record F n active now))
                          (Some (node_ttl_seconds cfg))))
             (returnE ()))"

text \<open>\<open>_loop\<close>: each round writes, ignoring errors, and sleeps; what happens elsewhere during the sleep
  is an argument of the round.  The task runs until it is cancelled.\<close>

fun node_loop ::
  "'r redis \<Rightarrow> pyfloat \<Rightarrow> settings \<Rightarrow> node_registrar \<Rightarrow> (int \<times> ('r \<Rightarrow> 'r)) list \<Rightarrow> 'r \<Rightarrow> 'r" where
  "node_loop X F cfg n [] s = s"
| "node_loop X F cfg n ((active, during_sleep) # rounds) s =
     node_loop X F cfg n rounds (during_sleep (snd (suppressE (node_write X F cfg n active) s)))"

definition node_start ::
  "'r redis \<Rightarrow> pyfloat \<Rightarrow> settings \<Rightarrow> int \<Rightarrow> node_registrar \<Rightarrow> 'r \<Rightarrow> node_registrar \<times> 'r" where
  "node_start X F cfg active n s =
     (n\<lparr>nr_task := True\<rparr>, snd (suppressE (node_write X F cfg n active) s))"

definition mark_draining ::
  "'r redis \<Rightarrow> pyfloat \<Rightarrow> settings \<Rightarrow> int \<Rightarrow> node_registrar \<Rightarrow> 'r \<Rightarrow> node_registrar \<times> 'r" where
  "mark_draining X F cfg active n s =
     (let n' = n\<lparr>nr_status := ''draining''\<rparr>
      in (n', snd (suppressE (node_write X F cfg n' active) s)))"

definition node_stop :: "'r redis \<Rightarrow> node_registrar \<Rightarrow> 'r \<Rightarrow> node_registrar \<times> 'r" where
  "node_stop X n s =
     (n\<lparr>nr_task := False\<rparr>,
      snd (suppressE (thenE (rcall X (DEL [node_key (nr_node_id n)])) (returnE ())) s))"

fun nodes_of_keys :: "'r redis \<Rightarrow> string list \<Rightarrow> ('r, json list) io" where
  "nodes_of_keys X [] = returnE []"
| "nodes_of_keys X (key # ks) =
     bindE (bindE (rcall X (GET key)) string_reply) (\<lambda>raw.
       case raw of
         None \<Rightarrow> nodes_of_keys X ks
       | Some v \<Rightarrow>
           if v = [] then nodes_of_keys X ks
           else
             (case json_loads v of
                None \<Rightarrow> raiseE (ValueError v)
              | Some j \<Rightarrow> bindE (nodes_of_keys X ks) (\<lambda>js. returnE (j # js))))"

definition list_nodes :: "'r redis \<Rightarrow> ('r, json list) io" where
  "list_nodes X = bindE (bindE (rcall X (SCAN ''relay:nodes:*'')) keys_reply) (nodes_of_keys X)"

section \<open>The node keys\<close>

text \<open>Every node key holds the JSON record of the node it is named after.\<close>

definition node_of :: "string \<Rightarrow> json \<Rightarrow> bool" where
  "node_of i j = (wf_json j \<and> (\<exists>kvs. j = JObj kvs \<and> jget kvs ''node_id'' = Some (JStr i)))"

definition nodes_wf :: "rdb \<Rightarrow> bool" where
  "nodes_wf d =
     (\<forall>k slot. startswith k ''relay:nodes:'' \<longrightarrow> rkeys d k = Some slot \<longrightarrow>
        (\<exists>i j dl. k = node_key i \<and> node_of i j \<and> slot = (RString (json_dumps j), dl)))"

lemma json_dumps_not_Nil: "wf_json j \<Longrightarrow> json_dumps j \<noteq> []"
  by (simp add: json_dumps_def dumps_not_Nil)

lemma node_key_prefix [simp]: "startswith (node_key i) ''relay:nodes:''"
  by (simp add: node_key_def startswith_iff)

lemma node_key_inject [simp]: "node_key i = node_key j \<longleftrightarrow> i = j"
  by (simp add: node_key_def)

lemma node_record_of: "pyfloat_ok F \<Longrightarrow> node_of (nr_node_id n) (node_record F n active now)"
  using pyfloat_ok.wf_json_float [of F now] by (simp add: node_of_def node_record_def jget_def)

lemma nodes_wf_put:
  "nodes_wf d \<Longrightarrow> node_of i j \<Longrightarrow> nodes_wf (put_key (node_key i) (RString (json_dumps j), dl) d)"
  by (auto simp: nodes_wf_def)

lemma nodes_wf_lookup:
  assumes "nodes_wf d" and "lookup_at t d k = Some slot" and "startswith k ''relay:nodes:''"
  obtains i j dl where "k = node_key i" "node_of i j" "slot = (RString (json_dumps j), dl)"
  using assms by (fastforce simp: nodes_wf_def lookup_at_def split: option.splits if_splits)

context redis_service
begin

lemma clocked_nodes_of_keys: "clocked X (nodes_of_keys X ks)"
  by (induction ks) (auto intro!: clocked_bindE clocked_rcall split: option.split)

end

context redis_calm
begin

lemma calm_node_write:
  assumes "0 < node_ttl_seconds cfg"
  obtains s' t where "node_write X F cfg n active s = (Inr (), s')" "rclock X s \<le> t" "t \<le> rclock X s'"
    "db s' = put_key (node_key (nr_node_id n))
       (RString (json_dumps (node_record F n active (rclock X s))), Some (t + of_int (node_ttl_seconds cfg))) (db s)"
  by (rule calm_call [of s "SET (node_key (nr_node_id n)) (json_dumps (node_record F n active (rclock X s)))
        (Some (node_ttl_seconds cfg))"])
    (use assms in \<open>auto simp: node_write_def bindE_def thenE_def intro: that\<close>)

lemma calm_nodes_of_keys:
  assumes "nodes_wf (db s)" and "\<forall>k \<in> set ks. startswith k ''relay:nodes:''"
  shows "\<exists>js s'. nodes_of_keys X ks s = (Inr js, s') \<and> db s' = db s \<and>
    (\<forall>j \<in> set js. \<exists>i t. node_key i \<in> set ks \<and> node_of i j \<and> rclock X s \<le> t \<and> lookup_at t (db s) (node_key i) \<noteq> None) \<and>
    (\<forall>k \<in> set ks. \<forall>j dl. node_of i j \<longrightarrow> lookup_at (rclock X s') (db s) k = Some (RString (json_dumps j), dl) \<longrightarrow> j \<in> set js)"
  using assms
proof (induction ks arbitrary: s)
  case (Cons k ks)
  obtain r s1 t where t: "rclock X s \<le> t" "t \<le> rclock X s1" and ok: "redis_ok t (GET k) (db s) r (db s1)"
    and c: "rcall X (GET k) s = (if r = RErr then Inl ResponseError else Inr r, s1)" by (rule calm_call)
  have db: "db s1 = db s" using ok by simp
  from Cons.IH [of s1] Cons.prems db obtain js s' where js: "nodes_of_keys X ks s1 = (Inr js, s')" "db s' = db s"
    "\<forall>j \<in> set js. \<exists>i t. node_key i \<in> set ks \<and> node_of i j \<and> rclock X s1 \<le> t \<and> lookup_at t (db s) (node_key i) \<noteq> None"
    "\<forall>k \<in> set ks. \<forall>j dl. node_of i j \<longrightarrow> lookup_at (rclock X s') (db s) k = Some (RString (json_dumps j), dl) \<longrightarrow> j \<in> set js"
    by auto
  have s': "t \<le> rclock X s'" using clockedD [OF clocked_nodes_of_keys js(1)] t by linarith
  have old: "\<forall>j \<in> set js. \<exists>i t. node_key i \<in> set (k # ks) \<and> node_of i j \<and> rclock X s \<le> t \<and> lookup_at t (db s) (node_key i) \<noteq> None"
    using js(3) t by (meson list.set_intros(2) order_trans)
  show ?case
  proof (cases "lookup_at t (db s) k")
    case None
    then have "nodes_of_keys X (k # ks) s = (Inr js, s')" using c ok js by (simp add: bindE_def)
    moreover have "lookup_at (rclock X s') (db s) k = None" using lookup_None_mono [OF None s'] .
    ultimately show ?thesis using js old by auto
  next
    case (Some slot)
    from nodes_wf_lookup [OF Cons.prems(1) Some] Cons.prems(2) obtain i' j' dl'
      where k: "k = node_key i'" "node_of i' j'" "slot = (RString (json_dumps j'), dl')" by auto
    then have wf: "wf_json j'" by (auto simp: node_of_def)
    then have "nodes_of_keys X (k # ks) s = (Inr (j' # js), s')"
      using c ok js Some k json_dumps_not_Nil [OF wf] by (simp add: bindE_def)
    moreover have "j = j'" if "node_of i j" "lookup_at (rclock X s') (db s) k = Some (RString (json_dumps j), dl)" for j dl
    proof -
      from lookup_mono [OF that(2) s'] Some k have "json_dumps j = json_dumps j'" by simp
      with wf that(1) show ?thesis by (metis loads_json_dumps node_of_def option.inject)
    qed
    moreover have "\<exists>i t. node_key i \<in> set (k # ks) \<and> node_of i j' \<and> rclock X s \<le> t \<and> lookup_at t (db s) (node_key i) \<noteq> None"
      using k Some t by auto
    ultimately show ?thesis using js old by auto
  qed
qed simp

lemma calm_list_nodes:
  assumes "nodes_wf (db s)"
  shows "\<exists>js s'. list_nodes X s = (Inr js, s') \<and> db s' = db s \<and>
    (\<forall>j \<in> set js. \<exists>i t. node_of i j \<and> rclock X s \<le> t \<and> lookup_at t (db s) (node_key i) \<noteq> None) \<and>
    (\<forall>j dl. node_of i j \<longrightarrow> lookup_at (rclock X s') (db s) (node_key i) = Some (RString (json_dumps j), dl) \<longrightarrow> j \<in> set js)"
proof -
  let ?c = "SCAN ''relay:nodes:*''"
  obtain r s1 t where t: "rclock X s \<le> t" "t \<le> rclock X s1" and ok: "redis_ok t ?c (db s) r (db s1)"
    and c: "rcall X ?c s = (if r = RErr then Inl ResponseError else Inr r, s1)" by (rule calm_call)
  obtain ks where r: "r = RKeys ks" and db: "db s1 = db s"
    and all: "\<forall>q. ''relay:nodes:*'' = q @ ''*'' \<and> glob_free q \<longrightarrow> set ks = {k. startswith k q \<and> lookup_at t (db s) k \<noteq> None}"
    using ok unfolding redis_ok.simps by blast
  have ks: "set ks = {k. startswith k ''relay:nodes:'' \<and> lookup_at t (db s) k \<noteq> None}"
    by (rule all [rule_format]) (simp add: glob_free_def)
  from calm_nodes_of_keys [of s1 ks i] assms ks db obtain js s' where js: "nodes_of_keys X ks s1 = (Inr js, s')" "db s' = db s"
    "\<forall>j \<in> set js. \<exists>i t. node_key i \<in> set ks \<and> node_of i j \<and> rclock X s1 \<le> t \<and> lookup_at t (db s) (node_key i) \<noteq> None"
    "\<forall>k \<in> set ks. \<forall>j dl. node_of i j \<longrightarrow> lookup_at (rclock X s') (db s) k = Some (RString (json_dumps j), dl) \<longrightarrow> j \<in> set js"
    by auto
  have "list_nodes X s = (Inr js, s')" using c r js by (simp add: list_nodes_def bindE_def)
  moreover have "\<forall>j \<in> set js. \<exists>i t. node_of i j \<and> rclock X s \<le> t \<and> lookup_at t (db s) (node_key i) \<noteq> None"
    using js(3) t by (meson order_trans)
  moreover have "t \<le> rclock X s'" using clockedD [OF clocked_nodes_of_keys js(1)] t by linarith
  then have "node_key i \<in> set ks" if "lookup_at (rclock X s') (db s) (node_key i) = Some y" for y
    using ks lookup_mono [OF that] by simp
  then have "\<forall>j dl. node_of i j \<longrightarrow> lookup_at (rclock X s') (db s) (node_key i) = Some (RString (json_dumps j), dl) \<longrightarrow> j \<in> set js"
    using js(4) by blast
  ultimately show ?thesis using js(2) by blast
qed

lemma calm_node_listed:
  assumes F: "pyfloat_ok F" and w: "0 < node_ttl_seconds cfg" and wf: "nodes_wf (db s)"
    and run: "node_write X F cfg n active s = (x, s1)" and s2: "db s2 = db s1" and l: "list_nodes X s2 = (y, s3)"
  shows "x = Inr () \<and> (\<exists>js. y = Inr js \<and>
    (rclock X s3 < rclock X s + of_int (node_ttl_seconds cfg) \<longrightarrow> node_record F n active (rclock X s) \<in> set js) \<and>
    (rclock X s1 + of_int (node_ttl_seconds cfg) \<le> rclock X s2 \<longrightarrow> (\<forall>j \<in> set js. \<not> node_of (nr_node_id n) j)))"
proof -
  let ?i = "nr_node_id n" and ?j = "node_record F n active (rclock X s)" and ?w = "rat_of_int (node_ttl_seconds cfg)"
  obtain t where x: "x = Inr ()" and t: "rclock X s \<le> t" "t \<le> rclock X s1"
    and db: "db s1 = put_key (node_key ?i) (RString (json_dumps ?j), Some (t + ?w)) (db s)"
    using calm_node_write [OF w, of F n active s] run by (metis prod.inject)
  note j = node_record_of [OF F, of n active "rclock X s"]
  have wf2: "nodes_wf (db s2)" using nodes_wf_put [OF wf j] db s2 by simp
  from calm_list_nodes [OF wf2, of ?i] l obtain js where y: "y = Inr js"
    and sound: "\<forall>j \<in> set js. \<exists>i t. node_of i j \<and> rclock X s2 \<le> t \<and> lookup_at t (db s2) (node_key i) \<noteq> None"
    and complete: "\<forall>j dl. node_of ?i j \<longrightarrow> lookup_at (rclock X s3) (db s2) (node_key ?i) = Some (RString (json_dumps j), dl) \<longrightarrow> j \<in> set js"
    by auto
  have look: "lookup_at u (db s2) (node_key ?i) = (if t + ?w \<le> u then None else Some (RString (json_dumps ?j), Some (t + ?w)))" for u
    using db s2 by simp
  have "?j \<in> set js" if "rclock X s3 < rclock X s + ?w"
  proof -
    have "\<not> t + ?w \<le> rclock X s3" using that t by simp
    with complete j look show ?thesis by simp
  qed
  moreover have "\<not> node_of ?i j'" if le: "rclock X s1 + ?w \<le> rclock X s2" and j': "j' \<in> set js" for j'
  proof
    assume "node_of ?i j'"
    moreover from sound j' obtain i u where "node_of i j'" "rclock X s2 \<le> u" "lookup_at u (db s2) (node_key i) \<noteq> None" by blast
    ultimately have "lookup_at u (db s2) (node_key ?i) \<noteq> None" "rclock X s2 \<le> u" by (auto simp: node_of_def)
    then show False using look le t by simp
  qed
  ultimately show ?thesis using x y by blast
qed

end

section \<open>Properties\<close>

text \<open>C36: The node list is the set of live nodes.  After a node has written its record, \<open>list_nodes\<close>
  returns this record as it was written until the time to live has passed, and no record of the node
  from then on when nothing else writes its key: a node that stops refreshing disappears.\<close>

theorem node_listed_while_alive:
  assumes "redis_calm X db" and "pyfloat_ok F" and "0 < node_ttl_seconds cfg" and "nodes_wf (db s)"
    and "node_write X F cfg n active s = (x, s1)" and "db s2 = db s1" and "list_nodes X s2 = (y, s3)"
  shows "x = Inr () \<and> (\<exists>js. y = Inr js \<and>
    (rclock X s3 < rclock X s + of_int (node_ttl_seconds cfg) \<longrightarrow> node_record F n active (rclock X s) \<in> set js) \<and>
    (rclock X s1 + of_int (node_ttl_seconds cfg) \<le> rclock X s2 \<longrightarrow> (\<forall>j \<in> set js. \<not> node_of (nr_node_id n) j)))"
  by (rule redis_calm.calm_node_listed [OF assms])

theorem node_listed_while_alive_witness:
  "\<exists>s1 js s3. node_write calm_redis frac_float default_settings (new_registrar ''a'') 7 (mem_start 0 []) = (Inr (), s1) \<and>
     list_nodes calm_redis s1 = (Inr js, s3) \<and> node_record frac_float (new_registrar ''a'') 7 0 \<in> set js"
proof -
  let ?m = "node_write calm_redis frac_float default_settings (new_registrar ''a'') 7 (mem_start 0 [])"
  obtain x s1 where w: "?m = (x, s1)" by fastforce
  obtain y s3 where l: "list_nodes calm_redis s1 = (y, s3)" by fastforce
  have "mem_clock (snd (list_nodes calm_redis (snd ?m))) = 0" by code_simp
  then have "rclock calm_redis s3 < rclock calm_redis (mem_start 0 []) + of_int (node_ttl_seconds default_settings)"
    using w l by (simp add: calm_redis_def mem_start_def)
  moreover have "nodes_wf (mem_db (mem_start 0 []))" by (simp add: nodes_wf_def mem_db_def mem_start_def)
  moreover have "rclock calm_redis (mem_start 0 []) = 0" by (simp add: calm_redis_def mem_start_def)
  ultimately show ?thesis
    using node_listed_while_alive [OF calm_mem.redis_calm_axioms frac.pyfloat_ok_axioms _ _ w refl l] w l by auto
qed

end
