(* ===== verification/Observability.thy ===== *)
theory Observability
  imports Json
begin

text \<open>
  \<open>packages/observability\<close>: the process-wide metrics with their Prometheus text, and the JSON log lines
  with the redaction of secrets.  \<open>METRICS\<close> is a \<open>defaultdict(float)\<close>: a counter that is only added to
  is a float, a gauge that is assigned an \<open>int\<close> is an \<open>int\<close>, and the two print differently.  Only whole
  numbers are ever stored; a float prints as below up to \<open>10\<^sup>1\<^sup>6\<close>.
\<close>

section \<open>Metrics\<close>

datatype metric = MFloat int | MInt int

type_synonym metrics = "string \<Rightarrow> metric"

definition no_metrics :: metrics where
  "no_metrics = (\<lambda>_. MFloat 0)"

fun metric_value :: "metric \<Rightarrow> int" where
  "metric_value (MFloat n) = n"
| "metric_value (MInt n) = n"

fun metric_plus :: "metric \<Rightarrow> int \<Rightarrow> metric" where
  "metric_plus (MFloat n) k = MFloat (n + k)"
| "metric_plus (MInt n) k = MInt (n + k)"

fun metric_text :: "metric \<Rightarrow> string" where
  "metric_text (MFloat n) = show_int n @ ''.0''"
| "metric_text (MInt n) = show_int n"

definition COUNTERS :: "string list" where
  "COUNTERS =
     [''relay_connections_total'', ''relay_connections_rejected_total'', ''relay_disconnects_total'',
      ''relay_messages_received_total'', ''relay_messages_delivered_total'', ''relay_messages_acked_total'',
      ''relay_messages_retried_total'', ''relay_messages_dropped_total'', ''relay_slow_consumers_total'',
      ''relay_resume_attempts_total'', ''relay_resume_success_total'', ''relay_resume_failures_total'',
      ''relay_auth_failures_total'', ''relay_subscription_rejections_total'']"

definition GAUGES :: "string list" where
  "GAUGES =
     [''relay_connections_active'', ''relay_queue_depth'', ''relay_queue_bytes'', ''relay_active_sessions'',
      ''relay_presence_users'', ''relay_fanout_size'']"

definition HELP :: "(string \<times> string) list" where
  "HELP =
     [(''relay_connections_active'', ''Currently active WebSocket connections on this node''),
      (''relay_messages_delivered_total'', ''Messages written to a client socket''),
      (''relay_slow_consumers_total'', ''Connections disconnected for exceeding queue bounds''),
      (''relay_resume_failures_total'', ''Resume attempts that could not be satisfied'')]"

definition newline :: char where
  "newline = CHR 0x0A"

definition metric_lines :: "string \<Rightarrow> metrics \<Rightarrow> string \<Rightarrow> string list" where
  "metric_lines kind M name =
     (case map_of HELP name of None \<Rightarrow> [] | Some h \<Rightarrow> [''# HELP '' @ name @ '' '' @ h]) @
     [''# TYPE '' @ name @ '' '' @ kind, name @ '' '' @ metric_text (M name)]"

fun join_with :: "string \<Rightarrow> string list \<Rightarrow> string" where
  "join_with sep [] = []"
| "join_with sep [x] = x"
| "join_with sep (x # y # xs) = x @ sep @ join_with sep (y # xs)"

definition render_metrics :: "metrics \<Rightarrow> string" where
  "render_metrics M =
     join_with [newline]
       (concat (map (metric_lines ''counter'' M) COUNTERS) @ concat (map (metric_lines ''gauge'' M) GAUGES))
     @ [newline]"

section \<open>Log lines\<close>

definition REDACT_KEYS :: "string list" where
  "REDACT_KEYS = [''token'', ''api_key'', ''authorization'', ''password'', ''secret'', ''payload'']"

text \<open>\<open>str.lower\<close> on the code points up to U+00FF.\<close>

definition lower_char :: "char \<Rightarrow> char" where
  "lower_char c =
     (let n = (of_char c :: nat)
      in if 65 \<le> n \<and> n \<le> 90 \<or> 192 \<le> n \<and> n \<le> 222 \<and> n \<noteq> 215 then char_of (n + 32) else c)"

definition lower :: "string \<Rightarrow> string" where
  "lower s = map lower_char s"

record log_record =
  lg_created :: string
  lg_level :: string
  lg_logger :: string
  lg_message :: string
  lg_fields :: "(string \<times> json) list option"

definition add_fields :: "(string \<times> json) list \<Rightarrow> (string \<times> json) list \<Rightarrow> (string \<times> json) list" where
  "add_fields extra base =
     foldl (\<lambda>d (k, v). if lower k \<in> set REDACT_KEYS then d else AList.update k v d) base extra"

definition log_object :: "log_record \<Rightarrow> (string \<times> json) list" where
  "log_object r =
     add_fields (case lg_fields r of None \<Rightarrow> [] | Some extra \<Rightarrow> extra)
       [(''timestamp'', JStr (lg_created r)), (''level'', JStr (lg_level r)), (''logger'', JStr (lg_logger r)),
        (''message'', JStr (lg_message r))]"

definition format_record :: "log_record \<Rightarrow> string" where
  "format_record r = json_dumps (JObj (log_object r))"

text \<open>The root logger of the standard library, as the program uses it: the formatters of its handlers and
  its level.  The named loggers of the program set neither, so their records go to the root logger.
  \<open>configure_logging\<close> replaces the handlers before \<open>setLevel\<close>, which raises for an unknown name.\<close>

record log_root =
  root_handlers :: "(log_record \<Rightarrow> string) list"
  root_level :: int

definition LEVELS :: "(string \<times> int) list" where
  "LEVELS = [(''CRITICAL'', 50), (''FATAL'', 50), (''ERROR'', 40), (''WARNING'', 30), (''WARN'', 30), (''INFO'', 20),
     (''DEBUG'', 10), (''NOTSET'', 0)]"

definition level_name :: "int \<Rightarrow> string" where
  "level_name n =
     (case map_of (map (\<lambda>(k, v). (v, k)) LEVELS) n of Some name \<Rightarrow> name | None \<Rightarrow> ''Level '' @ show_int n)"

definition configure_logging :: "string \<Rightarrow> (log_root, unit) io" where
  "configure_logging level =
     thenE (modifyE (\<lambda>rt. rt\<lparr>root_handlers := [format_record]\<rparr>))
       (case map_of LEVELS level of
          None \<Rightarrow> raiseE (ValueError level)
        | Some n \<Rightarrow> modifyE (\<lambda>rt. rt\<lparr>root_level := n\<rparr>))"

text \<open>\<open>log_event\<close>: the lines it writes; the rendered time of the record is an argument.\<close>

definition log_event ::
  "log_root \<Rightarrow> string \<Rightarrow> string \<Rightarrow> int \<Rightarrow> string \<Rightarrow> (string \<times> json) list \<Rightarrow> string list" where
  "log_event rt created logger level event extra =
     (if level < root_level rt then []
      else
        let r = \<lparr>lg_created = created, lg_level = level_name level, lg_logger = logger, lg_message = event,
                 lg_fields = Some ((''event'', JStr event) # extra)\<rparr>
        in map (\<lambda>h. h r) (root_handlers rt))"

section \<open>What a scraper reads\<close>

text \<open>The lines of a text, and the value of a sample in them.\<close>

fun lines_of :: "string \<Rightarrow> string list" where
  "lines_of [] = []"
| "lines_of (c # s) =
     (if c = newline then [] # lines_of s
      else case lines_of s of [] \<Rightarrow> [[c]] | l # ls \<Rightarrow> (c # l) # ls)"

definition sample_value :: "string \<Rightarrow> string \<Rightarrow> int option" where
  "sample_value name l =
     (if startswith l (name @ '' '') then parse_int (takeWhile (\<lambda>c. c \<noteq> CHR ''.'') (drop (length name + 1) l)) else None)"

definition samples :: "string \<Rightarrow> string list \<Rightarrow> int list" where
  "samples name ls = concat (map (\<lambda>l. case sample_value name l of None \<Rightarrow> [] | Some v \<Rightarrow> [v]) ls)"

definition scrape :: "string \<Rightarrow> string \<Rightarrow> int list" where
  "scrape text name = samples name (lines_of text)"

lemma lines_of_line: "newline \<notin> set l \<Longrightarrow> lines_of (l @ newline # s) = l # lines_of s"
  by (induction l) auto

lemma lines_of_join:
  "\<forall>l \<in> set ls. newline \<notin> set l \<Longrightarrow> ls \<noteq> [] \<Longrightarrow> lines_of (join_with [newline] ls @ [newline]) = ls"
  by (induction ls rule: join_with.induct [of "\<lambda>_ ls. _ ls" "[newline]"]) (simp_all add: lines_of_line)

lemma show_int_no_char: "\<not> is_digit c \<Longrightarrow> c \<noteq> CHR ''-'' \<Longrightarrow> c \<notin> set (show_int n)"
  using show_nat_digits [of "nat n"] show_nat_digits [of "nat (- n)"]
  by (auto simp: show_int_def list_all_iff)

lemma metric_text_value: "parse_int (takeWhile (\<lambda>c. c \<noteq> CHR ''.'') (metric_text m)) = Some (metric_value m)"
proof -
  have "CHR ''.'' \<notin> set (show_int n)" for n by (rule show_int_no_char) (simp_all add: is_digit_def)
  then have "takeWhile (\<lambda>c. c \<noteq> CHR ''.'') (show_int n) = show_int n"
    "takeWhile (\<lambda>c. c \<noteq> CHR ''.'') (show_int n @ ''.0'') = show_int n" for n
    by (auto simp: takeWhile_eq_all_conv takeWhile_append)
  then show ?thesis by (cases m) (metis metric_text.simps metric_value.simps parse_show_int)+
qed

lemma names_plain: "n \<in> set (COUNTERS @ GAUGES) \<Longrightarrow> newline \<notin> set n \<and> CHR '' '' \<notin> set n \<and> CHR ''#'' \<notin> set n \<and> n \<noteq> []"
  by (auto simp: COUNTERS_def GAUGES_def newline_def)

lemma names_distinct: "distinct (COUNTERS @ GAUGES)"
  by (simp add: COUNTERS_def GAUGES_def)

lemma help_plain: "map_of HELP n = Some h \<Longrightarrow> newline \<notin> set h"
proof -
  assume "map_of HELP n = Some h"
  then have "(n, h) \<in> set HELP" by (rule map_of_SomeD)
  then show ?thesis by (auto simp: HELP_def newline_def)
qed

lemma metric_text_plain: "newline \<notin> set (metric_text m)"
  using show_int_no_char [of newline] by (cases m) (auto simp: newline_def is_digit_def)

lemma metric_lines_plain:
  assumes "n \<in> set (COUNTERS @ GAUGES)" and "newline \<notin> set kind" and "l \<in> set (metric_lines kind M n)"
  shows "newline \<notin> set l"
  using assms(2,3) names_plain [OF assms(1)] help_plain [of n] metric_text_plain [of "M n"]
  by (auto simp: metric_lines_def newline_def split: option.splits)

lemma sample_value_lines:
  assumes "n \<in> set (COUNTERS @ GAUGES)" and "m \<in> set (COUNTERS @ GAUGES)"
  shows "samples n (metric_lines kind M m) = (if m = n then [metric_value (M n)] else [])"
proof -
  note n = names_plain [OF assms(1)] and m = names_plain [OF assms(2)]
  have "\<not> startswith (CHR ''#'' # l) (n @ '' '')" for l
    using n by (cases n) (auto simp: startswith_def)
  then have hash: "sample_value n (CHR ''#'' # l) = None" for l by (simp add: sample_value_def)
  have "startswith (m @ '' '' @ v) (n @ '' '') \<longleftrightarrow> m = n" for v
    using append_sep_inject [of "CHR '' ''" m n v] n m by (auto simp: startswith_iff)
  then have "sample_value n (m @ '' '' @ metric_text (M m)) = (if m = n then Some (metric_value (M n)) else None)"
    using metric_text_value [of "M n"] by (simp add: sample_value_def)
  with hash show ?thesis by (cases "map_of HELP m") (simp_all add: samples_def metric_lines_def)
qed

text \<open>A scraper reads every counter and gauge once, with its value.\<close>

lemma scrape_rendered:
  assumes "n \<in> set (COUNTERS @ GAUGES)"
  shows "scrape (render_metrics M) n = [metric_value (M n)]"
proof -
  let ?ls = "concat (map (metric_lines ''counter'' M) COUNTERS) @ concat (map (metric_lines ''gauge'' M) GAUGES)"
  have "?ls \<noteq> []" by (simp add: COUNTERS_def metric_lines_def)
  moreover have "\<forall>l \<in> set ?ls. newline \<notin> set l"
    using metric_lines_plain [of _ "''counter''" _ M] metric_lines_plain [of _ "''gauge''" _ M]
    by (fastforce simp: newline_def)
  ultimately have lines: "lines_of (render_metrics M) = ?ls" unfolding render_metrics_def by (intro lines_of_join)
  have app: "samples n (xs @ ys) = samples n xs @ samples n ys" "samples n [] = []" for xs ys by (simp_all add: samples_def)
  have part: "samples n (concat (map (metric_lines kind M) ns)) = concat (map (\<lambda>m. if m = n then [metric_value (M n)] else []) ns)"
    if "set ns \<subseteq> set (COUNTERS @ GAUGES)" for kind ns
    using that by (induction ns) (simp_all add: app sample_value_lines [OF assms])
  have once: "distinct ns \<Longrightarrow> concat (map (\<lambda>m. if m = n then [v] else []) ns) = (if n \<in> set ns then [v] else [])" for ns v
    by (induction ns) auto
  have "scrape (render_metrics M) n =
      concat (map (\<lambda>m. if m = n then [metric_value (M n)] else []) (COUNTERS @ GAUGES))"
    using part [of COUNTERS] part [of GAUGES] by (simp add: scrape_def lines app)
  with once [OF names_distinct] assms show ?thesis by simp
qed

section \<open>Redaction\<close>

lemma add_fields_keys: "fst ` set (add_fields extra base) = fst ` set base \<union> {k \<in> fst ` set extra. lower k \<notin> set REDACT_KEYS}"
proof (induction extra arbitrary: base)
  case (Cons kv extra)
  have "fst ` set (AList.update (fst kv) (snd kv) base) = insert (fst kv) (fst ` set base)"
    using dom_update [of "fst kv" "snd kv" base] by (simp add: dom_map_of_conv_image_fst)
  with Cons.IH [of base] Cons.IH [of "AList.update (fst kv) (snd kv) base"] show ?case
    by (auto simp: add_fields_def case_prod_beta)
qed (simp add: add_fields_def)

lemma add_fields_lookup:
  assumes "distinct (map fst extra)"
  shows "map_of (add_fields extra base) k =
    (if lower k \<in> set REDACT_KEYS then map_of base k
     else case map_of extra k of None \<Rightarrow> map_of base k | Some v \<Rightarrow> Some v)"
  using assms
proof (induction extra arbitrary: base)
  case (Cons kv extra)
  obtain k' v where kv: "kv = (k', v)" by (cases kv)
  have step: "add_fields (kv # extra) base =
      add_fields extra (if lower k' \<in> set REDACT_KEYS then base else AList.update k' v base)"
    by (simp add: add_fields_def kv)
  have "map_of extra k' = None" using Cons.prems by (auto simp: kv map_of_eq_None_iff)
  then show ?case
    unfolding step using Cons by (auto simp: kv update_conv' split: option.split)
qed (simp add: add_fields_def)

lemma set_AList_update: "set (AList.update k v d) \<subseteq> insert (k, v) (set d)"
  by (induction d) auto

lemma add_fields_wf:
  assumes "wf_json (JObj base)" and "\<forall>(k, v) \<in> set extra. lower k \<notin> set REDACT_KEYS \<longrightarrow> wf_json v"
  shows "wf_json (JObj (add_fields extra base))"
  using assms
proof (induction extra arbitrary: base)
  case (Cons kv extra)
  obtain k v where kv: "kv = (k, v)" by (cases kv)
  have "wf_json (JObj (AList.update k v base))" if "wf_json v"
    using Cons.prems(1) that set_AList_update [of k v base] by (fastforce simp: list_all_iff intro: distinct_update)
  then show ?case using Cons by (auto simp: add_fields_def kv)
qed (simp add: add_fields_def)

text \<open>No secret field is written, whatever its spelling.\<close>

lemma log_redacts: "k \<in> fst ` set (log_object r) \<Longrightarrow> lower k \<notin> set REDACT_KEYS"
  unfolding log_object_def add_fields_keys
  by (auto simp: lower_def lower_char_def REDACT_KEYS_def)

text \<open>C22: A log line tells everything but the secrets.  After \<open>configure_logging\<close> with a known level, an event
  at or above it is written as exactly one line; read back as JSON, the line is an object that has
  every field of the event with its value, except the fields whose name is one of the secret ones in
  any spelling, which it does not have, and the message, the level and the logger unless a field of
  the event carries the same name.  An event below the level writes nothing.\<close>

theorem log_line_redacted:
  assumes "configure_logging level rt0 = (Inr (), rt)" and "map_of LEVELS level = Some n"
    and "distinct (map fst extra)" and "''event'' \<notin> fst ` set extra"
    and "\<forall>(k, v) \<in> set extra. lower k \<notin> set REDACT_KEYS \<longrightarrow> wf_json v"
  shows "(levelno < n \<longrightarrow> log_event rt created logger levelno event extra = []) \<and>
    (n \<le> levelno \<longrightarrow>
       (\<exists>line obj. log_event rt created logger levelno event extra = [line] \<and> json_loads line = Some (JObj obj) \<and>
          (\<forall>k. lower k \<in> set REDACT_KEYS \<longrightarrow> map_of obj k = None) \<and>
          (\<forall>k v. (k, v) \<in> set extra \<and> lower k \<notin> set REDACT_KEYS \<longrightarrow> map_of obj k = Some v) \<and>
          map_of obj ''event'' = Some (JStr event) \<and>
          (''message'' \<notin> fst ` set extra \<longrightarrow> map_of obj ''message'' = Some (JStr event)) \<and>
          (''level'' \<notin> fst ` set extra \<longrightarrow> map_of obj ''level'' = Some (JStr (level_name levelno))) \<and>
          (''logger'' \<notin> fst ` set extra \<longrightarrow> map_of obj ''logger'' = Some (JStr logger))))"
proof -
  let ?fields = "(''event'', JStr event) # extra"
  let ?base = "[(''timestamp'', JStr created), (''level'', JStr (level_name levelno)), (''logger'', JStr logger), (''message'', JStr event)]"
  let ?obj = "add_fields ?fields ?base"
  have rt: "root_handlers rt = [format_record]" "root_level rt = n"
    using assms(1,2) by (auto simp: configure_logging_def thenE_def bindE_def)
  have d: "distinct (map fst ?fields)" using assms(3,4) by auto
  note look = add_fields_lookup [OF d]
  have plain: "lower ''event'' \<notin> set REDACT_KEYS" "lower ''message'' \<notin> set REDACT_KEYS" "lower ''level'' \<notin> set REDACT_KEYS"
    "lower ''logger'' \<notin> set REDACT_KEYS" "lower ''timestamp'' \<notin> set REDACT_KEYS"
    by (simp_all add: lower_def lower_char_def REDACT_KEYS_def)
  have "wf_json (JObj ?obj)" by (rule add_fields_wf) (use assms(5) in auto)
  then have read: "json_loads (json_dumps (JObj ?obj)) = Some (JObj ?obj)" by simp
  have secret: "map_of ?obj k = None" if "lower k \<in> set REDACT_KEYS" for k
    using that plain unfolding look by auto
  have field: "map_of ?obj k = Some v" if "(k, v) \<in> set extra" "lower k \<notin> set REDACT_KEYS" for k v
  proof -
    have "map_of ?fields k = Some v" using that(1) d by (intro map_of_is_SomeI) auto
    with that(2) show ?thesis unfolding look by simp
  qed
  have rest: "map_of ?obj ''event'' = Some (JStr event)"
    "''message'' \<notin> fst ` set extra \<Longrightarrow> map_of ?obj ''message'' = Some (JStr event)"
    "''level'' \<notin> fst ` set extra \<Longrightarrow> map_of ?obj ''level'' = Some (JStr (level_name levelno))"
    "''logger'' \<notin> fst ` set extra \<Longrightarrow> map_of ?obj ''logger'' = Some (JStr logger)"
  proof -
    have none: "k \<notin> fst ` set extra \<Longrightarrow> map_of extra k = None" for k by (simp add: map_of_eq_None_iff)
    show "map_of ?obj ''event'' = Some (JStr event)"
      "''message'' \<notin> fst ` set extra \<Longrightarrow> map_of ?obj ''message'' = Some (JStr event)"
      "''level'' \<notin> fst ` set extra \<Longrightarrow> map_of ?obj ''level'' = Some (JStr (level_name levelno))"
      "''logger'' \<notin> fst ` set extra \<Longrightarrow> map_of ?obj ''logger'' = Some (JStr logger)"
      unfolding look using plain none by simp_all
  qed
  have line: "log_event rt created logger levelno event extra = (if levelno < n then [] else [json_dumps (JObj ?obj)])"
    by (simp add: log_event_def rt format_record_def log_object_def)
  show ?thesis
    unfolding line using read secret field rest
    by (intro conjI impI exI [of _ "json_dumps (JObj ?obj)"] exI [of _ ?obj] allI) simp_all
qed

theorem log_line_redacted_witness:
  "\<exists>rt line obj. configure_logging ''INFO'' \<lparr>root_handlers = [], root_level = 30\<rparr> = (Inr (), rt) \<and>
     log_event rt ''now'' ''relay'' 20 ''published'' [(''Token'', JStr ''abc''), (''sequence'', JInt 3)] = [line] \<and>
     json_loads line = Some (JObj obj) \<and> map_of obj ''Token'' = None \<and> map_of obj ''sequence'' = Some (JInt 3)"
proof -
  let ?extra = "[(''Token'', JStr ''abc''), (''sequence'', JInt 3)]"
  obtain rt where c: "configure_logging ''INFO'' \<lparr>root_handlers = [], root_level = 30\<rparr> = (Inr (), rt)"
    by (simp add: configure_logging_def LEVELS_def thenE_def bindE_def)
  have names: "lower ''Token'' \<in> set REDACT_KEYS" "lower ''sequence'' \<notin> set REDACT_KEYS"
    by code_simp+
  have "map_of LEVELS ''INFO'' = Some 20" "distinct (map fst ?extra)" "''event'' \<notin> fst ` set ?extra"
    "\<forall>(k, v) \<in> set ?extra. lower k \<notin> set REDACT_KEYS \<longrightarrow> wf_json v"
    by (simp_all add: LEVELS_def)
  from log_line_redacted [OF c this, of 20 "''now''" "''relay''" "''published''"] names
  obtain line obj where "log_event rt ''now'' ''relay'' 20 ''published'' ?extra = [line]" "json_loads line = Some (JObj obj)"
    "map_of obj ''Token'' = None" "map_of obj ''sequence'' = Some (JInt 3)" by auto
  with c show ?thesis by blast
qed

end
