(* ===== verification/Control_Plane.thy ===== *)
theory Control_Plane
  imports Auth Nodes Observability
begin

text \<open>
  \<open>apps/control_plane/main.py\<close>: the administration endpoints over the durable tables.  A new row's
  UUID, the time and the random part of a key are arguments, and so is the database: \<open>is_uuid\<close>, the ids
  its driver accepts for a UUID column, and \<open>chk\<close>, what a commit raises for the contents it would leave.
  The endpoints hold only the logic of the program.  What it relies on, that a commit raises exactly when
  a constraint of the models is broken, is the locale \<open>durable_tables\<close> (\<open>enforces\<close> in the property).  An
  id is in its canonical text, as \<open>str\<close> of a UUID prints it.
\<close>

section \<open>Start and end\<close>

text \<open>\<open>lifespan\<close>: the root logger and the Redis pool of the process.\<close>

record admin_app =
  aa_log :: log_root
  aa_client :: "redis_options option"

definition admin_lifespan_start :: "(admin_app, unit) io" where
  "admin_lifespan_start a = (case configure_logging ''INFO'' (aa_log a) of (x, l) \<Rightarrow> (x, a\<lparr>aa_log := l\<rparr>))"

definition admin_lifespan_stop :: "(admin_app, unit) io" where
  "admin_lifespan_stop = modifyE (\<lambda>a. a\<lparr>aa_client := close_redis (aa_client a)\<rparr>)"

lemma admin_lifespan_run:
  "thenE admin_lifespan_start admin_lifespan_stop a =
     (Inr (), \<lparr>aa_log = \<lparr>root_handlers = [format_record], root_level = 20\<rparr>, aa_client = None\<rparr>)"
  by (simp add: thenE_def bindE_def admin_lifespan_start_def admin_lifespan_stop_def configure_logging_def LEVELS_def close_redis_def)

section \<open>Endpoints\<close>

record tenant_out =
  to_id :: string
  to_name :: string
  to_status :: string

record api_key_out =
  ko_id :: string
  ko_tenant_id :: string
  ko_key_prefix :: string
  ko_api_key :: "string option"

record named_out =
  no_id :: string
  no_name :: string
  no_tenant_id :: string

definition tenant_exists :: "database \<Rightarrow> string \<Rightarrow> bool" where
  "tenant_exists d tid = (\<exists>t \<in> set (db_tenants d). tr_id t = tid)"

text \<open>\<open>db.get\<close> of a row by its id, which the driver refuses when it is no UUID, and \<open>db.commit\<close> of the
  changes of the request: \<open>chk\<close> is what the database raises for the contents the commit would leave, if
  anything, and then the tables stay as they were.\<close>

definition db_get :: "(string \<Rightarrow> bool) \<Rightarrow> string \<Rightarrow> (database \<Rightarrow> bool) \<Rightarrow> (database, bool) io" where
  "db_get is_uuid i present = (if is_uuid i then getE present else raiseE DataError)"

definition db_commit :: "(database \<Rightarrow> exn option) \<Rightarrow> (database \<Rightarrow> database) \<Rightarrow> (database, unit) io" where
  "db_commit chk change d = (case chk (change d) of None \<Rightarrow> (Inr (), change d) | Some e \<Rightarrow> (Inl e, d))"

definition out_of_tenant :: "tenant_row \<Rightarrow> tenant_out" where
  "out_of_tenant t = \<lparr>to_id = tr_id t, to_name = tr_name t, to_status = tr_status t\<rparr>"

definition create_tenant :: "(database \<Rightarrow> exn option) \<Rightarrow> string \<Rightarrow> time \<Rightarrow> string \<Rightarrow> (database, tenant_out) io" where
  "create_tenant chk uuid now name =
     (let t = \<lparr>tr_id = uuid, tr_name = name, tr_status = ''active'', tr_created_at = now, tr_updated_at = now\<rparr>
      in thenE (db_commit chk (\<lambda>d. d\<lparr>db_tenants := db_tenants d @ [t]\<rparr>)) (returnE (out_of_tenant t)))"

definition list_tenants :: "(database, tenant_out list) io" where
  "list_tenants d = (Inr (map out_of_tenant (db_tenants d)), d)"

definition create_api_key ::
  "(database \<Rightarrow> exn option) \<Rightarrow> (string \<Rightarrow> bool) \<Rightarrow> (string \<Rightarrow> string) \<Rightarrow> string \<Rightarrow> string \<Rightarrow> time \<Rightarrow> string \<Rightarrow>
     (database, api_key_out) io" where
  "create_api_key chk is_uuid sha256 token uuid now tid =
     bindE (db_get is_uuid tid (\<lambda>d. tenant_exists d tid)) (\<lambda>found.
       if \<not> found then raiseE (HTTPException 404 ''tenant not found'')
       else
         let (plaintext, pre, key_hash) = generate_api_key sha256 token;
             k = \<lparr>ak_id = uuid, ak_tenant = tid, ak_prefix = pre, ak_hash = key_hash, ak_status = ''active'',
                  ak_created_at = now, ak_expires_at = None\<rparr>
         in thenE (db_commit chk (\<lambda>d. d\<lparr>db_api_keys := db_api_keys d @ [k]\<rparr>))
              (returnE \<lparr>ko_id = uuid, ko_tenant_id = tid, ko_key_prefix = pre, ko_api_key = Some plaintext\<rparr>))"

definition revoke_api_key ::
  "(database \<Rightarrow> exn option) \<Rightarrow> (string \<Rightarrow> bool) \<Rightarrow> string \<Rightarrow> (database, unit) io" where
  "revoke_api_key chk is_uuid kid =
     bindE (db_get is_uuid kid (\<lambda>d. \<exists>k \<in> set (db_api_keys d). ak_id k = kid)) (\<lambda>found.
       if \<not> found then raiseE (HTTPException 404 ''api key not found'')
       else db_commit chk (\<lambda>d. d\<lparr>db_api_keys :=
              map (\<lambda>k. if ak_id k = kid then k\<lparr>ak_status := ''revoked''\<rparr> else k) (db_api_keys d)\<rparr>))"

definition out_of_channel :: "channel_row \<Rightarrow> named_out" where
  "out_of_channel c = \<lparr>no_id = cr_id c, no_name = cr_name c, no_tenant_id = cr_tenant c\<rparr>"

definition create_channel ::
  "(database \<Rightarrow> exn option) \<Rightarrow> string \<Rightarrow> time \<Rightarrow> string \<Rightarrow> string \<Rightarrow> bool \<Rightarrow> int \<Rightarrow> (database, named_out) io" where
  "create_channel chk uuid now tid name ordering_enabled retention_seconds =
     (let c = \<lparr>cr_id = uuid, cr_tenant = tid, cr_name = name, cr_ordering = ordering_enabled,
               cr_mode = ''AT_LEAST_ONCE'', cr_retention = retention_seconds, cr_max_size = 1000000,
               cr_created_at = now\<rparr>
      in thenE (db_commit chk (\<lambda>d. d\<lparr>db_channels := db_channels d @ [c]\<rparr>)) (returnE (out_of_channel c)))"

definition list_channels :: "(database, named_out list) io" where
  "list_channels d = (Inr (map out_of_channel (db_channels d)), d)"

definition out_of_room :: "room_row \<Rightarrow> named_out" where
  "out_of_room r = \<lparr>no_id = rm_id r, no_name = rm_name r, no_tenant_id = rm_tenant r\<rparr>"

definition create_room ::
  "(database \<Rightarrow> exn option) \<Rightarrow> string \<Rightarrow> time \<Rightarrow> string \<Rightarrow> string \<Rightarrow> (database, named_out) io" where
  "create_room chk uuid now tid name =
     (let r = \<lparr>rm_id = uuid, rm_tenant = tid, rm_name = name, rm_created_at = now\<rparr>
      in thenE (db_commit chk (\<lambda>d. d\<lparr>db_rooms := db_rooms d @ [r]\<rparr>)) (returnE (out_of_room r)))"

definition list_rooms :: "(database, named_out list) io" where
  "list_rooms d = (Inr (map out_of_room (db_rooms d)), d)"

definition admin_list_nodes :: "'r redis \<Rightarrow> ('r, json list) io" where
  "admin_list_nodes X = list_nodes X"

text \<open>\<open>/health/live\<close> answers always; \<open>/health/ready\<close> when the database answers \<open>SELECT 1\<close>.\<close>

definition admin_live :: json where
  "admin_live = JObj [(''status'', JStr ''alive'')]"

definition admin_ready :: "(exn + unit) \<Rightarrow> exn + json" where
  "admin_ready select_1 =
     (case select_1 of Inl e \<Rightarrow> Inl e | Inr _ \<Rightarrow> Inr (JObj [(''ready'', JBool True)]))"

text \<open>\<open>scripts/seed.py\<close>: the two requests and what it prints: the tenant, the key and a channel.\<close>

definition seed_main ::
  "(database \<Rightarrow> exn option) \<Rightarrow> (string \<Rightarrow> bool) \<Rightarrow> (string \<Rightarrow> string) \<Rightarrow> string \<Rightarrow> string \<Rightarrow> string \<Rightarrow> time \<Rightarrow>
     (database, string \<times> string option \<times> string) io" where
  "seed_main chk is_uuid sha256 tenant_uuid key_uuid token now =
     bindE (create_tenant chk tenant_uuid now ''demo'') (\<lambda>tenant.
     bindE (create_api_key chk is_uuid sha256 token key_uuid now (to_id tenant)) (\<lambda>key.
       returnE (to_id tenant, ko_api_key key, ''t-'' @ to_id tenant @ '':room-engineering'')))"

section \<open>The database\<close>

text \<open>What the endpoints rely on: a commit raises exactly when the contents would break a constraint of the
  models.\<close>

definition enforces :: "(database \<Rightarrow> exn option) \<Rightarrow> bool" where
  "enforces chk = (\<forall>d. chk d = None \<longleftrightarrow> db_wf d)"

text \<open>The constraints as they are declared: a value its column does not hold, then keys and references.\<close>

definition declared_constraints :: "database \<Rightarrow> exn option" where
  "declared_constraints d =
     (if \<not> db_columns d then Some DataError else if \<not> db_keys d \<or> \<not> db_refs d then Some IntegrityError else None)"

lemma tenant_exists_iff: "tenant_exists d tid \<longleftrightarrow> tid \<in> tr_id ` set (db_tenants d)"
  by (auto simp: tenant_exists_def)

lemma db_commit_Inr: "db_commit chk change d = (Inr u, d') \<longleftrightarrow> chk (change d) = None \<and> d' = change d"
  by (auto simp: db_commit_def split: option.split)

lemma create_api_key_Inr:
  "create_api_key chk is_uuid sha token uuid now tid d = (Inr out, d') \<longleftrightarrow>
     is_uuid tid \<and> tenant_exists d tid \<and>
     (\<exists>k. k = \<lparr>ak_id = uuid, ak_tenant = tid, ak_prefix = take 14 (''relay_'' @ token), ak_hash = sha (''relay_'' @ token),
                ak_status = ''active'', ak_created_at = now, ak_expires_at = None\<rparr> \<and>
        d' = d\<lparr>db_api_keys := db_api_keys d @ [k]\<rparr> \<and> chk d' = None) \<and>
     out = \<lparr>ko_id = uuid, ko_tenant_id = tid, ko_key_prefix = take 14 (''relay_'' @ token), ko_api_key = Some (''relay_'' @ token)\<rparr>"
  by (auto simp: create_api_key_def generate_api_key_def hash_api_key_def KEY_PREFIX_LENGTH_def Let_def db_get_def
      db_commit_Inr io_run_iffs)

lemma revoke_api_key_run:
  assumes "is_uuid kid" and "\<exists>k \<in> set (db_api_keys d). ak_id k = kid"
  shows "revoke_api_key chk is_uuid kid d = db_commit chk (\<lambda>d. d\<lparr>db_api_keys :=
    map (\<lambda>k. if ak_id k = kid then k\<lparr>ak_status := ''revoked''\<rparr> else k) (db_api_keys d)\<rparr>) d"
  using assms by (simp add: revoke_api_key_def db_get_def bindE_def)

text \<open>Revoking a key breaks no constraint.\<close>

lemma db_wf_revoke:
  assumes "db_wf d"
  shows "db_wf (d\<lparr>db_api_keys := map (\<lambda>k. if ak_id k = kid then k\<lparr>ak_status := ''revoked''\<rparr> else k) (db_api_keys d)\<rparr>)"
proof -
  let ?f = "\<lambda>k. if ak_id k = kid then k\<lparr>ak_status := ''revoked''\<rparr> else k"
  have f: "(\<lambda>k. ak_id (?f k)) = ak_id" "(\<lambda>k. ak_hash (?f k)) = ak_hash" by auto
  with assms show ?thesis by (auto simp: db_wf_defs comp_def f)
qed

section \<open>Life of an API key\<close>

lemma auth_rows_revoke:
  "(k, t) \<in> set (auth_rows (d\<lparr>db_api_keys := map (\<lambda>k. if ak_id k = kid then k\<lparr>ak_status := ''revoked''\<rparr> else k) (db_api_keys d)\<rparr>) h)
     \<longleftrightarrow> (k, t) \<in> set (auth_rows d h) \<and> ak_id k \<noteq> kid"
  by (auto simp: auth_rows_iff image_iff split: if_splits)

locale durable_tables =
  fixes chk :: "database \<Rightarrow> exn option"
  assumes commit_iff: "chk d = None \<longleftrightarrow> db_wf d"
begin

lemma created_wf: "create_api_key chk is_uuid sha token uuid now tid d = (Inr out, d1) \<Longrightarrow> db_wf d1"
  by (auto simp: create_api_key_Inr commit_iff)

text \<open>A created key is a new row: no other has its id or its hash.\<close>

lemma created_new:
  assumes "create_api_key chk is_uuid sha token uuid now tid d = (Inr out, d1)" and "k \<in> set (db_api_keys d)"
  shows "ak_id k \<noteq> uuid \<and> ak_hash k \<noteq> sha (''relay_'' @ token)"
proof -
  have "distinct (map ak_id (db_api_keys d1))" "distinct (map ak_hash (db_api_keys d1))"
    using created_wf [OF assms(1)] by (simp_all add: db_wf_def db_keys_def)
  with assms show ?thesis unfolding create_api_key_Inr by (auto simp: image_iff)
qed

lemma created_rows:
  assumes "create_api_key chk is_uuid sha token uuid now tid d = (Inr out, d1)"
  obtains k where "ak_id k = uuid"
    "\<And>k' t' h. (k', t') \<in> set (auth_rows d1 h) \<longleftrightarrow> (k', t') \<in> set (auth_rows d h) \<or>
      k' = k \<and> h = sha (''relay_'' @ token) \<and> t' \<in> set (db_tenants d) \<and> tr_id t' = tid \<and> tr_status t' = ''active''"
  using assms unfolding create_api_key_Inr by (force simp: auth_rows_iff)

lemma created_key_authenticates:
  assumes "create_api_key chk is_uuid sha token uuid now tid d = (Inr out, d1)"
    and "\<forall>t \<in> set (db_tenants d). tr_id t = tid \<longrightarrow> tr_status t = ''active''"
  shows "authenticate_token sha d1 (''relay_'' @ token) = Inr \<lparr>ac_tenant_id = tid, ac_api_key_id = uuid\<rparr>"
proof -
  obtain k where k: "ak_id k = uuid" and rows: "\<And>k' t' h. (k', t') \<in> set (auth_rows d1 h) \<longleftrightarrow> (k', t') \<in> set (auth_rows d h) \<or>
      k' = k \<and> h = sha (''relay_'' @ token) \<and> t' \<in> set (db_tenants d) \<and> tr_id t' = tid \<and> tr_status t' = ''active''"
    by (rule created_rows [OF assms(1)]) blast
  obtain t where "t \<in> set (db_tenants d)" "tr_id t = tid" "tr_status t = ''active''"
    using assms by (auto simp: create_api_key_Inr tenant_exists_def)
  with k show ?thesis by (auto simp: authenticate_Inr_iff [OF created_wf [OF assms(1)]] rows hash_api_key_def)
qed

lemma revoked_run:
  assumes "create_api_key chk is_uuid sha token uuid now tid d = (Inr out, d1)" and "is_uuid uuid"
    and "revoke_api_key chk is_uuid uuid d1 = (x, d2)"
  shows "x = Inr () \<and> db_wf d2 \<and>
    (\<forall>k t h. (k, t) \<in> set (auth_rows d2 h) \<longleftrightarrow> (k, t) \<in> set (auth_rows d1 h) \<and> ak_id k \<noteq> uuid)"
proof -
  have "\<exists>k \<in> set (db_api_keys d1). ak_id k = uuid" using assms(1) by (auto simp: create_api_key_Inr)
  note run = revoke_api_key_run [where is_uuid = is_uuid and kid = uuid, OF assms(2) this]
  note wf = db_wf_revoke [OF created_wf [OF assms(1)], of uuid]
  then show ?thesis using assms(3) unfolding run
    by (auto simp: db_commit_def commit_iff [THEN iffD2] auth_rows_revoke)
qed

text \<open>What the seed script prints can be used: the key authenticates as the tenant, the channel is one of
  its own.\<close>

lemma seed_main_usable:
  assumes "seed_main chk is_uuid sha tenant_uuid key_uuid token now d = (Inr (tid, key, channel), d')"
  shows "key = Some (''relay_'' @ token) \<and> channel_belongs_to_tenant channel tid \<and>
    authenticate_token sha d' (''relay_'' @ token) = Inr \<lparr>ac_tenant_id = tid, ac_api_key_id = key_uuid\<rparr>"
proof -
  from assms obtain t d1 k where t: "create_tenant chk tenant_uuid now ''demo'' d = (Inr t, d1)"
    and k: "create_api_key chk is_uuid sha token key_uuid now tid d1 = (Inr k, d')" and r: "to_id t = tid" "ko_api_key k = key"
    "channel = ''t-'' @ tid @ '':room-engineering''"
    by (auto simp: seed_main_def io_run_iffs)
  from t r have "db_wf d1" and d1: "d1 = d\<lparr>db_tenants := db_tenants d @ [\<lparr>tr_id = tid, tr_name = ''demo'', tr_status = ''active'',
      tr_created_at = now, tr_updated_at = now\<rparr>]\<rparr>"
    by (auto simp: create_tenant_def out_of_tenant_def Let_def db_commit_Inr commit_iff io_run_iffs)
  then have "\<forall>u \<in> set (db_tenants d1). tr_id u = tid \<longrightarrow> tr_status u = ''active''" by (auto simp: db_wf_defs)
  with created_key_authenticates [OF k] k r show ?thesis
    by (auto simp: create_api_key_Inr channel_belongs_iff namespaced_channel_def)
qed

end

interpretation declared: durable_tables declared_constraints
  by unfold_locales (auto simp: declared_constraints_def db_wf_def)

lemma enforces_declared: "enforces declared_constraints"
  by (simp add: enforces_def declared.commit_iff)

section \<open>Properties\<close>

text \<open>C35: The life of an API key.  In a database that enforces the constraints of the models, the plaintext
  \<open>create_api_key\<close> returns authenticates as the tenant it was created for, as long as the tenant is
  active; once the key is revoked, it is rejected; and neither step changes what any token with another
  hash authenticates as.\<close>

theorem api_key_lifecycle:
  assumes "db_wf d" and "create_api_key chk is_uuid sha token uuid now tid d = (Inr out, d1)"
    and "\<forall>t \<in> set (db_tenants d). tr_id t = tid \<longrightarrow> tr_status t = ''active''"
    and "revoke_api_key chk is_uuid uuid d1 = (x, d2)" and "is_uuid uuid" and "enforces chk"
  shows "authenticate_token sha d1 (the (ko_api_key out)) = Inr \<lparr>ac_tenant_id = tid, ac_api_key_id = uuid\<rparr> \<and>
    x = Inr () \<and> authenticate_token sha d2 (the (ko_api_key out)) = Inl (AuthenticationError ''invalid or revoked API key'') \<and>
    (sha other \<noteq> sha (the (ko_api_key out)) \<longrightarrow>
       (authenticate_token sha d1 other = Inr a \<longleftrightarrow> authenticate_token sha d other = Inr a) \<and>
       (authenticate_token sha d2 other = Inr a \<longleftrightarrow> authenticate_token sha d other = Inr a))"
proof -
  let ?h = "sha (''relay_'' @ token)"
  have db: "durable_tables chk" using assms(6) by unfold_locales (simp add: enforces_def)
  obtain k where k: "ak_id k = uuid" and rows1: "\<And>k' t' h. (k', t') \<in> set (auth_rows d1 h) \<longleftrightarrow> (k', t') \<in> set (auth_rows d h) \<or>
      k' = k \<and> h = ?h \<and> t' \<in> set (db_tenants d) \<and> tr_id t' = tid \<and> tr_status t' = ''active''"
    by (rule durable_tables.created_rows [OF db assms(2)]) blast
  have plain: "the (ko_api_key out) = ''relay_'' @ token" using assms(2) by (auto simp: create_api_key_Inr)
  note wf1 = durable_tables.created_wf [OF db assms(2)]
  from durable_tables.revoked_run [OF db assms(2,5,4)] have x: "x = Inr ()" and wf2: "db_wf d2"
    and rows2: "\<And>k t h. (k, t) \<in> set (auth_rows d2 h) \<longleftrightarrow> (k, t) \<in> set (auth_rows d1 h) \<and> ak_id k \<noteq> uuid" by auto
  have old: "(k', t') \<notin> set (auth_rows d ?h)" "(k', t') \<in> set (auth_rows d h) \<Longrightarrow> ak_id k' \<noteq> uuid" for k' t' h
    using durable_tables.created_new [OF db assms(2), of k'] by (auto simp: auth_rows_iff)
  have "(k', t') \<notin> set (auth_rows d2 ?h)" for k' t' unfolding rows2 rows1 using old(1) k by auto
  then have "auth_rows d2 ?h = []" by (cases "auth_rows d2 ?h") auto
  then have 2: "authenticate_token sha d2 (''relay_'' @ token) = Inl (AuthenticationError ''invalid or revoked API key'')"
    by (simp add: authenticate_token_def hash_api_key_def)
  have "(authenticate_token sha d1 other = Inr a \<longleftrightarrow> authenticate_token sha d other = Inr a) \<and>
      (authenticate_token sha d2 other = Inr a \<longleftrightarrow> authenticate_token sha d other = Inr a)"
    if other: "sha other \<noteq> ?h"
  proof -
    have 1: "(k', t') \<in> set (auth_rows d1 (sha other)) \<longleftrightarrow> (k', t') \<in> set (auth_rows d (sha other))" for k' t'
      using rows1 other by blast
    have "(k', t') \<in> set (auth_rows d2 (sha other)) \<longleftrightarrow> (k', t') \<in> set (auth_rows d (sha other))" for k' t'
      using old(2) 1 unfolding rows2 by blast
    with 1 show ?thesis
      by (simp only: authenticate_Inr_iff [OF wf1] authenticate_Inr_iff [OF wf2] authenticate_Inr_iff [OF assms(1)]
          hash_api_key_def)
  qed
  then show ?thesis using durable_tables.created_key_authenticates [OF db assms(2,3)] 2 x plain by simp
qed

theorem api_key_lifecycle_witness:
  "\<exists>out d1 x d2. create_api_key declared_constraints (\<lambda>_. True) id ''z'' ''k3'' 5 ''1'' demo_db = (Inr out, d1) \<and>
     revoke_api_key declared_constraints (\<lambda>_. True) ''k3'' d1 = (x, d2) \<and>
     authenticate_token id d1 ''relay_z'' = Inr \<lparr>ac_tenant_id = ''1'', ac_api_key_id = ''k3''\<rparr> \<and>
     authenticate_token id d2 ''relay_z'' = Inl (AuthenticationError ''invalid or revoked API key'')"
proof -
  let ?c = "create_api_key declared_constraints (\<lambda>_. True) id ''z'' ''k3'' 5 ''1'' demo_db"
  obtain y d1 where c: "?c = (y, d1)" by fastforce
  moreover have "isl (fst ?c) = False" by code_simp
  ultimately obtain out where out: "?c = (Inr out, d1)" by (cases y) auto
  then have key: "ko_api_key out = Some ''relay_z''" by (auto simp: create_api_key_Inr)
  obtain x d2 where r: "revoke_api_key declared_constraints (\<lambda>_. True) ''k3'' d1 = (x, d2)" by fastforce
  have "\<forall>t \<in> set (db_tenants demo_db). tr_id t = ''1'' \<longrightarrow> tr_status t = ''active''" by (simp add: demo_db_def)
  from api_key_lifecycle [OF demo_db_wf out this r TrueI enforces_declared] out r key show ?thesis by auto
qed

end
