(* ===== verification/Connections.thy ===== *)
theory Connections
  imports Config
begin

text \<open>
  \<open>apps/gateway/connections/manager.py\<close>, class \<open>Connection\<close>: the bounded outbound queue, the
  in-flight window released by cumulative acknowledgements, and the sender task that drains the
  queue to the socket.  \<open>enqueue\<close> and \<open>on_ack\<close> are the methods; \<open>sender_step\<close> is \<open>run_sender\<close> (with
  \<open>_wait_for_window\<close> inlined) cut at its awaits, with the program counter \<open>sender_pc\<close>.  \<open>conn_step\<close>
  interleaves the sender with every other task that touches the connection; \<open>sys_sent\<close> (what
  \<open>send_text\<close> was handed and accepted) and \<open>sys_accepted\<close> (what \<open>enqueue\<close> put into the queue) are
  histories, not fields of the code.
\<close>

section \<open>Data\<close>

datatype ConnectionState = HANDSHAKING | ACTIVE | DRAINING | DEAD

datatype Priority = HIGH | NORMAL | LOW

record queued_message =
  qm_payload :: string
  qm_size_bytes :: int
  qm_priority :: Priority
  qm_channel :: "string option"
  qm_sequence :: "int option"

record connection =
  connection_id :: string
  session_id :: string
  tenant_id :: string
  conn_state :: ConnectionState
  created_at :: time
  last_pong_at :: time
  subscriptions :: "string list"
  user_id :: "string option"
  queue :: "queued_message list"
  queue_bytes :: int
  inflight :: "(string \<times> int) list"
  window_event :: bool
  messages_dropped :: int

text \<open>The dataclass constructor with \<open>__post_init__\<close>, for the arguments the handler passes.\<close>

definition new_connection :: "string \<Rightarrow> string \<Rightarrow> string \<Rightarrow> ConnectionState \<Rightarrow> time \<Rightarrow> connection" where
  "new_connection cid sid tid st now =
     \<lparr> connection_id = cid, session_id = sid, tenant_id = tid, conn_state = st,
       created_at = now, last_pong_at = now, subscriptions = [], user_id = None,
       queue = [], queue_bytes = 0, inflight = [], window_event = True, messages_dropped = 0 \<rparr>"

lemma new_connection_simps [simp]:
  "connection_id (new_connection cid sid tid st now) = cid"
  "session_id (new_connection cid sid tid st now) = sid"
  "tenant_id (new_connection cid sid tid st now) = tid"
  "conn_state (new_connection cid sid tid st now) = st"
  "subscriptions (new_connection cid sid tid st now) = []"
  "queue (new_connection cid sid tid st now) = []"
  "inflight (new_connection cid sid tid st now) = []"
  "user_id (new_connection cid sid tid st now) = None"
  by (simp_all add: new_connection_def)

section \<open>Operations\<close>

definition queue_depth :: "connection \<Rightarrow> int" where
  "queue_depth c = int (length (queue c))"

definition inflight_count :: "connection \<Rightarrow> int" where
  "inflight_count c = int (length (inflight c))"

definition high_watermark_reached :: "settings \<Rightarrow> connection \<Rightarrow> bool" where
  "high_watermark_reached cfg c =
     (of_int (connection_queue_max_messages cfg) * connection_queue_high_watermark_ratio cfg
        \<le> rat_of_int (queue_depth c))"

definition over_limit :: "settings \<Rightarrow> string \<Rightarrow> connection \<Rightarrow> bool" where
  "over_limit cfg payload c =
     (queue_depth c \<ge> connection_queue_max_messages cfg \<or>
      queue_bytes c + int (utf8_size payload) > connection_queue_max_bytes cfg)"

definition enqueue ::
  "settings \<Rightarrow> string \<Rightarrow> Priority \<Rightarrow> string option \<Rightarrow> int option \<Rightarrow> (connection, unit) io" where
  "enqueue cfg payload priority channel sequence c =
     (let size = int (utf8_size payload) in
      if over_limit cfg payload c \<and> priority = LOW then
        (Inr (), c\<lparr>messages_dropped := messages_dropped c + 1\<rparr>)
      else if over_limit cfg payload c \<and> priority \<noteq> HIGH then
        (Inl (SlowConsumerError (connection_id c)), c)
      else
        (Inr (), c\<lparr>queue_bytes := queue_bytes c + size,
                   queue := queue c @
                     [\<lparr>qm_payload = payload, qm_size_bytes = size, qm_priority = priority,
                       qm_channel = channel, qm_sequence = sequence\<rparr>]\<rparr>))"

definition on_ack :: "settings \<Rightarrow> string \<Rightarrow> int \<Rightarrow> connection \<Rightarrow> int \<times> connection" where
  "on_ack cfg channel sequence c =
     (let rest = filter (\<lambda>(ch, seq). \<not> (ch = channel \<and> seq \<le> sequence)) (inflight c);
          c1 = c\<lparr>inflight := rest\<rparr>;
          released = int (length (inflight c)) - int (length rest)
      in (released,
          if int (length rest) < max_inflight_messages cfg then c1\<lparr>window_event := True\<rparr> else c1))"

section \<open>The sender task\<close>

text \<open>
  Where the task is suspended: before the test of the outer \<open>while\<close>, in \<open>queue.get()\<close>, at the head
  of the \<open>_wait_for_window\<close> loop with an item in hand, in \<open>_window_event.wait()\<close>, in \<open>send_text\<close>,
  or finished.
\<close>

datatype sender_pc =
    AtLoop
  | Getting
  | AtWindow queued_message
  | Blocked queued_message
  | Sending queued_message
  | Stopped

definition running_state :: "ConnectionState \<Rightarrow> bool" where
  "running_state s = (s \<in> {ACTIVE, DRAINING})"

text \<open>
  One step of the task: \<open>None\<close> when it is suspended, otherwise the connection, the next program
  counter and the item \<open>send_text\<close> took, if any.  \<open>ok\<close> is the outcome of \<open>send_text\<close>: it returns or
  it raises.
\<close>

fun sender_step ::
  "settings \<Rightarrow> bool \<Rightarrow> connection \<Rightarrow> sender_pc \<Rightarrow>
     (connection \<times> sender_pc \<times> queued_message option) option" where
  "sender_step cfg ok c AtLoop =
     Some (c, if running_state (conn_state c) then Getting else Stopped, None)"
| "sender_step cfg ok c Getting =
     (case queue c of
        [] \<Rightarrow> None
      | m # q \<Rightarrow>
          let c1 = c\<lparr>queue := q, queue_bytes := queue_bytes c - qm_size_bytes m\<rparr>
          in Some (c1, if qm_priority m = NORMAL then AtWindow m else Sending m, None))"
| "sender_step cfg ok c (AtWindow m) =
     (if int (length (inflight c)) \<ge> max_inflight_messages cfg then
        Some (c\<lparr>window_event := False\<rparr>, Blocked m, None)
      else if \<not> running_state (conn_state c) then Some (c, Stopped, None)
      else
        (case (qm_channel m, qm_sequence m) of
           (Some ch, Some seq) \<Rightarrow> Some (c\<lparr>inflight := inflight c @ [(ch, seq)]\<rparr>, Sending m, None)
         | _ \<Rightarrow> Some (c, Sending m, None)))"
| "sender_step cfg ok c (Blocked m) = (if window_event c then Some (c, AtWindow m, None) else None)"
| "sender_step cfg ok c (Sending m) =
     (if ok then Some (c, AtLoop, Some m) else Some (c\<lparr>conn_state := DEAD\<rparr>, Stopped, None))"
| "sender_step cfg ok c Stopped = None"

text \<open>The task run alone, with a socket that accepts every write, until it is suspended.\<close>

fun sender_run ::
  "settings \<Rightarrow> nat \<Rightarrow> connection \<Rightarrow> sender_pc \<Rightarrow> queued_message list \<times> connection \<times> sender_pc" where
  "sender_run cfg 0 c pc = ([], c, pc)"
| "sender_run cfg (Suc n) c pc =
     (case sender_step cfg True c pc of
        None \<Rightarrow> ([], c, pc)
      | Some (c', pc', out) \<Rightarrow>
          let (ms, r) = sender_run cfg n c' pc'
          in ((case out of None \<Rightarrow> ms | Some m \<Rightarrow> m # ms), r))"

section \<open>The connection as a concurrent system\<close>

record conn_sys =
  sys_conn :: connection
  sys_pc :: sender_pc
  sys_sent :: "queued_message list"
  sys_accepted :: "queued_message list"

definition conn_init :: "conn_sys \<Rightarrow> bool" where
  "conn_init s =
     (\<exists>cid sid tid now.
        s = \<lparr>sys_conn = new_connection cid sid tid ACTIVE now, sys_pc = AtLoop,
             sys_sent = [], sys_accepted = []\<rparr>)"

inductive conn_step :: "settings \<Rightarrow> conn_sys \<Rightarrow> conn_sys \<Rightarrow> bool" for cfg :: settings where
  enqueue_step: "enqueue cfg p prio ch sq (sys_conn s) = (x, c) \<Longrightarrow>
    conn_step cfg s
      (s\<lparr>sys_conn := c,
         sys_accepted := sys_accepted s @ drop (length (queue (sys_conn s))) (queue c)\<rparr>)"
| ack_step: "conn_step cfg s (s\<lparr>sys_conn := snd (on_ack cfg ch n (sys_conn s))\<rparr>)"
| dead_step: "conn_step cfg s (s\<lparr>sys_conn := (sys_conn s)\<lparr>conn_state := DEAD\<rparr>\<rparr>)"
| send_step: "sender_step cfg ok (sys_conn s) (sys_pc s) = Some (c, pc, out) \<Longrightarrow>
    conn_step cfg s
      (s\<lparr>sys_conn := c, sys_pc := pc,
         sys_sent := sys_sent s @ (case out of None \<Rightarrow> [] | Some m \<Rightarrow> [m])\<rparr>)"
| cancel_step: "conn_step cfg s (s\<lparr>sys_pc := Stopped\<rparr>)"

inductive_cases conn_stepE: "conn_step cfg s t"

text \<open>The item the task holds: taken from the queue, not yet accepted by the socket.\<close>

fun held :: "sender_pc \<Rightarrow> queued_message list" where
  "held (AtWindow m) = [m]"
| "held (Blocked m) = [m]"
| "held (Sending m) = [m]"
| "held _ = []"

definition tracked :: "queued_message \<Rightarrow> (string \<times> int) list" where
  "tracked m =
     (case (qm_priority m, qm_channel m, qm_sequence m) of
        (NORMAL, Some ch, Some seq) \<Rightarrow> [(ch, seq)] | _ \<Rightarrow> [])"

definition nonhigh :: "queued_message list \<Rightarrow> queued_message list" where
  "nonhigh ms = filter (\<lambda>m. qm_priority m \<noteq> HIGH) ms"

definition bytes :: "queued_message list \<Rightarrow> int" where
  "bytes ms = sum_list (map qm_size_bytes ms)"

section \<open>Invariants of the system\<close>

text \<open>The byte counter is exact, and the droppable part of the queue respects both bounds.\<close>

definition queue_inv :: "settings \<Rightarrow> conn_sys \<Rightarrow> bool" where
  "queue_inv cfg s =
     (let c = sys_conn s in
      queue_bytes c = bytes (queue c) \<and>
      (\<forall>m \<in> set (queue c). 0 \<le> qm_size_bytes m) \<and>
      int (length (nonhigh (queue c))) \<le> max 0 (connection_queue_max_messages cfg) \<and>
      bytes (nonhigh (queue c)) \<le> max 0 (connection_queue_max_bytes cfg))"

text \<open>Nothing is reordered, duplicated or invented; an item is lost only when the task stops
  while it holds it.\<close>

definition fifo_inv :: "conn_sys \<Rightarrow> bool" where
  "fifo_inv s =
     (\<exists>lost. sys_sent s @ held (sys_pc s) @ lost @ queue (sys_conn s) = sys_accepted s \<and>
        (sys_pc s \<noteq> Stopped \<longrightarrow> lost = []))"

text \<open>The window is never exceeded, holds accepted messages only, and a task suspended on the
  cleared event is there because the window is full.\<close>

definition window_inv :: "settings \<Rightarrow> conn_sys \<Rightarrow> bool" where
  "window_inv cfg s =
     (let c = sys_conn s in
      int (length (inflight c)) \<le> max 0 (max_inflight_messages cfg) \<and>
      set (inflight c) \<subseteq> set (concat (map tracked (sys_accepted s))) \<and>
      (\<forall>m. sys_pc s = AtWindow m \<or> sys_pc s = Blocked m \<longrightarrow> qm_priority m = NORMAL) \<and>
      (\<forall>m. sys_pc s = Blocked m \<longrightarrow> \<not> window_event c \<longrightarrow>
         max_inflight_messages cfg \<le> int (length (inflight c))))"

definition conn_inv :: "settings \<Rightarrow> conn_sys \<Rightarrow> bool" where
  "conn_inv cfg s = (queue_inv cfg s \<and> fifo_inv s \<and> window_inv cfg s)"

subsection \<open>Lists of messages\<close>

lemma bytes_simps [simp]:
  "bytes [] = 0" "bytes (m # ms) = qm_size_bytes m + bytes ms" "bytes (ms @ ns) = bytes ms + bytes ns"
  by (simp_all add: bytes_def)

lemma nonhigh_simps [simp]:
  "nonhigh [] = []" "nonhigh (ms @ ns) = nonhigh ms @ nonhigh ns"
  "nonhigh (m # ms) = (if qm_priority m \<noteq> HIGH then m # nonhigh ms else nonhigh ms)"
  by (simp_all add: nonhigh_def)

lemma nonhigh_bounds:
  assumes "\<forall>m \<in> set ms. 0 \<le> qm_size_bytes m"
  shows "bytes (nonhigh ms) \<le> bytes ms" and "length (nonhigh ms) \<le> length ms"
    and "0 \<le> bytes ms"
  using assms by (induction ms) (auto simp: nonhigh_def intro: le_SucI)

subsection \<open>The operations\<close>

lemma enqueue_low:
  "over_limit cfg p c \<Longrightarrow>
     enqueue cfg p LOW ch sq c = (Inr (), c\<lparr>messages_dropped := messages_dropped c + 1\<rparr>)"
  by (simp add: enqueue_def Let_def)

lemma enqueue_slow:
  "over_limit cfg p c \<Longrightarrow>
     enqueue cfg p NORMAL ch sq c = (Inl (SlowConsumerError (connection_id c)), c)"
  by (simp add: enqueue_def Let_def)

definition push_message ::
  "string \<Rightarrow> Priority \<Rightarrow> string option \<Rightarrow> int option \<Rightarrow> connection \<Rightarrow> connection" where
  "push_message p prio ch sq c =
     c\<lparr>queue_bytes := queue_bytes c + int (utf8_size p),
       queue := queue c @ [\<lparr>qm_payload = p, qm_size_bytes = int (utf8_size p),
         qm_priority = prio, qm_channel = ch, qm_sequence = sq\<rparr>]\<rparr>"

lemma enqueue_ok:
  "(over_limit cfg p c \<Longrightarrow> prio = HIGH) \<Longrightarrow>
     enqueue cfg p prio ch sq c = (Inr (), push_message p prio ch sq c)"
  by (auto simp: enqueue_def push_message_def Let_def)

lemma enqueue_cases:
  assumes e: "enqueue cfg p prio ch sq c = (x, c')"
  obtains (drop) "over_limit cfg p c" "prio = LOW" "x = Inr ()"
      "c' = c\<lparr>messages_dropped := messages_dropped c + 1\<rparr>"
    | (slow) "over_limit cfg p c" "prio = NORMAL" "x = Inl (SlowConsumerError (connection_id c))" "c' = c"
    | (queued) "over_limit cfg p c \<longrightarrow> prio = HIGH" "x = Inr ()" "c' = push_message p prio ch sq c"
proof -
  consider "over_limit cfg p c" "prio = LOW" | "over_limit cfg p c" "prio = NORMAL"
    | "over_limit cfg p c \<longrightarrow> prio = HIGH"
    by (cases prio) auto
  then show thesis
  proof cases
    case 1
    with e [unfolded 1(2) enqueue_low [OF 1(1)]] show thesis by (intro drop) auto
  next
    case 2
    with e [unfolded 2(2) enqueue_slow [OF 2(1)]] show thesis by (intro slow) auto
  next
    case 3
    then have "enqueue cfg p prio ch sq c = (Inr (), push_message p prio ch sq c)"
      by (intro enqueue_ok) simp
    with e 3 show thesis by (intro queued) simp_all
  qed
qed

lemma on_ack_snd:
  "snd (on_ack cfg ch n c) =
     c\<lparr>inflight := filter (\<lambda>(x, m). \<not> (x = ch \<and> m \<le> n)) (inflight c),
       window_event := (window_event c \<or>
         int (length (filter (\<lambda>(x, m). \<not> (x = ch \<and> m \<le> n)) (inflight c)))
           < max_inflight_messages cfg)\<rparr>"
  by (simp add: on_ack_def Let_def)

lemma on_ack_keeps [simp]:
  "queue (snd (on_ack cfg ch n c)) = queue c"
  "queue_bytes (snd (on_ack cfg ch n c)) = queue_bytes c"
  "conn_state (snd (on_ack cfg ch n c)) = conn_state c"
  "connection_id (snd (on_ack cfg ch n c)) = connection_id c"
  "subscriptions (snd (on_ack cfg ch n c)) = subscriptions c"
  by (simp_all add: on_ack_snd)

subsection \<open>Every step keeps the invariants\<close>

lemma queue_inv_enqueue:
  assumes "queue_inv cfg s" and "enqueue cfg p prio ch sq (sys_conn s) = (x, c)"
  shows "queue_inv cfg (s\<lparr>sys_conn := c, sys_accepted := a\<rparr>)"
  using assms(2)
proof (cases rule: enqueue_cases)
  case queued
  have nn: "\<forall>m \<in> set (queue (sys_conn s)). 0 \<le> qm_size_bytes m"
    using assms(1) by (simp add: queue_inv_def Let_def)
  from queued assms(1) nonhigh_bounds [OF nn] show ?thesis
    by (auto simp: queue_inv_def Let_def over_limit_def queue_depth_def push_message_def)
qed (use assms(1) in \<open>simp_all add: queue_inv_def Let_def\<close>)

lemma queue_inv_sender:
  assumes "queue_inv cfg s" and "sender_step cfg ok (sys_conn s) (sys_pc s) = Some (c, pc, out)"
  shows "queue_inv cfg (s\<lparr>sys_conn := c, sys_pc := pc, sys_sent := b\<rparr>)"
proof (cases "sys_pc s")
  case Getting
  with assms obtain m q where q: "queue (sys_conn s) = m # q"
    and c: "c = (sys_conn s)\<lparr>queue := q, queue_bytes := queue_bytes (sys_conn s) - qm_size_bytes m\<rparr>"
    by (auto simp: Let_def split: list.splits)
  have "0 \<le> qm_size_bytes m" using assms(1) q by (simp add: queue_inv_def Let_def)
  with assms(1) q c show ?thesis
    by (auto simp: queue_inv_def Let_def split: if_splits)
qed (use assms in \<open>auto simp: queue_inv_def Let_def split: if_splits option.splits\<close>)

lemma queue_inv_step: "queue_inv cfg s \<Longrightarrow> conn_step cfg s t \<Longrightarrow> queue_inv cfg t"
  by (erule conn_stepE)
    (simp_all add: queue_inv_enqueue queue_inv_sender, simp_all add: queue_inv_def Let_def)

lemma fifo_invI:
  "sys_sent s @ held (sys_pc s) @ lost @ queue (sys_conn s) = sys_accepted s \<Longrightarrow>
     (sys_pc s \<noteq> Stopped \<Longrightarrow> lost = []) \<Longrightarrow> fifo_inv s"
  by (auto simp: fifo_inv_def)

lemma fifo_inv_enqueue:
  assumes "fifo_inv s" and "enqueue cfg p prio ch sq (sys_conn s) = (x, c)"
  shows "fifo_inv (s\<lparr>sys_conn := c,
    sys_accepted := sys_accepted s @ drop (length (queue (sys_conn s))) (queue c)\<rparr>)"
proof -
  obtain lost where l: "sys_sent s @ held (sys_pc s) @ lost @ queue (sys_conn s) = sys_accepted s"
    "sys_pc s \<noteq> Stopped \<longrightarrow> lost = []"
    using assms(1) by (auto simp: fifo_inv_def)
  from assms(2) show ?thesis
    by (cases rule: enqueue_cases) (use l in \<open>auto simp: fifo_inv_def push_message_def simp flip: l(1)\<close>)
qed

lemma fifo_inv_sender:
  assumes "fifo_inv s" and "sender_step cfg ok (sys_conn s) (sys_pc s) = Some (c, pc, out)"
  shows "fifo_inv (s\<lparr>sys_conn := c, sys_pc := pc,
    sys_sent := sys_sent s @ (case out of None \<Rightarrow> [] | Some m \<Rightarrow> [m])\<rparr>)"
proof -
  obtain lost where l: "sys_sent s @ held (sys_pc s) @ lost @ queue (sys_conn s) = sys_accepted s"
    "sys_pc s \<noteq> Stopped \<longrightarrow> lost = []"
    using assms(1) by (auto simp: fifo_inv_def)
  show ?thesis
    by (rule fifo_invI [where lost = "if pc = Stopped then held (sys_pc s) @ lost else lost"])
      (use assms(2) l in \<open>cases "sys_pc s"; auto simp: Let_def split: if_splits option.splits list.splits\<close>)+
qed

lemma fifo_inv_cancel: "fifo_inv s \<Longrightarrow> fifo_inv (s\<lparr>sys_pc := Stopped\<rparr>)"
  by (auto simp: fifo_inv_def intro: exI [of _ "held (sys_pc s) @ l" for l])

lemma fifo_inv_step: "fifo_inv s \<Longrightarrow> conn_step cfg s t \<Longrightarrow> fifo_inv t"
  by (erule conn_stepE)
    (simp_all add: fifo_inv_enqueue fifo_inv_sender fifo_inv_cancel, simp_all add: fifo_inv_def)

lemma window_inv_enqueue:
  assumes "window_inv cfg s" and "enqueue cfg p prio ch sq (sys_conn s) = (x, c)"
  shows "window_inv cfg (s\<lparr>sys_conn := c, sys_accepted := sys_accepted s @ a\<rparr>)"
  using assms(2) by (cases rule: enqueue_cases) (use assms(1) in \<open>auto simp: window_inv_def push_message_def Let_def\<close>)

lemma window_inv_ack:
  assumes "window_inv cfg s"
  shows "window_inv cfg (s\<lparr>sys_conn := snd (on_ack cfg ch n (sys_conn s))\<rparr>)"
proof -
  let ?f = "filter (\<lambda>(x, m). \<not> (x = ch \<and> m \<le> n)) (inflight (sys_conn s))"
  have "length ?f \<le> length (inflight (sys_conn s))" by (rule length_filter_le)
  moreover have "set ?f \<subseteq> set (inflight (sys_conn s))" by (rule filter_is_subset)
  moreover have "int (length (inflight (sys_conn s))) \<le> max 0 (max_inflight_messages cfg)"
    "set (inflight (sys_conn s)) \<subseteq> set (concat (map tracked (sys_accepted s)))"
    using assms unfolding window_inv_def Let_def by simp_all
  ultimately have "int (length ?f) \<le> max 0 (max_inflight_messages cfg)"
    "set ?f \<subseteq> set (concat (map tracked (sys_accepted s)))"
    by (linarith, blast)
  with assms show ?thesis
    unfolding window_inv_def Let_def on_ack_snd by auto
qed

lemma window_inv_sender:
  assumes "window_inv cfg s" and "fifo_inv s"
    and "sender_step cfg ok (sys_conn s) (sys_pc s) = Some (c, pc, out)"
  shows "window_inv cfg (s\<lparr>sys_conn := c, sys_pc := pc, sys_sent := b\<rparr>)"
proof (cases "sys_pc s")
  case (AtWindow m)
  with assms(2) have "sys_sent s @ m # queue (sys_conn s) = sys_accepted s"
    by (auto simp: fifo_inv_def)
  then have m: "m \<in> set (sys_accepted s)" by (metis in_set_conv_decomp)
  have p: "qm_priority m = NORMAL" using assms(1) AtWindow by (simp add: window_inv_def Let_def)
  have "(ch, n) \<in> set (concat (map tracked (sys_accepted s)))"
    if "qm_channel m = Some ch" "qm_sequence m = Some n" for ch n
    using m p that by (auto simp: tracked_def intro!: bexI [of _ m])
  with assms(1,3) AtWindow show ?thesis
    by (auto simp: window_inv_def Let_def simp del: set_concat split: if_splits option.splits)
qed (use assms in \<open>auto simp: window_inv_def Let_def split: if_splits option.splits list.splits\<close>)

lemma window_inv_step:
  "window_inv cfg s \<Longrightarrow> fifo_inv s \<Longrightarrow> conn_step cfg s t \<Longrightarrow> window_inv cfg t"
  by (erule conn_stepE)
    (simp_all add: window_inv_enqueue window_inv_sender window_inv_ack,
     simp_all add: window_inv_def Let_def)

lemma conn_inv_init: "conn_init s \<Longrightarrow> conn_inv cfg s"
  by (auto simp: conn_init_def conn_inv_def queue_inv_def fifo_inv_def window_inv_def
      new_connection_def Let_def)

interpretation conn_system: invariant_system conn_init "conn_step cfg" "conn_inv cfg" for cfg
proof
  show "conn_init s \<Longrightarrow> conn_inv cfg s" for s by (rule conn_inv_init)
  show "conn_inv cfg s \<Longrightarrow> conn_step cfg s t \<Longrightarrow> conn_inv cfg t" for s t
    unfolding conn_inv_def using queue_inv_step fifo_inv_step window_inv_step by blast
qed

section \<open>Runs given as lists of events\<close>

text \<open>An executable scheduler for the system: every state it reaches is reachable.\<close>

datatype conn_event =
    EnqueueEv string Priority "string option" "int option"
  | AckEv string int
  | DeadEv
  | SendEv bool
  | CancelEv

fun conn_exec :: "settings \<Rightarrow> conn_sys \<Rightarrow> conn_event \<Rightarrow> conn_sys" where
  "conn_exec cfg s (EnqueueEv p prio ch sq) =
     (let c = snd (enqueue cfg p prio ch sq (sys_conn s))
      in s\<lparr>sys_conn := c,
           sys_accepted := sys_accepted s @ drop (length (queue (sys_conn s))) (queue c)\<rparr>)"
| "conn_exec cfg s (AckEv ch n) = s\<lparr>sys_conn := snd (on_ack cfg ch n (sys_conn s))\<rparr>"
| "conn_exec cfg s DeadEv = s\<lparr>sys_conn := (sys_conn s)\<lparr>conn_state := DEAD\<rparr>\<rparr>"
| "conn_exec cfg s (SendEv ok) =
     (case sender_step cfg ok (sys_conn s) (sys_pc s) of
        None \<Rightarrow> s
      | Some (c, pc, out) \<Rightarrow>
          s\<lparr>sys_conn := c, sys_pc := pc,
            sys_sent := sys_sent s @ (case out of None \<Rightarrow> [] | Some m \<Rightarrow> [m])\<rparr>)"
| "conn_exec cfg s CancelEv = s\<lparr>sys_pc := Stopped\<rparr>"

definition conn_start :: "string \<Rightarrow> string \<Rightarrow> string \<Rightarrow> time \<Rightarrow> conn_sys" where
  "conn_start cid sid tid now =
     \<lparr>sys_conn = new_connection cid sid tid ACTIVE now, sys_pc = AtLoop,
      sys_sent = [], sys_accepted = []\<rparr>"

lemma conn_start_reachable: "reachable conn_init (conn_step cfg) (conn_start cid sid tid now)"
  by (rule reach_init) (auto simp: conn_init_def conn_start_def)

lemma conn_exec_reachable:
  assumes "reachable conn_init (conn_step cfg) s"
  shows "reachable conn_init (conn_step cfg) (conn_exec cfg s e)"
proof (cases e)
  case (EnqueueEv p prio ch sq)
  have "conn_step cfg s (conn_exec cfg s e)"
    unfolding EnqueueEv conn_exec.simps Let_def by (rule enqueue_step) (rule prod.collapse [symmetric])
  with assms show ?thesis by (rule reach_step)
next
  case (SendEv ok)
  show ?thesis
  proof (cases "sender_step cfg ok (sys_conn s) (sys_pc s)")
    case (Some r)
    obtain c pc out where "r = (c, pc, out)" by (cases r)
    with Some SendEv have "conn_step cfg s (conn_exec cfg s e)" by (simp add: conn_step.send_step)
    with assms show ?thesis by (rule reach_step)
  qed (simp add: SendEv assms)
qed (use assms in \<open>auto intro: reach_step conn_step.intros\<close>)

lemma conn_execs_reachable:
  "reachable conn_init (conn_step cfg) s \<Longrightarrow> reachable conn_init (conn_step cfg) (foldl (conn_exec cfg) s es)"
  by (induction es arbitrary: s) (simp_all add: conn_exec_reachable)

lemmas conn_run_reachable = conn_execs_reachable [OF conn_start_reachable]

section \<open>The sender run to suspension\<close>

definition flow_controlled :: "queued_message \<Rightarrow> bool" where
  "flow_controlled m = (qm_priority m = NORMAL \<and> qm_channel m \<noteq> None \<and> qm_sequence m \<noteq> None)"

lemma sender_take:
  assumes "running_state (conn_state c)" and "queue c = m # q" and "qm_priority m = NORMAL"
  shows "sender_run cfg (Suc (Suc n)) c AtLoop =
    sender_run cfg n (c\<lparr>queue := q, queue_bytes := queue_bytes c - qm_size_bytes m\<rparr>) (AtWindow m)"
  using assms by (simp add: Let_def split: prod.split)

lemma sender_send:
  assumes "running_state (conn_state c)" and "flow_controlled m"
    and "int (length (inflight c)) < max_inflight_messages cfg"
  shows "sender_run cfg (Suc (Suc n)) c (AtWindow m) =
    (let (ms, r) = sender_run cfg n (c\<lparr>inflight := inflight c @ tracked m\<rparr>) AtLoop in (m # ms, r))"
  using assms by (auto simp: flow_controlled_def tracked_def Let_def split: prod.split)

lemma sender_block:
  assumes "max_inflight_messages cfg \<le> int (length (inflight c))"
  shows "sender_run cfg (Suc (Suc n)) c (AtWindow m) = ([], c\<lparr>window_event := False\<rparr>, Blocked m)"
  using assms by simp

lemma sender_idle:
  assumes "running_state (conn_state c)" and "queue c = []"
  shows "sender_run cfg (Suc (Suc n)) c AtLoop = ([], c, Getting)"
  using assms by simp

lemma sender_run_window:
  assumes "running_state (conn_state c)" and "\<forall>m \<in> set (queue c). flow_controlled m"
    and "int (length (inflight c)) \<le> max_inflight_messages cfg"
    and "4 * length (queue c) + 3 \<le> n"
    and "j = nat (max_inflight_messages cfg) - length (inflight c)"
  shows "\<exists>c'. sender_run cfg n c AtLoop =
           (take j (queue c), c', if length (queue c) \<le> j then Getting else Blocked (queue c ! j)) \<and>
         inflight c' = inflight c @ concat (map tracked (take j (queue c))) \<and>
         queue c' = drop (Suc j) (queue c) \<and> conn_state c' = conn_state c \<and>
         (j < length (queue c) \<longrightarrow> \<not> window_event c')"
  using assms
proof (induction "queue c" arbitrary: c n j)
  case Nil
  have "n = Suc (Suc (n - 2))" using Nil.prems(4) by simp
  then obtain k where "n = Suc (Suc k)" ..
  with Nil show ?case by (simp add: sender_idle)
next
  case (Cons m q)
  obtain k where n: "n = Suc (Suc (Suc (Suc k)))" and k: "4 * length q + 3 \<le> k"
    using Cons.prems(4) Cons.hyps(2) [symmetric] by (intro that [of "n - 4"]) auto
  let ?c1 = "c\<lparr>queue := q, queue_bytes := queue_bytes c - qm_size_bytes m\<rparr>"
  have m: "flow_controlled m" using Cons.prems(2) Cons.hyps(2) [symmetric] by simp
  have take1: "sender_run cfg n c AtLoop = sender_run cfg (Suc (Suc k)) ?c1 (AtWindow m)"
    unfolding n using Cons.prems(1) Cons.hyps(2) m
    by (intro sender_take) (auto simp: flow_controlled_def)
  show ?case
  proof (cases j)
    case 0
    with Cons.prems(3,5) have "max_inflight_messages cfg \<le> int (length (inflight ?c1))" by simp
    then show ?thesis
      using 0 Cons.hyps(2) [symmetric] unfolding take1 by (simp only: sender_block) simp
  next
    case (Suc i)
    let ?c2 = "?c1\<lparr>inflight := inflight c @ tracked m\<rparr>"
    have t: "length (tracked m) = 1"
      using m by (auto simp: flow_controlled_def tracked_def)
    have lt: "int (length (inflight ?c1)) < max_inflight_messages cfg"
      using Suc Cons.prems(3,5) by simp
    have "\<exists>c'. sender_run cfg k ?c2 AtLoop =
        (take i (queue ?c2), c', if length (queue ?c2) \<le> i then Getting else Blocked (queue ?c2 ! i)) \<and>
      inflight c' = inflight ?c2 @ concat (map tracked (take i (queue ?c2))) \<and>
      queue c' = drop (Suc i) (queue ?c2) \<and> conn_state c' = conn_state ?c2 \<and>
      (i < length (queue ?c2) \<longrightarrow> \<not> window_event c')"
      using Cons.prems Cons.hyps(2) [symmetric] Suc k t lt by (intro Cons.hyps(1)) auto
    then obtain c' where c': "sender_run cfg k ?c2 AtLoop =
        (take i q, c', if length q \<le> i then Getting else Blocked (q ! i))"
      "inflight c' = inflight c @ tracked m @ concat (map tracked (take i q))"
      "queue c' = drop (Suc i) q" "conn_state c' = conn_state c"
      "i < length q \<longrightarrow> \<not> window_event c'"
      by auto
    have "running_state (conn_state ?c1)" using Cons.prems(1) by simp
    from sender_send [OF this m lt, of k] c'(1)
    have "sender_run cfg n c AtLoop =
        (m # take i q, c', if length q \<le> i then Getting else Blocked (q ! i))"
      unfolding take1 by simp
    with c'(2-5) show ?thesis using Suc Cons.hyps(2) [symmetric] by simp
  qed
qed

lemma sender_run_resume:
  assumes "running_state (conn_state c)" and "window_event c" and "flow_controlled m"
    and "\<forall>m \<in> set (queue c). flow_controlled m"
    and "int (length (inflight c)) \<le> max_inflight_messages cfg"
    and "4 * length (queue c) + 6 \<le> n"
  shows "fst (sender_run cfg n c (Blocked m)) =
    take (nat (max_inflight_messages cfg) - length (inflight c)) (m # queue c)"
proof -
  let ?c = "c\<lparr>queue := m # queue c, queue_bytes := queue_bytes c + qm_size_bytes m\<rparr>"
  obtain k where n: "n = Suc k" using assms(6) by (cases n) auto
  have "sender_run cfg n c (Blocked m) = sender_run cfg k c (AtWindow m)"
    using assms(2) by (simp add: n Let_def split: prod.split)
  moreover have "sender_run cfg (Suc (Suc k)) ?c AtLoop = sender_run cfg k c (AtWindow m)"
    using sender_take [of ?c m "queue c" cfg k] assms(1,3) by (simp add: flow_controlled_def)
  moreover have "\<exists>c'. sender_run cfg (Suc (Suc k)) ?c AtLoop =
      (take (nat (max_inflight_messages cfg) - length (inflight ?c)) (queue ?c), c',
       if length (queue ?c) \<le> nat (max_inflight_messages cfg) - length (inflight ?c) then Getting
       else Blocked (queue ?c ! (nat (max_inflight_messages cfg) - length (inflight ?c)))) \<and>
    inflight c' = inflight ?c @ concat (map tracked
      (take (nat (max_inflight_messages cfg) - length (inflight ?c)) (queue ?c))) \<and>
    queue c' = drop (Suc (nat (max_inflight_messages cfg) - length (inflight ?c))) (queue ?c) \<and>
    conn_state c' = conn_state ?c \<and>
    (nat (max_inflight_messages cfg) - length (inflight ?c) < length (queue ?c) \<longrightarrow> \<not> window_event c')"
    using assms n by (intro sender_run_window) auto
  ultimately show ?thesis by auto
qed

section \<open>A full window\<close>

fun is_ack :: "conn_event \<Rightarrow> bool" where
  "is_ack (AckEv _ _) = True"
| "is_ack _ = False"

text \<open>\<open>xs\<close> is what goes before the first waiting NORMAL message: the item being written, if any, and frames
  of other priorities.\<close>

definition only_control :: "sender_pc \<Rightarrow> queued_message list \<Rightarrow> bool" where
  "only_control pc xs =
     (case pc of
        Sending _ \<Rightarrow> xs \<noteq> [] \<and> (\<forall>x \<in> set (tl xs). qm_priority x \<noteq> NORMAL)
      | _ \<Rightarrow> \<forall>x \<in> set xs. qm_priority x \<noteq> NORMAL)"

definition saturated ::
  "settings \<Rightarrow> conn_sys \<Rightarrow> queued_message list \<Rightarrow> queued_message \<Rightarrow> queued_message list \<Rightarrow> bool" where
  "saturated cfg s xs m rest =
     (max_inflight_messages cfg \<le> inflight_count (sys_conn s) \<and> qm_priority m = NORMAL \<and>
      held (sys_pc s) @ queue (sys_conn s) = xs @ m # rest \<and> only_control (sys_pc s) xs)"

text \<open>An event that is no ACK: the window stays full, and what was sent was ahead of the NORMAL message.\<close>

definition held_up ::
  "settings \<Rightarrow> conn_sys \<Rightarrow> queued_message list \<Rightarrow> queued_message \<Rightarrow> queued_message list \<Rightarrow> conn_sys \<Rightarrow> bool" where
  "held_up cfg s xs m rest t =
     (\<exists>us vs new. xs = us @ vs \<and> sys_sent t = sys_sent s @ us \<and> sys_accepted t = sys_accepted s @ new \<and>
        (sys_pc t \<noteq> Stopped \<longrightarrow> saturated cfg t vs m (rest @ new)))"

lemma held_up_enqueue:
  assumes "saturated cfg s xs m rest"
  shows "held_up cfg s xs m rest (conn_exec cfg s (EnqueueEv p prio ch sq))"
proof -
  obtain x c where e: "enqueue cfg p prio ch sq (sys_conn s) = (x, c)" by fastforce
  then have "\<exists>new. queue c = queue (sys_conn s) @ new \<and> inflight c = inflight (sys_conn s)"
    by (cases rule: enqueue_cases) (auto simp: push_message_def)
  then obtain new where "queue c = queue (sys_conn s) @ new" "inflight c = inflight (sys_conn s)" by blast
  with assms e show ?thesis
    unfolding held_up_def saturated_def
    by (intro exI [of _ "[]"] exI [of _ xs] exI [of _ new]) (simp add: inflight_count_def)
qed

lemma held_up_send:
  assumes "saturated cfg s xs m rest" and "window_inv cfg s"
  shows "held_up cfg s xs m rest (conn_exec cfg s (SendEv ok))"
proof (cases "sender_step cfg ok (sys_conn s) (sys_pc s)")
  case None
  with assms(1) show ?thesis
    unfolding held_up_def by (intro exI [of _ "[]"] exI [of _ xs] exI [of _ "[]"]) simp
next
  case (Some r)
  obtain c pc out where r: "r = (c, pc, out)" by (cases r)
  note step = Some [unfolded r]
  have t: "conn_exec cfg s (SendEv ok) =
      s\<lparr>sys_conn := c, sys_pc := pc, sys_sent := sys_sent s @ (case out of None \<Rightarrow> [] | Some m \<Rightarrow> [m])\<rparr>"
    using step by simp
  show ?thesis
  proof (cases "sys_pc s")
    case (Sending y)
    with assms(1) obtain vs where vs: "xs = y # vs" "\<forall>x \<in> set vs. qm_priority x \<noteq> NORMAL" "queue (sys_conn s) = vs @ m # rest"
      by (cases xs) (auto simp: saturated_def only_control_def)
    show ?thesis
    proof (cases ok)
      case True
      with assms(1) Sending vs step show ?thesis
        unfolding held_up_def t by (intro exI [of _ "[y]"] exI [of _ vs] exI [of _ "[]"])
          (auto simp: saturated_def only_control_def)
    next
      case False
      with Sending step show ?thesis
        unfolding held_up_def t by (intro exI [of _ "[]"] exI [of _ xs] exI [of _ "[]"]) auto
    qed
  next
    case (AtWindow y)
    have "qm_priority y = NORMAL" using assms(2) AtWindow by (simp add: window_inv_def Let_def)
    then have "xs = []" using assms(1) AtWindow by (cases xs) (auto simp: saturated_def only_control_def)
    with assms(1) AtWindow step show ?thesis
      unfolding held_up_def t by (intro exI [of _ "[]"] exI [of _ "[]"] exI [of _ "[]"])
        (auto simp: saturated_def only_control_def inflight_count_def split: if_splits)
  next
    case Getting
    show ?thesis
    proof (cases xs)
      case Nil
      with assms(1) Getting step show ?thesis
        unfolding held_up_def t by (intro exI [of _ "[]"] exI [of _ "[]"] exI [of _ "[]"])
          (auto simp: saturated_def only_control_def inflight_count_def Let_def)
    next
      case (Cons y ys)
      with assms(1) Getting step show ?thesis
        unfolding held_up_def t by (intro exI [of _ "[]"] exI [of _ xs] exI [of _ "[]"])
          (auto simp: saturated_def only_control_def inflight_count_def Let_def)
    qed
  qed (use assms(1) step in \<open>auto simp: held_up_def t saturated_def only_control_def split: if_splits\<close>)
qed

lemma held_up_event:
  assumes "saturated cfg s xs m rest" and "window_inv cfg s" and "\<not> is_ack e"
  shows "held_up cfg s xs m rest (conn_exec cfg s e)"
proof (cases e)
  case DeadEv
  with assms(1) show ?thesis
    unfolding held_up_def by (intro exI [of _ "[]"] exI [of _ xs] exI [of _ "[]"]) (simp add: saturated_def inflight_count_def)
next
  case CancelEv
  then show ?thesis unfolding held_up_def by (intro exI [of _ "[]"] exI [of _ xs] exI [of _ "[]"]) simp
qed (use assms held_up_enqueue held_up_send in auto)

lemma stopped_exec:
  assumes "sys_pc s = Stopped"
  shows "sys_pc (conn_exec cfg s e) = Stopped \<and> sys_sent (conn_exec cfg s e) = sys_sent s \<and>
    (\<exists>new. sys_accepted (conn_exec cfg s e) = sys_accepted s @ new)"
  using assms by (cases e) (auto simp: Let_def)

lemma held_up_run:
  assumes "reachable conn_init (conn_step cfg) s" and "sys_pc s \<noteq> Stopped \<longrightarrow> saturated cfg s xs m rest"
    and "\<forall>e \<in> set es. \<not> is_ack e"
  shows "held_up cfg s xs m rest (foldl (conn_exec cfg) s es)"
  using assms
proof (induction es arbitrary: s xs rest)
  case Nil
  then show ?case unfolding held_up_def by (intro exI [of _ "[]"] exI [of _ xs] exI [of _ "[]"]) simp
next
  case (Cons e es)
  let ?s = "conn_exec cfg s e"
  have r: "reachable conn_init (conn_step cfg) ?s" using Cons.prems(1) by (rule conn_exec_reachable)
  have "held_up cfg s xs m rest ?s"
  proof (cases "sys_pc s = Stopped")
    case True
    with stopped_exec [OF this, of cfg e] show ?thesis unfolding held_up_def by auto
  next
    case False
    have "window_inv cfg s" using conn_system.reachable_inv [OF Cons.prems(1)] by (simp add: conn_inv_def)
    with Cons.prems(2,3) False show ?thesis by (intro held_up_event) auto
  qed
  then obtain us vs new where s: "xs = us @ vs" "sys_sent ?s = sys_sent s @ us" "sys_accepted ?s = sys_accepted s @ new"
    "sys_pc ?s \<noteq> Stopped \<longrightarrow> saturated cfg ?s vs m (rest @ new)" unfolding held_up_def by blast
  from Cons.IH [OF r s(4)] Cons.prems(3) obtain us' vs' new' where "vs = us' @ vs'"
    "sys_sent (foldl (conn_exec cfg) ?s es) = sys_sent ?s @ us'" "sys_accepted (foldl (conn_exec cfg) ?s es) = sys_accepted ?s @ new'"
    "sys_pc (foldl (conn_exec cfg) ?s es) \<noteq> Stopped \<longrightarrow> saturated cfg (foldl (conn_exec cfg) ?s es) vs' m ((rest @ new) @ new')"
    unfolding held_up_def by auto
  with s show ?case
    unfolding held_up_def by (intro exI [of _ "us @ us'"] exI [of _ vs'] exI [of _ "new @ new'"]) simp
qed

section \<open>Properties\<close>

text \<open>C4: Per-connection ordering and no silent loss.  In every reachable interleaving of the sender
  task with enqueues, acknowledgements, failures and cancellation, what the socket was given is a
  prefix of what \<open>enqueue\<close> accepted, in the same order; while the task has not stopped, the rest is
  exactly the item it holds followed by the queue.\<close>

theorem sender_delivers_in_order:
  assumes "reachable conn_init (conn_step cfg) s"
  shows "prefix (sys_sent s) (sys_accepted s) \<and>
    (sys_pc s \<noteq> Stopped \<longrightarrow>
       sys_accepted s = sys_sent s @ held (sys_pc s) @ queue (sys_conn s))"
proof -
  have "fifo_inv s" using conn_system.reachable_inv [OF assms] by (simp add: conn_inv_def)
  then obtain lost where "sys_sent s @ held (sys_pc s) @ lost @ queue (sys_conn s) = sys_accepted s"
    "sys_pc s \<noteq> Stopped \<longrightarrow> lost = []"
    unfolding fifo_inv_def by blast
  then show ?thesis by (metis append_Nil prefixI)
qed

definition demo_run :: "conn_event list" where
  "demo_run =
     [EnqueueEv ''m1'' NORMAL (Some ''c'') (Some 1), EnqueueEv ''m2'' NORMAL (Some ''c'') (Some 2),
      EnqueueEv ''ping'' HIGH None None,
      SendEv True, SendEv True, SendEv True, SendEv True, SendEv True, SendEv True, SendEv True]"

text \<open>A window of one message: after one delivery the second message is held back.\<close>

definition demo_cfg :: settings where
  "demo_cfg = default_settings\<lparr>max_inflight_messages := 1, connection_queue_max_messages := 5\<rparr>"

definition demo_state :: conn_sys where
  "demo_state = foldl (conn_exec demo_cfg) (conn_start ''k'' ''s'' ''t'' 0) demo_run"

lemma demo_cfg_simps [simp]:
  "max_inflight_messages demo_cfg = 1" "connection_queue_max_messages demo_cfg = 5"
  "connection_queue_max_bytes demo_cfg = 2000000"
  by (simp_all add: demo_cfg_def)

lemma demo_state_reachable: "reachable conn_init (conn_step demo_cfg) demo_state"
  unfolding demo_state_def by (rule conn_run_reachable)

lemmas demo_eval = demo_state_def demo_run_def conn_start_def new_connection_def enqueue_def
  over_limit_def queue_depth_def utf8_size_def running_state_def Let_def

lemma demo_state_simps [simp]:
  "map qm_payload (sys_sent demo_state) = [''m1'']"
  "map qm_payload (sys_accepted demo_state) = [''m1'', ''m2'', ''ping'']"
  "map qm_payload (queue (sys_conn demo_state)) = [''ping'']"
  "inflight (sys_conn demo_state) = [(''c'', 1)]"
  "\<not> window_event (sys_conn demo_state)"
  "conn_state (sys_conn demo_state) = ACTIVE"
  by (simp_all add: demo_eval)

definition demo_m2 :: queued_message where
  "demo_m2 = \<lparr>qm_payload = ''m2'', qm_size_bytes = 2, qm_priority = NORMAL,
     qm_channel = Some ''c'', qm_sequence = Some 2\<rparr>"

lemma demo_state_pc: "sys_pc demo_state = Blocked demo_m2"
  by (simp add: demo_eval demo_m2_def)

theorem sender_delivers_in_order_witness:
  "sys_pc demo_state \<noteq> Stopped \<and>
   sys_accepted demo_state = sys_sent demo_state @ held (sys_pc demo_state) @ queue (sys_conn demo_state)"
  using sender_delivers_in_order [OF demo_state_reachable] by (simp add: demo_state_pc)

text \<open>C11: Flow control.  In every reachable state at most \<open>max_inflight_messages\<close> delivered messages
  are unacknowledged (none when the setting is negative), and each entry of the window is the
  channel and sequence of a flow-controlled message that \<open>enqueue\<close> accepted.\<close>

theorem window_never_exceeded:
  assumes "reachable conn_init (conn_step cfg) s"
  shows "inflight_count (sys_conn s) \<le> max 0 (max_inflight_messages cfg) \<and>
    set (inflight (sys_conn s)) \<subseteq> set (concat (map tracked (sys_accepted s)))"
  using conn_system.reachable_inv [OF assms]
  by (simp add: conn_inv_def window_inv_def inflight_count_def Let_def)

theorem window_never_exceeded_witness:
  "inflight_count (sys_conn demo_state) = 1 \<and> inflight_count (sys_conn demo_state) \<le> max 0 1"
  using window_never_exceeded [OF demo_state_reachable] by (simp add: inflight_count_def)

text \<open>C30: No lost wake-up.  Whenever the window has room, the sender is not suspended on the window
  event: from the wait it goes back to the window test, and from there, on a live connection, it
  goes on to send the item it holds.\<close>

theorem open_window_never_blocks:
  assumes "reachable conn_init (conn_step cfg) s" and "sys_pc s = Blocked m"
    and "inflight_count (sys_conn s) < max_inflight_messages cfg"
  shows "sender_step cfg ok (sys_conn s) (sys_pc s) = Some (sys_conn s, AtWindow m, None) \<and>
    (running_state (conn_state (sys_conn s)) \<longrightarrow>
       (\<exists>c. sender_step cfg ok (sys_conn s) (AtWindow m) = Some (c, Sending m, None)))"
proof -
  have "window_event (sys_conn s)"
    using conn_system.reachable_inv [OF assms(1)] assms(2,3)
    by (auto simp: conn_inv_def window_inv_def inflight_count_def Let_def)
  with assms(2,3) show ?thesis
    by (auto simp: inflight_count_def split: option.split)
qed

lemma demo_acked_reachable:
  "reachable conn_init (conn_step demo_cfg) (conn_exec demo_cfg demo_state (AckEv ''c'' 1))"
  using demo_state_reachable by (rule conn_exec_reachable)

theorem open_window_never_blocks_witness:
  "sender_step demo_cfg True (snd (on_ack demo_cfg ''c'' 1 (sys_conn demo_state))) (Blocked demo_m2)
     = Some (snd (on_ack demo_cfg ''c'' 1 (sys_conn demo_state)), AtWindow demo_m2, None)"
proof -
  let ?s = "conn_exec demo_cfg demo_state (AckEv ''c'' 1)"
  have pc: "sys_pc ?s = Blocked demo_m2" by (simp add: demo_state_pc)
  have "inflight_count (sys_conn ?s) < max_inflight_messages demo_cfg"
    by (simp add: inflight_count_def on_ack_snd)
  from open_window_never_blocks [OF demo_acked_reachable pc this, of True] pc
  show ?thesis by (simp del: sender_step.simps)
qed

text \<open>C12: The queue is bounded.  In every reachable state the byte counter equals the total size of the
  queued messages, and the queued messages other than HIGH control frames respect both configured
  bounds, in number and in bytes.\<close>

theorem queue_bounded:
  assumes "reachable conn_init (conn_step cfg) s"
  shows "queue_bytes (sys_conn s) = bytes (queue (sys_conn s)) \<and>
    int (length (nonhigh (queue (sys_conn s)))) \<le> max 0 (connection_queue_max_messages cfg) \<and>
    bytes (nonhigh (queue (sys_conn s))) \<le> max 0 (connection_queue_max_bytes cfg)"
  using conn_system.reachable_inv [OF assms] by (simp add: conn_inv_def queue_inv_def Let_def)

theorem queue_bounded_witness: "queue_bytes (sys_conn demo_state) = 4 \<and> bytes (queue (sys_conn demo_state)) = 4"
  using queue_bounded [OF demo_state_reachable] by (simp add: demo_eval)

text \<open>Cumulative acknowledgement.  An ACK for sequence \<open>n\<close> releases exactly the in-flight entries
  of that channel at or below \<open>n\<close>, reports their number and keeps the others in order; a repeated or
  older ACK for the channel changes nothing and releases nothing; the window event is set whenever
  the window has room afterwards.\<close>

theorem on_ack_cumulative:
  assumes "m \<le> n"
  shows "inflight (snd (on_ack cfg ch n c)) =
      filter (\<lambda>(x, k). \<not> (x = ch \<and> k \<le> n)) (inflight c) \<and>
    fst (on_ack cfg ch n c) = int (length (filter (\<lambda>(x, k). x = ch \<and> k \<le> n) (inflight c))) \<and>
    on_ack cfg ch m (snd (on_ack cfg ch n c)) = (0, snd (on_ack cfg ch n c)) \<and>
    (inflight_count (snd (on_ack cfg ch n c)) < max_inflight_messages cfg \<longrightarrow>
       window_event (snd (on_ack cfg ch n c)))"
proof -
  have "int (length (filter (\<lambda>(x, k). x = ch \<and> k \<le> n) xs))
      = int (length xs) - int (length (filter (\<lambda>(x, k). \<not> (x = ch \<and> k \<le> n)) xs))" for xs
    using sum_length_filter_compl [of "\<lambda>(x, k). x = ch \<and> k \<le> n" xs]
    by (simp add: case_prod_unfold)
  moreover have "filter (\<lambda>(x, k). \<not> (x = ch \<and> k \<le> m)) (filter (\<lambda>(x, k). \<not> (x = ch \<and> k \<le> n)) xs)
      = filter (\<lambda>(x, k). \<not> (x = ch \<and> k \<le> n)) xs" for xs
    using assms by (induction xs) auto
  ultimately show ?thesis
    by (auto simp: on_ack_def Let_def inflight_count_def)
qed

theorem on_ack_cumulative_witness:
  "fst (on_ack demo_cfg ''c'' 2 (sys_conn demo_state)) = 1 \<and>
   on_ack demo_cfg ''c'' 1 (snd (on_ack demo_cfg ''c'' 2 (sys_conn demo_state)))
     = (0, snd (on_ack demo_cfg ''c'' 2 (sys_conn demo_state)))"
  using on_ack_cumulative [of 1 2 demo_cfg "''c''" "sys_conn demo_state"] by simp

text \<open>C26: Delivery stops exactly at the window and resumes on ACK.  On a live connection with an empty
  window and a queue of flow-controlled messages of one channel, the sender hands the socket the
  first \<open>max_inflight_messages\<close> of them and suspends; once an ACK covers them, it hands over the next
  \<open>max_inflight_messages\<close>.  The fuel bounds say how many steps of the task are enough.\<close>

theorem window_stops_and_resumes:
  assumes "running_state (conn_state c)" and "inflight c = []" and "0 < max_inflight_messages cfg"
    and "\<forall>m \<in> set (queue c). flow_controlled m \<and> qm_channel m = Some ch \<and> the (qm_sequence m) \<le> n"
    and "nat (max_inflight_messages cfg) < length (queue c)"
    and "4 * length (queue c) + 6 \<le> fuel"
  shows "case sender_run cfg fuel c AtLoop of
    (ms, c1, pc) \<Rightarrow>
      ms = take (nat (max_inflight_messages cfg)) (queue c) \<and>
      pc = Blocked (queue c ! nat (max_inflight_messages cfg)) \<and>
      sender_step cfg ok c1 pc = None \<and>
      fst (sender_run cfg fuel (snd (on_ack cfg ch n c1)) pc) =
        take (nat (max_inflight_messages cfg)) (drop (nat (max_inflight_messages cfg)) (queue c))"
proof -
  let ?k = "nat (max_inflight_messages cfg)" and ?q = "queue c"
  have "\<exists>c'. sender_run cfg fuel c AtLoop =
      (take ?k ?q, c', if length ?q \<le> ?k then Getting else Blocked (?q ! ?k)) \<and>
    inflight c' = inflight c @ concat (map tracked (take ?k ?q)) \<and>
    queue c' = drop (Suc ?k) ?q \<and> conn_state c' = conn_state c \<and>
    (?k < length ?q \<longrightarrow> \<not> window_event c')"
    using assms by (intro sender_run_window) auto
  then obtain c1 where r: "sender_run cfg fuel c AtLoop = (take ?k ?q, c1, Blocked (?q ! ?k))"
    and c1: "inflight c1 = concat (map tracked (take ?k ?q))" "queue c1 = drop (Suc ?k) ?q"
      "conn_state c1 = conn_state c" "\<not> window_event c1"
    using assms(2,5) by auto
  have "x = ch \<and> i \<le> n" if "(x, i) \<in> set (inflight c1)" for x i
    using that assms(4)
    by (auto simp: c1(1) tracked_def dest!: in_set_takeD split: Priority.splits option.splits)
      (metis option.sel)
  then have "filter (\<lambda>(x, i). \<not> (x = ch \<and> i \<le> n)) (inflight c1) = []"
    by (auto simp: filter_empty_conv)
  then have c2: "inflight (snd (on_ack cfg ch n c1)) = []" "window_event (snd (on_ack cfg ch n c1))"
    using assms(3) by (simp_all add: on_ack_snd)
  have "fst (sender_run cfg fuel (snd (on_ack cfg ch n c1)) (Blocked (?q ! ?k)))
      = take (nat (max_inflight_messages cfg) - length (inflight (snd (on_ack cfg ch n c1))))
          (?q ! ?k # queue (snd (on_ack cfg ch n c1)))"
    using assms c1 c2 by (intro sender_run_resume) (auto dest: in_set_dropD)
  then have "fst (sender_run cfg fuel (snd (on_ack cfg ch n c1)) (Blocked (?q ! ?k)))
      = take ?k (drop ?k ?q)"
    using assms(5) c1(2) c2(1) by (simp add: Cons_nth_drop_Suc)
  with r c1(4) show ?thesis by simp
qed

definition demo_queue :: connection where
  "demo_queue = (sys_conn (foldl (conn_exec demo_cfg) (conn_start ''k'' ''s'' ''t'' 0)
     [EnqueueEv ''m1'' NORMAL (Some ''c'') (Some 1), EnqueueEv ''m2'' NORMAL (Some ''c'') (Some 2)]))"

theorem window_stops_and_resumes_witness:
  "map qm_payload (fst (sender_run demo_cfg 20 demo_queue AtLoop)) = [''m1'']"
proof -
  have q: "queue demo_queue =
     [\<lparr>qm_payload = ''m1'', qm_size_bytes = 2, qm_priority = NORMAL, qm_channel = Some ''c'',
       qm_sequence = Some 1\<rparr>, demo_m2]"
    "inflight demo_queue = []" "conn_state demo_queue = ACTIVE"
    by (simp_all add: demo_queue_def demo_eval demo_m2_def)
  have "case sender_run demo_cfg 20 demo_queue AtLoop of
    (ms, c1, pc) \<Rightarrow>
      ms = take (nat (max_inflight_messages demo_cfg)) (queue demo_queue) \<and>
      pc = Blocked (queue demo_queue ! nat (max_inflight_messages demo_cfg)) \<and>
      sender_step demo_cfg True c1 pc = None \<and>
      fst (sender_run demo_cfg 20 (snd (on_ack demo_cfg ''c'' 2 c1)) pc) =
        take (nat (max_inflight_messages demo_cfg))
          (drop (nat (max_inflight_messages demo_cfg)) (queue demo_queue))"
    by (rule window_stops_and_resumes)
      (simp_all add: q demo_m2_def flow_controlled_def running_state_def)
  then show ?thesis by (auto simp: q split: prod.splits)
qed

text \<open>C31: A full window also holds back control frames.  When the in-flight window of a connection is full and
  a NORMAL message \<open>m\<close> waits for it, with only the item being written and frames of other priorities
  ahead (\<open>xs\<close>), then whatever happens except an ACK, and whatever is enqueued, HIGH frames such as PING and
  DISCONNECT included, nothing is sent but items of \<open>xs\<close> in their order; as long as the sender task runs
  the window stays full, and \<open>m\<close>, all that was queued behind it and every frame accepted since are still
  waiting.\<close>

theorem saturated_window_blocks_control_frames:
  assumes "reachable conn_init (conn_step cfg) s" and "max_inflight_messages cfg \<le> inflight_count (sys_conn s)"
    and "held (sys_pc s) @ queue (sys_conn s) = xs @ m # rest" and "qm_priority m = NORMAL" and "only_control (sys_pc s) xs"
    and "\<forall>e \<in> set es. \<not> is_ack e" and "t = foldl (conn_exec cfg) s es"
  shows "\<exists>us vs new. xs = us @ vs \<and> sys_sent t = sys_sent s @ us \<and> sys_accepted t = sys_accepted s @ new \<and>
    (sys_pc t \<noteq> Stopped \<longrightarrow> max_inflight_messages cfg \<le> inflight_count (sys_conn t) \<and>
       held (sys_pc t) @ queue (sys_conn t) = vs @ m # rest @ new)"
proof -
  have "saturated cfg s xs m rest" using assms(2-5) by (simp add: saturated_def)
  then show ?thesis
    using held_up_run [OF assms(1) _ assms(6), of xs m rest] unfolding assms(7) held_up_def saturated_def by blast
qed

text \<open>A PING enqueued behind the blocked message is not sent, however long the sender runs.\<close>

definition demo_pings :: "conn_event list" where
  "demo_pings = [EnqueueEv ''PING'' HIGH None None, SendEv True, EnqueueEv ''DISCONNECT'' HIGH None None, SendEv True]"

theorem saturated_window_blocks_control_frames_witness:
  "sys_sent (foldl (conn_exec demo_cfg) demo_state demo_pings) = sys_sent demo_state \<and>
   map qm_payload (queue (sys_conn (foldl (conn_exec demo_cfg) demo_state demo_pings))) = [''ping'', ''PING'', ''DISCONNECT'']"
proof -
  let ?t = "foldl (conn_exec demo_cfg) demo_state demo_pings"
  have acks: "\<forall>e \<in> set demo_pings. \<not> is_ack e" by (simp add: demo_pings_def)
  have wait: "held (sys_pc demo_state) @ queue (sys_conn demo_state) = [] @ demo_m2 # queue (sys_conn demo_state)"
    by (simp add: demo_state_pc)
  have full: "max_inflight_messages demo_cfg \<le> inflight_count (sys_conn demo_state)" by (simp add: inflight_count_def)
  have m: "qm_priority demo_m2 = NORMAL" "only_control (sys_pc demo_state) []"
    by (simp_all add: demo_m2_def only_control_def demo_state_pc)
  from saturated_window_blocks_control_frames [OF demo_state_reachable full wait m acks refl]
  have "sys_sent ?t = sys_sent demo_state" by auto
  moreover have "map qm_payload (queue (sys_conn ?t)) = [''ping'', ''PING'', ''DISCONNECT'']" by code_simp
  ultimately show ?thesis by simp
qed

end
