(* ===== verification/Registry.thy ===== *)
theory Registry
  imports Connections
begin

text \<open>
  \<open>apps/gateway/connections/manager.py\<close>, class \<open>ConnectionRegistry\<close>: the process-local index of live
  connections by id, session, tenant and channel.  The registry stores references to \<open>Connection\<close>
  objects that other tasks mutate, so the model has an explicit heap of connections; \<open>subscribe\<close> and
  \<open>unsubscribe\<close> change both.  \<open>reg_view\<close> is the abstract contents (session, tenant and channels of
  every registered id); the locale \<open>conn_index\<close> is the contract the fanout and the frame handler
  rely on, and \<open>reg_refines\<close> relates whole sequences of operations to a plain map.
\<close>

section \<open>State and operations\<close>

type_synonym heap = "nat \<rightharpoonup> connection"

record conn_registry =
  by_id :: "(string \<times> nat) list"
  by_session :: "string \<rightharpoonup> string list"
  by_tenant :: "string \<rightharpoonup> string list"
  by_channel :: "string \<rightharpoonup> string list"

type_synonym reg_state = "heap \<times> conn_registry"

definition empty_registry :: conn_registry where
  "empty_registry =
     \<lparr>by_id = [], by_session = Map.empty, by_tenant = Map.empty, by_channel = Map.empty\<rparr>"

definition registry_add :: "nat \<Rightarrow> reg_state \<Rightarrow> reg_state" where
  "registry_add r = (\<lambda>(h, R).
     case h r of
       None \<Rightarrow> (h, R)
     | Some c \<Rightarrow>
         (h, R\<lparr>by_id := AList.update (connection_id c) r (by_id R),
               by_session := setdefault_add (by_session R) (session_id c) (connection_id c),
               by_tenant := setdefault_add (by_tenant R) (tenant_id c) (connection_id c)\<rparr>))"

definition registry_remove :: "string \<Rightarrow> reg_state \<Rightarrow> nat option \<times> reg_state" where
  "registry_remove cid = (\<lambda>(h, R).
     case map_of (by_id R) cid of
       None \<Rightarrow> (None, h, R)
     | Some r \<Rightarrow>
         (case h r of
            None \<Rightarrow> (Some r, h, R\<lparr>by_id := AList.delete cid (by_id R)\<rparr>)
          | Some c \<Rightarrow>
              (Some r, h,
               R\<lparr>by_id := AList.delete cid (by_id R),
                 by_session := get_discard (by_session R) (session_id c) cid,
                 by_tenant := get_discard (by_tenant R) (tenant_id c) cid,
                 by_channel := foldl (\<lambda>d ch. get_discard d ch cid) (by_channel R) (subscriptions c)\<rparr>)))"

definition registry_get :: "string \<Rightarrow> reg_state \<Rightarrow> nat option" where
  "registry_get cid = (\<lambda>(h, R). map_of (by_id R) cid)"

definition registry_subscribe :: "string \<Rightarrow> string \<Rightarrow> reg_state \<Rightarrow> reg_state" where
  "registry_subscribe cid ch = (\<lambda>(h, R).
     case map_of (by_id R) cid of
       None \<Rightarrow> (h, R)
     | Some r \<Rightarrow>
         (h(r := map_option (\<lambda>c. c\<lparr>subscriptions := set_add ch (subscriptions c)\<rparr>) (h r)),
          R\<lparr>by_channel := setdefault_add (by_channel R) ch cid\<rparr>))"

definition registry_unsubscribe :: "string \<Rightarrow> string \<Rightarrow> reg_state \<Rightarrow> reg_state" where
  "registry_unsubscribe cid ch = (\<lambda>(h, R).
     ((case map_of (by_id R) cid of
         None \<Rightarrow> h
       | Some r \<Rightarrow>
           h(r := map_option (\<lambda>c. c\<lparr>subscriptions := set_discard ch (subscriptions c)\<rparr>) (h r))),
      R\<lparr>by_channel := get_discard (by_channel R) ch cid\<rparr>))"

definition local_subscribers :: "conn_registry \<Rightarrow> string \<Rightarrow> nat list" where
  "local_subscribers R ch = List.map_filter (map_of (by_id R)) (get_set (by_channel R) ch)"

definition session_connections :: "conn_registry \<Rightarrow> string \<Rightarrow> nat list" where
  "session_connections R s = List.map_filter (map_of (by_id R)) (get_set (by_session R) s)"

definition tenant_connection_count :: "conn_registry \<Rightarrow> string \<Rightarrow> int" where
  "tenant_connection_count R t = int (length (get_set (by_tenant R) t))"

definition active_count :: "conn_registry \<Rightarrow> int" where
  "active_count R = int (length (by_id R))"

definition all_connections :: "conn_registry \<Rightarrow> nat list" where
  "all_connections R = map snd (by_id R)"

section \<open>Abstract contents and invariant\<close>

type_synonym conn_info = "string \<times> string \<times> string set"

definition conn_of :: "reg_state \<Rightarrow> string \<Rightarrow> connection option" where
  "conn_of = (\<lambda>(h, R) cid. Option.bind (map_of (by_id R) cid) h)"

definition info :: "connection \<Rightarrow> conn_info" where
  "info c = (session_id c, tenant_id c, set (subscriptions c))"

definition reg_view :: "reg_state \<Rightarrow> string \<Rightarrow> conn_info option" where
  "reg_view s cid = map_option info (conn_of s cid)"

definition reg_inv :: "reg_state \<Rightarrow> bool" where
  "reg_inv = (\<lambda>(h, R).
     distinct (map fst (by_id R)) \<and>
     (\<forall>cid r. map_of (by_id R) cid = Some r \<longrightarrow> (\<exists>c. h r = Some c \<and> connection_id c = cid)) \<and>
     (\<forall>x. distinct (get_set (by_session R) x) \<and>
        set (get_set (by_session R) x) = {cid. \<exists>c. conn_of (h, R) cid = Some c \<and> session_id c = x}) \<and>
     (\<forall>x. distinct (get_set (by_tenant R) x) \<and>
        set (get_set (by_tenant R) x) = {cid. \<exists>c. conn_of (h, R) cid = Some c \<and> tenant_id c = x}) \<and>
     (\<forall>x. distinct (get_set (by_channel R) x) \<and>
        set (get_set (by_channel R) x) =
          {cid. \<exists>c. conn_of (h, R) cid = Some c \<and> x \<in> set (subscriptions c)}))"

definition subscriber_ids :: "reg_state \<Rightarrow> string \<Rightarrow> string list" where
  "subscriber_ids s ch = filter (\<lambda>cid. conn_of s cid \<noteq> None) (get_set (by_channel (snd s)) ch)"

section \<open>The contract of the index\<close>

locale conn_index =
  fixes inv :: "'s \<Rightarrow> bool"
    and view :: "'s \<Rightarrow> string \<Rightarrow> conn_info option"
    and sub :: "string \<Rightarrow> string \<Rightarrow> 's \<Rightarrow> 's"
    and unsub :: "string \<Rightarrow> string \<Rightarrow> 's \<Rightarrow> 's"
    and rem :: "string \<Rightarrow> 's \<Rightarrow> 's"
    and ids :: "'s \<Rightarrow> string \<Rightarrow> string list"
    and tcount :: "'s \<Rightarrow> string \<Rightarrow> int"
  assumes inv_sub: "inv s \<Longrightarrow> inv (sub cid ch s)"
    and inv_unsub: "inv s \<Longrightarrow> inv (unsub cid ch s)"
    and inv_rem: "inv s \<Longrightarrow> inv (rem cid s)"
    and view_sub: "inv s \<Longrightarrow> view (sub cid ch s) =
          (view s)(cid := map_option (\<lambda>(a, b, C). (a, b, insert ch C)) (view s cid))"
    and view_unsub: "inv s \<Longrightarrow> view (unsub cid ch s) =
          (view s)(cid := map_option (\<lambda>(a, b, C). (a, b, C - {ch})) (view s cid))"
    and view_rem: "inv s \<Longrightarrow> view (rem cid s) = (view s)(cid := None)"
    and ids_distinct: "inv s \<Longrightarrow> distinct (ids s ch)"
    and ids_view: "inv s \<Longrightarrow> set (ids s ch) = {cid. \<exists>a b C. view s cid = Some (a, b, C) \<and> ch \<in> C}"
    and tcount_view: "inv s \<Longrightarrow> tcount s t = int (card {cid. \<exists>a C. view s cid = Some (a, t, C)})"
begin

lemma ids_sub:
  assumes "inv s"
  shows "set (ids (sub cid ch s) x) =
    (if x = ch \<and> view s cid \<noteq> None then insert cid (set (ids s x)) else set (ids s x))"
  using assms by (auto simp: ids_view inv_sub view_sub split: if_splits)

lemma ids_unsub:
  assumes "inv s"
  shows "set (ids (unsub cid ch s) x) = (if x = ch then set (ids s x) - {cid} else set (ids s x))"
  using assms by (auto simp: ids_view inv_unsub view_unsub split: if_splits)

lemma ids_rem:
  assumes "inv s"
  shows "set (ids (rem cid s) x) = set (ids s x) - {cid}"
  using assms by (auto simp: ids_view inv_rem view_rem split: if_splits)

lemma sub_idem_view: "inv s \<Longrightarrow> view (sub cid ch (sub cid ch s)) = view (sub cid ch s)"
  by (cases "view s cid") (auto simp: view_sub inv_sub split: prod.splits)

lemma tcount_sub: "inv s \<Longrightarrow> tcount (sub cid ch s) t = tcount s t"
proof -
  assume "inv s"
  then have "{x. \<exists>a C. view (sub cid ch s) x = Some (a, t, C)} = {x. \<exists>a C. view s x = Some (a, t, C)}"
    by (auto simp: view_sub split: if_splits)
  with \<open>inv s\<close> show ?thesis by (simp add: tcount_view inv_sub)
qed

end

section \<open>The operations keep the invariant and implement the contract\<close>

lemma map_of_update [simp]: "map_of (AList.update k v al) = (map_of al)(k \<mapsto> v)"
  by (rule update_conv')

lemma map_of_delete [simp]: "map_of (AList.delete k al) = (map_of al)(k := None)"
  by (rule delete_conv')

lemma distinct_keys_delete: "distinct (map fst al) \<Longrightarrow> distinct (map fst (AList.delete k al))"
  by (rule distinct_delete)

lemma distinct_keys_update: "distinct (map fst al) \<Longrightarrow> distinct (map fst (AList.update k v al))"
  by (rule distinct_update)

lemma get_set_fold_discard [simp]:
  "get_set (foldl (\<lambda>d ch. get_discard d ch x) d chs) k =
     (if k \<in> set chs then set_discard x (get_set d k) else get_set d k)"
  by (induction chs arbitrary: d) (auto simp: set_discard_def)

lemma reg_invD:
  assumes "reg_inv (h, R)"
  shows "distinct (map fst (by_id R))"
    and "map_of (by_id R) cid = Some r \<Longrightarrow> \<exists>c. h r = Some c \<and> connection_id c = cid"
    and "distinct (get_set (by_session R) x)"
    and "distinct (get_set (by_tenant R) x)"
    and "distinct (get_set (by_channel R) x)"
    and "cid \<in> set (get_set (by_session R) x) \<longleftrightarrow> (\<exists>c. conn_of (h, R) cid = Some c \<and> session_id c = x)"
    and "cid \<in> set (get_set (by_tenant R) x) \<longleftrightarrow> (\<exists>c. conn_of (h, R) cid = Some c \<and> tenant_id c = x)"
    and "cid \<in> set (get_set (by_channel R) x) \<longleftrightarrow>
      (\<exists>c. conn_of (h, R) cid = Some c \<and> x \<in> set (subscriptions c))"
  using assms by (auto simp: reg_inv_def)

lemma conn_of_ref:
  "reg_inv (h, R) \<Longrightarrow> map_of (by_id R) cid = Some r \<Longrightarrow> \<exists>c. h r = Some c \<and> connection_id c = cid \<and> conn_of (h, R) cid = Some c"
  using reg_invD(2) by (fastforce simp: conn_of_def)

text \<open>Distinct ids have distinct references, so an update of one object leaves the others alone.\<close>

lemma conn_of_heap_update:
  assumes "reg_inv (h, R)" and "map_of (by_id R) cid = Some r" and "h r = Some c"
    and "connection_id c' = connection_id c"
  shows "conn_of (h(r \<mapsto> c'), R) = (conn_of (h, R))(cid \<mapsto> c')"
proof
  fix x
  show "conn_of (h(r \<mapsto> c'), R) x = ((conn_of (h, R))(cid \<mapsto> c')) x"
  proof (cases "x = cid")
    case True
    with assms(2) show ?thesis by (simp add: conn_of_def)
  next
    case False
    have "map_of (by_id R) x \<noteq> Some r"
      using conn_of_ref [OF assms(1,2)] conn_of_ref [OF assms(1), of x r] assms(3) False by auto
    with False show ?thesis by (cases "map_of (by_id R) x") (auto simp: conn_of_def)
  qed
qed

lemma conn_of_index_update [simp]:
  "conn_of (h, R\<lparr>by_channel := x\<rparr>) = conn_of (h, R)"
  "conn_of (h, R\<lparr>by_session := x\<rparr>) = conn_of (h, R)"
  "conn_of (h, R\<lparr>by_tenant := x\<rparr>) = conn_of (h, R)"
  by (simp_all add: conn_of_def)

lemma conn_of_by_id_delete [simp]:
  "conn_of (h, R\<lparr>by_id := AList.delete cid (by_id R)\<rparr>) = (conn_of (h, R))(cid := None)"
  by (auto simp: conn_of_def fun_eq_iff)

lemma conn_of_subscribe:
  assumes "reg_inv s"
  shows "conn_of (registry_subscribe cid ch s) =
    (conn_of s)(cid := map_option (\<lambda>c. c\<lparr>subscriptions := set_add ch (subscriptions c)\<rparr>) (conn_of s cid))"
proof -
  obtain h R where s: "s = (h, R)" by (cases s)
  show ?thesis
  proof (cases "map_of (by_id R) cid")
    case None
    then have "conn_of (h, R) cid = None" by (simp add: conn_of_def)
    with None show ?thesis by (simp add: s registry_subscribe_def fun_upd_idem)
  next
    case (Some r)
    with conn_of_ref assms s obtain c where "h r = Some c" "conn_of (h, R) cid = Some c" by blast
    with Some assms show ?thesis by (simp add: s registry_subscribe_def conn_of_heap_update)
  qed
qed

lemma conn_of_unsubscribe:
  assumes "reg_inv s"
  shows "conn_of (registry_unsubscribe cid ch s) =
    (conn_of s)(cid := map_option (\<lambda>c. c\<lparr>subscriptions := set_discard ch (subscriptions c)\<rparr>) (conn_of s cid))"
proof -
  obtain h R where s: "s = (h, R)" by (cases s)
  show ?thesis
  proof (cases "map_of (by_id R) cid")
    case None
    then have "conn_of (h, R) cid = None" by (simp add: conn_of_def)
    with None show ?thesis by (simp add: s registry_unsubscribe_def fun_upd_idem)
  next
    case (Some r)
    with conn_of_ref assms s obtain c where "h r = Some c" "conn_of (h, R) cid = Some c" by blast
    with Some assms show ?thesis by (simp add: s registry_unsubscribe_def conn_of_heap_update)
  qed
qed

lemma conn_of_remove:
  assumes "reg_inv s"
  shows "conn_of (snd (registry_remove cid s)) = (conn_of s)(cid := None)"
  using assms by (cases s) (auto simp: registry_remove_def conn_of_def fun_eq_iff split: option.split)

text \<open>An invariant in terms of \<open>conn_of\<close> alone: what the indexes must be for given contents.\<close>

lemma reg_invI:
  assumes "distinct (map fst (by_id R))"
    and "\<And>cid r. map_of (by_id R) cid = Some r \<Longrightarrow> \<exists>c. h r = Some c \<and> connection_id c = cid"
    and "\<And>x. distinct (get_set (by_session R) x)"
    and "\<And>x. distinct (get_set (by_tenant R) x)"
    and "\<And>x. distinct (get_set (by_channel R) x)"
    and "\<And>cid x. cid \<in> set (get_set (by_session R) x) \<longleftrightarrow>
      (\<exists>c. conn_of (h, R) cid = Some c \<and> session_id c = x)"
    and "\<And>cid x. cid \<in> set (get_set (by_tenant R) x) \<longleftrightarrow>
      (\<exists>c. conn_of (h, R) cid = Some c \<and> tenant_id c = x)"
    and "\<And>cid x. cid \<in> set (get_set (by_channel R) x) \<longleftrightarrow>
      (\<exists>c. conn_of (h, R) cid = Some c \<and> x \<in> set (subscriptions c))"
  shows "reg_inv (h, R)"
  using assms by (auto simp: reg_inv_def)

lemma reg_inv_subscribe: "reg_inv s \<Longrightarrow> reg_inv (registry_subscribe cid ch s)"
proof (cases s)
  case (Pair h R)
  assume inv: "reg_inv s"
  show ?thesis
  proof (cases "map_of (by_id R) cid")
    case None
    with inv Pair show ?thesis by (simp add: registry_subscribe_def)
  next
    case (Some r)
    with inv Pair obtain c where c: "h r = Some c" "conn_of (h, R) cid = Some c" "connection_id c = cid"
      using conn_of_ref by blast
    have st: "registry_subscribe cid ch s =
        (h(r \<mapsto> c\<lparr>subscriptions := set_add ch (subscriptions c)\<rparr>),
         R\<lparr>by_channel := setdefault_add (by_channel R) ch cid\<rparr>)"
      by (simp add: Pair registry_subscribe_def Some c)
    note co = conn_of_heap_update [OF inv [unfolded Pair] Some c(1)]
    show ?thesis
      unfolding st
    proof (rule reg_invI, goal_cases)
      case (2 x r')
      with c reg_invD(2) [OF inv [unfolded Pair], of x r'] show ?case by auto
    qed (use c reg_invD [OF inv [unfolded Pair]] in \<open>auto simp: co\<close>)
  qed
qed

lemma reg_inv_unsubscribe: "reg_inv s \<Longrightarrow> reg_inv (registry_unsubscribe cid ch s)"
proof (cases s)
  case (Pair h R)
  assume inv: "reg_inv s"
  show ?thesis
  proof (cases "map_of (by_id R) cid")
    case None
    then have "conn_of (h, R) cid = None" by (simp add: conn_of_def)
    with None have "cid \<notin> set (get_set (by_channel R) ch)"
      using reg_invD(8) [OF inv [unfolded Pair]] by simp
    then have "set_discard cid (get_set (by_channel R) ch) = get_set (by_channel R) ch"
      by (simp add: set_discard_def)
    then have g: "get_set (get_discard (by_channel R) ch cid) x = get_set (by_channel R) x" for x
      by simp
    show ?thesis
      unfolding Pair registry_unsubscribe_def prod.case None option.case
      by (rule reg_invI) (use reg_invD [OF inv [unfolded Pair]] g in auto)
  next
    case (Some r)
    with inv Pair obtain c where c: "h r = Some c" "conn_of (h, R) cid = Some c" "connection_id c = cid"
      using conn_of_ref by blast
    have st: "registry_unsubscribe cid ch s =
        (h(r \<mapsto> c\<lparr>subscriptions := set_discard ch (subscriptions c)\<rparr>),
         R\<lparr>by_channel := get_discard (by_channel R) ch cid\<rparr>)"
      by (simp add: Pair registry_unsubscribe_def Some c)
    note co = conn_of_heap_update [OF inv [unfolded Pair] Some c(1)]
    show ?thesis
      unfolding st
    proof (rule reg_invI, goal_cases)
      case (2 x r')
      with c reg_invD(2) [OF inv [unfolded Pair], of x r'] show ?case by auto
    qed (use c reg_invD [OF inv [unfolded Pair]] in \<open>auto simp: co\<close>)
  qed
qed

lemma reg_inv_remove: "reg_inv s \<Longrightarrow> reg_inv (snd (registry_remove cid s))"
proof (cases s)
  case (Pair h R)
  assume inv: "reg_inv s"
  show ?thesis
  proof (cases "map_of (by_id R) cid")
    case None
    with inv Pair show ?thesis by (simp add: registry_remove_def)
  next
    case (Some r)
    with inv Pair obtain c where c: "h r = Some c" "conn_of (h, R) cid = Some c" "connection_id c = cid"
      using conn_of_ref by blast
    let ?R = "R\<lparr>by_id := AList.delete cid (by_id R),
                 by_session := get_discard (by_session R) (session_id c) cid,
                 by_tenant := get_discard (by_tenant R) (tenant_id c) cid,
                 by_channel := foldl (\<lambda>d ch. get_discard d ch cid) (by_channel R) (subscriptions c)\<rparr>"
    have st: "snd (registry_remove cid s) = (h, ?R)"
      by (simp add: Pair registry_remove_def Some c)
    show ?thesis
      unfolding st
    proof (rule reg_invI, goal_cases)
      case 1
      with reg_invD(1) [OF inv [unfolded Pair]] show ?case by (simp add: distinct_keys_delete)
    next
      case (2 x r')
      with reg_invD(2) [OF inv [unfolded Pair], of x r'] show ?case by (auto split: if_splits)
    qed (use c reg_invD [OF inv [unfolded Pair]] in auto)
  qed
qed

lemma subscriber_ids_inv:
  assumes "reg_inv s"
  shows "subscriber_ids s ch = get_set (by_channel (snd s)) ch"
  using assms reg_invD(8) [of "fst s" "snd s"]
  by (auto simp: subscriber_ids_def filter_id_conv)

interpretation reg: conn_index reg_inv reg_view registry_subscribe registry_unsubscribe
  "\<lambda>cid s. snd (registry_remove cid s)" subscriber_ids "\<lambda>s t. tenant_connection_count (snd s) t"
proof
  fix s :: reg_state and cid ch t :: string
  assume inv: "reg_inv s"
  obtain h R where s: "s = (h, R)" by (cases s)
  note d = reg_invD [OF inv [unfolded s]]
  show "reg_inv (registry_subscribe cid ch s)" using inv by (rule reg_inv_subscribe)
  show "reg_inv (registry_unsubscribe cid ch s)" using inv by (rule reg_inv_unsubscribe)
  show "reg_inv (snd (registry_remove cid s))" using inv by (rule reg_inv_remove)
  show "reg_view (registry_subscribe cid ch s) =
      (reg_view s)(cid := map_option (\<lambda>(a, b, C). (a, b, insert ch C)) (reg_view s cid))"
    by (auto simp: reg_view_def conn_of_subscribe [OF inv] info_def fun_eq_iff option.map_comp comp_def)
  show "reg_view (registry_unsubscribe cid ch s) =
      (reg_view s)(cid := map_option (\<lambda>(a, b, C). (a, b, C - {ch})) (reg_view s cid))"
    by (auto simp: reg_view_def conn_of_unsubscribe [OF inv] info_def fun_eq_iff option.map_comp comp_def)
  show "reg_view (snd (registry_remove cid s)) = (reg_view s)(cid := None)"
    by (auto simp: reg_view_def conn_of_remove [OF inv])
  show "distinct (subscriber_ids s ch)"
    using d(5) by (simp add: subscriber_ids_inv [OF inv [unfolded s]] s)
  show "set (subscriber_ids s ch) = {cid. \<exists>a b C. reg_view s cid = Some (a, b, C) \<and> ch \<in> C}"
    using d(8) by (auto simp: subscriber_ids_inv [OF inv [unfolded s]] s reg_view_def info_def)
  have "{cid. \<exists>a C. reg_view s cid = Some (a, t, C)} = set (get_set (by_tenant R) t)"
    using d(7) by (auto simp: s reg_view_def info_def)
  then show "tenant_connection_count (snd s) t = int (card {cid. \<exists>a C. reg_view s cid = Some (a, t, C)})"
    using d(4) by (simp add: tenant_connection_count_def s distinct_card)
qed

section \<open>Registering a connection\<close>

lemma conn_of_add:
  assumes "h r = Some c"
  shows "conn_of (registry_add r (h, R)) = (conn_of (h, R))(connection_id c \<mapsto> c)"
  using assms by (auto simp: registry_add_def conn_of_def fun_eq_iff)

lemma reg_inv_add:
  assumes inv: "reg_inv (h, R)" and "h r = Some c" and "conn_of (h, R) (connection_id c) = None"
    and "subscriptions c = []"
  shows "reg_inv (registry_add r (h, R))"
proof -
  let ?R = "R\<lparr>by_id := AList.update (connection_id c) r (by_id R),
               by_session := setdefault_add (by_session R) (session_id c) (connection_id c),
               by_tenant := setdefault_add (by_tenant R) (tenant_id c) (connection_id c)\<rparr>"
  have st: "registry_add r (h, R) = (h, ?R)" using assms(2) by (simp add: registry_add_def)
  have co: "conn_of (h, ?R) = (conn_of (h, R))(connection_id c \<mapsto> c)"
    using conn_of_add [of h r c R] assms(2) st by simp
  note d = reg_invD [OF inv]
  show ?thesis
    unfolding st
  proof (rule reg_invI, goal_cases)
    case 1
    show ?case using d(1) by (simp add: distinct_keys_update)
  next
    case (2 x r')
    then show ?case using d(2) [of x r'] assms(2) by (auto split: if_splits)
  next
    case (6 cid x)
    show ?case using d(6) [of cid x] assms(3) unfolding co by auto
  next
    case (7 cid x)
    show ?case using d(7) [of cid x] assms(3) unfolding co by auto
  next
    case (8 cid x)
    show ?case using d(8) [of cid x] assms(3,4) unfolding co by auto
  qed (use d(3-5) in auto)
qed

lemma reg_inv_empty: "reg_inv (h, empty_registry)"
  by (simp add: reg_inv_def empty_registry_def conn_of_def)

lemma reg_inv_heap_fresh:
  assumes "reg_inv (h, R)" and "h r = None"
  shows "reg_inv (h(r \<mapsto> c), R)" and "conn_of (h(r \<mapsto> c), R) = conn_of (h, R)"
proof -
  have ne: "map_of (by_id R) cid \<noteq> Some r" for cid
    using reg_invD(2) [OF assms(1), of cid r] assms(2) by auto
  then have co: "conn_of (h(r \<mapsto> c), R) cid = conn_of (h, R) cid" for cid
    using ne [of cid] by (auto simp: conn_of_def split: bind_splits)
  then show "conn_of (h(r \<mapsto> c), R) = conn_of (h, R)" by auto
  have "\<exists>c'. (h(r \<mapsto> c)) r' = Some c' \<and> connection_id c' = cid" if "map_of (by_id R) cid = Some r'" for cid r'
    using reg_invD(2) [OF assms(1) that] that ne by auto
  then show "reg_inv (h(r \<mapsto> c), R)"
    using reg_invD [OF assms(1)] by (intro reg_invI) (auto simp: co)
qed

text \<open>A write to a connection that keeps its identity, session, tenant and subscriptions (every other
  operation of the gateway) keeps the invariant and the abstract contents.\<close>

definition same_index :: "connection \<Rightarrow> connection \<Rightarrow> bool" where
  "same_index c c' \<longleftrightarrow> connection_id c' = connection_id c \<and> info c' = info c"

lemma reg_inv_heap_same:
  assumes "reg_inv (h, R)" and "\<And>r. rel_option same_index (h r) (h' r)"
  shows "reg_inv (h', R)" and "reg_view (h', R) = reg_view (h, R)"
proof -
  have co: "rel_option same_index (conn_of (h, R) cid) (conn_of (h', R) cid)" for cid
    using assms(2) by (cases "map_of (by_id R) cid") (auto simp: conn_of_def)
  show "reg_view (h', R) = reg_view (h, R)"
  proof
    fix cid
    show "reg_view (h', R) cid = reg_view (h, R) cid"
      using co [of cid] by (cases rule: option.rel_cases) (auto simp: reg_view_def same_index_def)
  qed
  have keep: "(\<exists>c. conn_of (h', R) cid = Some c \<and> session_id c = x) = (\<exists>c. conn_of (h, R) cid = Some c \<and> session_id c = x)"
    "(\<exists>c. conn_of (h', R) cid = Some c \<and> tenant_id c = x) = (\<exists>c. conn_of (h, R) cid = Some c \<and> tenant_id c = x)"
    "(\<exists>c. conn_of (h', R) cid = Some c \<and> x \<in> set (subscriptions c)) = (\<exists>c. conn_of (h, R) cid = Some c \<and> x \<in> set (subscriptions c))"
    for cid x
    using co [of cid] by (cases rule: option.rel_cases; auto simp: same_index_def info_def)+
  show "reg_inv (h', R)"
  proof (rule reg_invI, goal_cases)
    case (2 cid r)
    then obtain c where "h r = Some c" "connection_id c = cid" using reg_invD(2) [OF assms(1)] by blast
    then show ?case using assms(2) [of r] by (cases "h' r") (auto simp: same_index_def)
  qed (use reg_invD [OF assms(1)] keep in auto)
qed

lemma reg_inv_heap_update:
  assumes "reg_inv (h, R)" and "h r = Some c" and "same_index c c'"
  shows "reg_inv (h(r \<mapsto> c'), R)" and "reg_view (h(r \<mapsto> c'), R) = reg_view (h, R)"
proof -
  have "rel_option same_index (h x) ((h(r \<mapsto> c')) x)" for x
    using assms(2,3) by (cases "h x") (auto simp: same_index_def)
  from reg_inv_heap_same [OF assms(1) this] show "reg_inv (h(r \<mapsto> c'), R)"
    "reg_view (h(r \<mapsto> c'), R) = reg_view (h, R)" .
qed

section \<open>References and ids\<close>

lemma local_subscribers_ids:
  assumes "reg_inv (h, R)"
  shows "map (\<lambda>r. connection_id (the (h r))) (local_subscribers R ch) = subscriber_ids (h, R) ch"
proof -
  have "map (\<lambda>r. connection_id (the (h r))) (List.map_filter (map_of (by_id R)) xs) =
      filter (\<lambda>cid. conn_of (h, R) cid \<noteq> None) xs" for xs
    using reg_invD(2) [OF assms]
    by (induction xs) (fastforce simp: map_filter_simps conn_of_def split: option.splits)+
  then show ?thesis by (simp add: local_subscribers_def subscriber_ids_def)
qed

lemma local_subscribers_distinct:
  "reg_inv (h, R) \<Longrightarrow> distinct (local_subscribers R ch)"
  using local_subscribers_ids [of h R ch] reg.ids_distinct [of "(h, R)" ch] by (metis distinct_map)

lemma local_subscribers_live:
  assumes "reg_inv (h, R)" and "r \<in> set (local_subscribers R ch)"
  shows "\<exists>c. h r = Some c \<and> ch \<in> set (subscriptions c) \<and> conn_of (h, R) (connection_id c) = Some c"
proof -
  from assms(2) obtain cid where cid: "cid \<in> set (get_set (by_channel R) ch)" "map_of (by_id R) cid = Some r"
    by (auto simp: local_subscribers_def List.map_filter_def)
  with conn_of_ref [OF assms(1)] obtain c where "h r = Some c" "connection_id c = cid" "conn_of (h, R) cid = Some c"
    by blast
  with cid(1) reg_invD(8) [OF assms(1), of cid ch] show ?thesis by auto
qed

text \<open>The reference of a registered connection is among the local subscribers of a channel exactly when the
  connection subscribes to it.\<close>

lemma local_subscribers_iff:
  assumes "reg_inv (h, R)" and "map_of (by_id R) cid = Some r" and "h r = Some c"
  shows "r \<in> set (local_subscribers R ch) \<longleftrightarrow> ch \<in> set (subscriptions c)"
proof
  assume "r \<in> set (local_subscribers R ch)"
  from local_subscribers_live [OF assms(1) this] assms(3) show "ch \<in> set (subscriptions c)" by auto
next
  assume "ch \<in> set (subscriptions c)"
  moreover have "conn_of (h, R) cid = Some c" using assms(2,3) by (simp add: conn_of_def)
  ultimately have "cid \<in> set (get_set (by_channel R) ch)" using reg_invD(8) [OF assms(1)] by blast
  then show "r \<in> set (local_subscribers R ch)"
    using assms(2) by (force simp: local_subscribers_def List.map_filter_def image_iff)
qed

section \<open>Sequences of operations\<close>

datatype reg_op =
    AddOp connection
  | RemoveOp string
  | SubscribeOp string string
  | UnsubscribeOp string string

text \<open>The code: \<open>AddOp\<close> allocates the connection object at the next free address.\<close>

fun reg_exec :: "nat \<times> reg_state \<Rightarrow> reg_op \<Rightarrow> nat \<times> reg_state" where
  "reg_exec (n, h, R) (AddOp c) = (Suc n, registry_add n (h(n \<mapsto> c), R))"
| "reg_exec (n, s) (RemoveOp cid) = (n, snd (registry_remove cid s))"
| "reg_exec (n, s) (SubscribeOp cid ch) = (n, registry_subscribe cid ch s)"
| "reg_exec (n, s) (UnsubscribeOp cid ch) = (n, registry_unsubscribe cid ch s)"

text \<open>The specification: a map from ids to session, tenant and set of channels.\<close>

fun abs_exec :: "(string \<rightharpoonup> conn_info) \<Rightarrow> reg_op \<Rightarrow> (string \<rightharpoonup> conn_info)" where
  "abs_exec m (AddOp c) = m(connection_id c \<mapsto> info c)"
| "abs_exec m (RemoveOp cid) = m(cid := None)"
| "abs_exec m (SubscribeOp cid ch) = m(cid := map_option (\<lambda>(a, b, C). (a, b, insert ch C)) (m cid))"
| "abs_exec m (UnsubscribeOp cid ch) = m(cid := map_option (\<lambda>(a, b, C). (a, b, C - {ch})) (m cid))"

text \<open>New connections have an unused id and no subscriptions, as the handler creates them.\<close>

fun adds_ok :: "(string \<rightharpoonup> conn_info) \<Rightarrow> reg_op list \<Rightarrow> bool" where
  "adds_ok m [] = True"
| "adds_ok m (AddOp c # ops) =
     (m (connection_id c) = None \<and> subscriptions c = [] \<and> adds_ok (abs_exec m (AddOp c)) ops)"
| "adds_ok m (x # ops) = adds_ok (abs_exec m x) ops"

lemma heap_dom:
  "fst (snd (registry_remove cid s)) k = fst s k"
  "fst (registry_subscribe cid ch s) k = None \<longleftrightarrow> fst s k = None"
  "fst (registry_unsubscribe cid ch s) k = None \<longleftrightarrow> fst s k = None"
  by (cases s; simp add: registry_remove_def registry_subscribe_def registry_unsubscribe_def
      split: option.split)+

lemma reg_exec_simulates:
  assumes "reg_inv s" and "\<forall>k \<ge> n. fst s k = None" and "adds_ok (reg_view s) (x # ops)"
    and "reg_exec (n, s) x = (n', s')"
  shows "reg_inv s' \<and> (\<forall>k \<ge> n'. fst s' k = None) \<and> reg_view s' = abs_exec (reg_view s) x \<and>
    adds_ok (reg_view s') ops"
proof -
  obtain h R where s: "s = (h, R)" by (cases s)
  show ?thesis
  proof (cases x)
    case (AddOp c)
    note f = reg_inv_heap_fresh [OF assms(1) [unfolded s], of n c]
    have "h n = None" using assms(2) s by simp
    moreover have "conn_of (h, R) (connection_id c) = None" "subscriptions c = []"
      using assms(3) AddOp s by (auto simp: reg_view_def)
    ultimately have "reg_inv (registry_add n (h(n \<mapsto> c), R))"
      "conn_of (registry_add n (h(n \<mapsto> c), R)) = (conn_of (h, R))(connection_id c \<mapsto> c)"
      using f by (simp_all add: reg_inv_add conn_of_add)
    moreover from this(2) have "reg_view (registry_add n (h(n \<mapsto> c), R)) = abs_exec (reg_view s) x"
      by (auto simp: reg_view_def fun_eq_iff AddOp s)
    moreover have "n' = Suc n" "s' = registry_add n (h(n \<mapsto> c), R)" "fst s' = h(n \<mapsto> c)"
      using assms(4) AddOp s by (auto simp: registry_add_def)
    ultimately show ?thesis using assms(2,3) AddOp s by simp
  next
    case (RemoveOp cid)
    with assms show ?thesis by (auto simp: reg.view_rem reg.inv_rem heap_dom)
  next
    case (SubscribeOp cid ch)
    with assms show ?thesis by (auto simp: reg.view_sub reg.inv_sub heap_dom)
  next
    case (UnsubscribeOp cid ch)
    with assms show ?thesis by (auto simp: reg.view_unsub reg.inv_unsub heap_dom)
  qed
qed

lemma reg_execs_simulate:
  assumes "reg_inv s" and "\<forall>k \<ge> n. fst s k = None" and "adds_ok (reg_view s) ops"
    and "foldl reg_exec (n, s) ops = (n', s')"
  shows "reg_inv s' \<and> reg_view s' = foldl abs_exec (reg_view s) ops"
  using assms
proof (induction ops arbitrary: n s)
  case (Cons x ops)
  obtain n1 s1 where x: "reg_exec (n, s) x = (n1, s1)" by (cases "reg_exec (n, s) x")
  from reg_exec_simulates [OF Cons.prems(1-3) x] Cons.IH [of s1 n1] Cons.prems(4) x
  show ?case by auto
qed simp

section \<open>Properties\<close>

text \<open>C10: The registry implements a map.  After any sequence of add, remove, subscribe and unsubscribe
  calls from an empty registry (each new connection with an unused id and no subscriptions), the
  subscribers of a channel are exactly the registered connections subscribed to it, each once; the
  connection count of a tenant is the number of its registered connections; the number of active
  connections is the number of registered ids.\<close>

theorem registry_refines_map:
  assumes "adds_ok Map.empty ops"
    and "foldl reg_exec (0, Map.empty, empty_registry) ops = (n, h, R)"
    and "m = foldl abs_exec Map.empty ops"
  shows "distinct (local_subscribers R ch) \<and>
    set (map (\<lambda>r. connection_id (the (h r))) (local_subscribers R ch)) =
      {cid. \<exists>a b C. m cid = Some (a, b, C) \<and> ch \<in> C} \<and>
    tenant_connection_count R t = int (card {cid. \<exists>a C. m cid = Some (a, t, C)}) \<and>
    active_count R = int (card (dom m))"
proof -
  have view0: "reg_view (Map.empty, empty_registry) = Map.empty"
    by (auto simp: reg_view_def conn_of_def empty_registry_def)
  have "reg_inv (h, R) \<and> reg_view (h, R) = foldl abs_exec (reg_view (Map.empty, empty_registry)) ops"
    using assms by (intro reg_execs_simulate [where n = 0]) (simp_all add: reg_inv_empty view0)
  then have inv: "reg_inv (h, R)" and view: "reg_view (h, R) = m" by (simp_all add: view0 assms(3))
  have "cid \<in> dom m \<longleftrightarrow> cid \<in> dom (map_of (by_id R))" for cid
    unfolding view [symmetric] using reg_invD(2) [OF inv, of cid]
    by (cases "map_of (by_id R) cid") (auto simp: reg_view_def conn_of_def domIff)
  then have "dom m = fst ` set (by_id R)" by (auto simp: dom_map_of_conv_image_fst)
  then have "card (dom m) = length (by_id R)"
    using reg_invD(1) [OF inv] by (metis distinct_card length_map set_map)
  moreover have "set (map (\<lambda>r. connection_id (the (h r))) (local_subscribers R ch)) =
      {cid. \<exists>a b C. m cid = Some (a, b, C) \<and> ch \<in> C}"
    using reg.ids_view [OF inv, of ch] by (simp only: local_subscribers_ids [OF inv] view)
  moreover have "tenant_connection_count R t = int (card {cid. \<exists>a C. m cid = Some (a, t, C)})"
    using reg.tcount_view [OF inv, of t] by (simp add: view)
  ultimately show ?thesis
    using local_subscribers_distinct [OF inv] by (simp add: active_count_def)
qed

definition demo_ops :: "reg_op list" where
  "demo_ops =
     [AddOp (new_connection ''a'' ''s1'' ''t'' ACTIVE 0), AddOp (new_connection ''b'' ''s2'' ''t'' ACTIVE 0),
      SubscribeOp ''a'' ''ch'', SubscribeOp ''b'' ''ch'', SubscribeOp ''b'' ''ch'', RemoveOp ''a'',
      SubscribeOp ''a'' ''ch'']"

theorem registry_refines_map_witness:
  "\<exists>n h R. foldl reg_exec (0, Map.empty, empty_registry) demo_ops = (n, h, R) \<and>
     active_count R = 1 \<and> tenant_connection_count R ''t'' = 1 \<and>
     set (map (\<lambda>r. connection_id (the (h r))) (local_subscribers R ''ch'')) = {''b''}"
proof -
  obtain n h R where run: "foldl reg_exec (0, Map.empty, empty_registry) demo_ops = (n, h, R)"
    by (cases "foldl reg_exec (0, Map.empty, empty_registry) demo_ops") auto
  have m: "foldl abs_exec Map.empty demo_ops = [''b'' \<mapsto> (''s2'', ''t'', {''ch''})]"
    by (auto simp: demo_ops_def info_def fun_eq_iff)
  have s: "{cid. \<exists>a b C. [''b'' \<mapsto> (''s2'', ''t'', {''ch''})] cid = Some (a, b, C) \<and> ''ch'' \<in> C} = {''b''}"
    "{cid. \<exists>a C. [''b'' \<mapsto> (''s2'', ''t'', {''ch''})] cid = Some (a, ''t'', C)} = {''b''}"
    by (auto split: if_splits)
  have "adds_ok Map.empty demo_ops" by (simp add: demo_ops_def info_def)
  note facts = registry_refines_map [OF this run refl, of "''ch''" "''t''", unfolded m s]
  have "card (dom [''b'' \<mapsto> (''s2'', ''t'', {''ch''})]) = 1" by simp
  then have "active_count R = 1" using facts [THEN conjunct2, THEN conjunct2, THEN conjunct2] by linarith
  moreover have "tenant_connection_count R ''t'' = 1"
    using facts [THEN conjunct2, THEN conjunct2, THEN conjunct1] by simp
  moreover note facts [THEN conjunct2, THEN conjunct1]
  ultimately show ?thesis using run by blast
qed

text \<open>Removing a connection cleans every index.  Under the registry invariant, after \<open>remove\<close> the id
  occurs in no session, tenant or channel set, the id is no longer registered, and the other
  connections keep their entries.\<close>

theorem remove_cleans_indexes:
  assumes "reg_inv (h, R)" and "registry_remove cid (h, R) = (res, h', R')"
  shows "cid \<notin> set (get_set (by_session R') x) \<and> cid \<notin> set (get_set (by_tenant R') x) \<and>
    cid \<notin> set (get_set (by_channel R') x) \<and> registry_get cid (h', R') = None \<and>
    (\<forall>other. other \<noteq> cid \<longrightarrow> reg_view (h', R') other = reg_view (h, R) other) \<and> reg_inv (h', R')"
proof -
  have s: "snd (registry_remove cid (h, R)) = (h', R')" using assms(2) by simp
  have inv: "reg_inv (h', R')" using reg_inv_remove [OF assms(1), of cid] s by simp
  have view: "reg_view (h', R') = (reg_view (h, R))(cid := None)"
    using reg.view_rem [OF assms(1), of cid] s by simp
  then have none: "conn_of (h', R') cid = None" by (metis fun_upd_same map_option_is_None reg_view_def)
  then have "map_of (by_id R') cid = None" using conn_of_ref [OF inv, of cid] by fastforce
  with none view reg_invD(6-8) [OF inv] inv show ?thesis by (simp add: registry_get_def)
qed

theorem remove_cleans_indexes_witness:
  "\<exists>h R res h' R'. reg_inv (h, R) \<and> registry_get ''a'' (h, R) = Some 0 \<and>
     registry_remove ''a'' (h, R) = (res, h', R') \<and> ''a'' \<notin> set (get_set (by_tenant R') ''t'')"
proof -
  let ?c = "new_connection ''a'' ''s'' ''t'' ACTIVE 0"
  let ?s = "registry_add 0 ([0 \<mapsto> ?c], empty_registry)"
  have "reg_inv ?s"
    by (rule reg_inv_add [where c = ?c])
      (simp_all add: reg_inv_empty, simp add: conn_of_def empty_registry_def)
  moreover obtain h R where s: "?s = (h, R)" by (cases ?s)
  moreover obtain res h' R' where "registry_remove ''a'' (h, R) = (res, h', R')"
    by (cases "registry_remove ''a'' (h, R)") auto
  moreover have "registry_get ''a'' ?s = Some 0"
    by (simp add: registry_get_def registry_add_def empty_registry_def)
  ultimately show ?thesis
    using remove_cleans_indexes [of h R "''a''" res h' R' "''t''"] by (metis (no_types))
qed

end
