(* ===== verification/Frames.thy ===== *)
theory Frames
  imports Json
begin

text \<open>
  \<open>packages/protocol/frames.py\<close>: the frames of the client protocol, channel-name validation and the
  error codes.  The frame classes are Pydantic models; Pydantic itself is a parameter of the model,
  the record \<open>pydantic\<close>: its scalar coercions of a JSON value (\<open>py_str\<close>, \<open>py_int\<close>) and its
  serializer (\<open>dump_json\<close>).  What the code relies on of it is the locale \<open>pydantic_lib\<close>; the
  instance \<open>strict_pydantic\<close> shows that the laws can hold.
\<close>

section \<open>Frame types and error codes\<close>

datatype FrameType =
    CONNECT | CONNECTED | PING | PONG | SUBSCRIBE | SUBSCRIBED | UNSUBSCRIBE | UNSUBSCRIBED
  | MESSAGE | ACK | NACK | RESUME | RESUMED | ERROR | DISCONNECT

fun frame_type_value :: "FrameType \<Rightarrow> string" where
  "frame_type_value CONNECT = ''CONNECT''"
| "frame_type_value CONNECTED = ''CONNECTED''"
| "frame_type_value PING = ''PING''"
| "frame_type_value PONG = ''PONG''"
| "frame_type_value SUBSCRIBE = ''SUBSCRIBE''"
| "frame_type_value SUBSCRIBED = ''SUBSCRIBED''"
| "frame_type_value UNSUBSCRIBE = ''UNSUBSCRIBE''"
| "frame_type_value UNSUBSCRIBED = ''UNSUBSCRIBED''"
| "frame_type_value MESSAGE = ''MESSAGE''"
| "frame_type_value ACK = ''ACK''"
| "frame_type_value NACK = ''NACK''"
| "frame_type_value RESUME = ''RESUME''"
| "frame_type_value RESUMED = ''RESUMED''"
| "frame_type_value ERROR = ''ERROR''"
| "frame_type_value DISCONNECT = ''DISCONNECT''"

datatype ErrorCode =
    AUTH_FAILED | CHANNEL_FORBIDDEN | INVALID_CHANNEL | INVALID_FRAME | MESSAGE_TOO_LARGE
  | NOT_CONNECTED | RESUME_WINDOW_EXPIRED | RESUME_GAP | SESSION_NOT_FOUND | SLOW_CONSUMER
  | RATE_LIMITED | UNKNOWN_MESSAGE

fun error_code_value :: "ErrorCode \<Rightarrow> string" where
  "error_code_value AUTH_FAILED = ''AUTH_FAILED''"
| "error_code_value CHANNEL_FORBIDDEN = ''CHANNEL_FORBIDDEN''"
| "error_code_value INVALID_CHANNEL = ''INVALID_CHANNEL''"
| "error_code_value INVALID_FRAME = ''INVALID_FRAME''"
| "error_code_value MESSAGE_TOO_LARGE = ''MESSAGE_TOO_LARGE''"
| "error_code_value NOT_CONNECTED = ''NOT_CONNECTED''"
| "error_code_value RESUME_WINDOW_EXPIRED = ''RESUME_WINDOW_EXPIRED''"
| "error_code_value RESUME_GAP = ''RESUME_GAP''"
| "error_code_value SESSION_NOT_FOUND = ''SESSION_NOT_FOUND''"
| "error_code_value SLOW_CONSUMER = ''SLOW_CONSUMER''"
| "error_code_value RATE_LIMITED = ''RATE_LIMITED''"
| "error_code_value UNKNOWN_MESSAGE = ''UNKNOWN_MESSAGE''"

section \<open>Channel names\<close>

definition MAX_CHANNEL_LENGTH :: nat where
  "MAX_CHANNEL_LENGTH = 200"

definition CHANNEL_SAFE_CHARS :: string where
  "CHANNEL_SAFE_CHARS = ''abcdefghijklmnopqrstuvwxyzABCDEFGHIJKLMNOPQRSTUVWXYZ0123456789:_-.''"

definition validate_channel_name :: "string \<Rightarrow> exn + string" where
  "validate_channel_name channel =
     (if channel = [] then Inl (ValueError ''channel must not be empty'')
      else if length channel > MAX_CHANNEL_LENGTH then
        Inl (ValueError (''channel exceeds max length '' @ show_nat MAX_CHANNEL_LENGTH))
      else if \<not> list_all (\<lambda>c. c \<in> set CHANNEL_SAFE_CHARS) channel then
        Inl (ValueError ''channel contains unsafe characters'')
      else Inr channel)"

section \<open>Frames\<close>

datatype frame =
    ConnectFrame string "string option"
  | ConnectedFrame string string string rat
  | PingFrame string
  | PongFrame
  | SubscribeFrame string
  | SubscribedFrame string
  | UnsubscribeFrame string
  | UnsubscribedFrame string
  | MessageFrame string string int string json
  | AckFrame string int
  | NackFrame string string string
  | ResumeFrame string "(string \<times> int) list"
  | ResumedFrame string "(string \<times> int) list" "string list"
  | ErrorFrame string string
  | DisconnectFrame string

fun frame_type :: "frame \<Rightarrow> FrameType" where
  "frame_type (ConnectFrame _ _) = CONNECT"
| "frame_type (ConnectedFrame _ _ _ _) = CONNECTED"
| "frame_type (PingFrame _) = PING"
| "frame_type PongFrame = PONG"
| "frame_type (SubscribeFrame _) = SUBSCRIBE"
| "frame_type (SubscribedFrame _) = SUBSCRIBED"
| "frame_type (UnsubscribeFrame _) = UNSUBSCRIBE"
| "frame_type (UnsubscribedFrame _) = UNSUBSCRIBED"
| "frame_type (MessageFrame _ _ _ _ _) = MESSAGE"
| "frame_type (AckFrame _ _) = ACK"
| "frame_type (NackFrame _ _ _) = NACK"
| "frame_type (ResumeFrame _ _) = RESUME"
| "frame_type (ResumedFrame _ _ _) = RESUMED"
| "frame_type (ErrorFrame _ _) = ERROR"
| "frame_type (DisconnectFrame _) = DISCONNECT"

text \<open>The declared fields of each frame, in the order of the class body.\<close>

fun frame_fields :: "(rat \<Rightarrow> string) \<Rightarrow> frame \<Rightarrow> (string \<times> json) list" where
  "frame_fields fl (ConnectFrame token session_id) =
     [(''token'', JStr token), (''session_id'', case session_id of None \<Rightarrow> JNull | Some s \<Rightarrow> JStr s)]"
| "frame_fields fl (ConnectedFrame connection_id session_id node_id interval) =
     [(''connection_id'', JStr connection_id), (''session_id'', JStr session_id),
      (''node_id'', JStr node_id), (''heartbeat_interval_seconds'', JFloat (fl interval))]"
| "frame_fields fl (PingFrame server_time) = [(''server_time'', JStr server_time)]"
| "frame_fields fl PongFrame = []"
| "frame_fields fl (SubscribeFrame channel) = [(''channel'', JStr channel)]"
| "frame_fields fl (SubscribedFrame channel) = [(''channel'', JStr channel)]"
| "frame_fields fl (UnsubscribeFrame channel) = [(''channel'', JStr channel)]"
| "frame_fields fl (UnsubscribedFrame channel) = [(''channel'', JStr channel)]"
| "frame_fields fl (MessageFrame message_id channel sequence timestamp payload) =
     [(''message_id'', JStr message_id), (''channel'', JStr channel), (''sequence'', JInt sequence),
      (''timestamp'', JStr timestamp), (''payload'', payload)]"
| "frame_fields fl (AckFrame channel sequence) =
     [(''channel'', JStr channel), (''sequence'', JInt sequence)]"
| "frame_fields fl (NackFrame channel message_id reason) =
     [(''channel'', JStr channel), (''message_id'', JStr message_id), (''reason'', JStr reason)]"
| "frame_fields fl (ResumeFrame session_id last_ack) =
     [(''session_id'', JStr session_id),
      (''last_ack_by_channel'', JObj (map (\<lambda>(c, n). (c, JInt n)) last_ack))]"
| "frame_fields fl (ResumedFrame session_id replayed gaps) =
     [(''session_id'', JStr session_id),
      (''replayed_by_channel'', JObj (map (\<lambda>(c, n). (c, JInt n)) replayed)),
      (''gaps'', JArr (map JStr gaps))]"
| "frame_fields fl (ErrorFrame code message) = [(''code'', JStr code), (''message'', JStr message)]"
| "frame_fields fl (DisconnectFrame reason) = [(''reason'', JStr reason)]"

definition frame_json :: "(rat \<Rightarrow> string) \<Rightarrow> frame \<Rightarrow> json" where
  "frame_json fl f = JObj ((''type'', JStr (frame_type_value (frame_type f))) # frame_fields fl f)"

section \<open>Pydantic, a parameter of the model\<close>

text \<open>
  \<open>py_str\<close> and \<open>py_int\<close> validate a JSON value against \<open>str\<close> and \<open>int\<close> (\<open>None\<close> is a
  \<open>ValidationError\<close>); \<open>dump_json\<close> is \<open>model_dump_json\<close>; \<open>err_text\<close> is the text of a
  \<open>ValidationError\<close>; \<open>float_text\<close> renders a float.
\<close>

record pydantic =
  py_str :: "json \<Rightarrow> string option"
  py_int :: "json \<Rightarrow> int option"
  dump_json :: "frame \<Rightarrow> string"
  float_text :: "rat \<Rightarrow> string"

text \<open>Reading a required field of the raw object, and the models the server parses.\<close>

definition field_str :: "pydantic \<Rightarrow> (string \<times> json) list \<Rightarrow> string \<Rightarrow> exn + string" where
  "field_str P raw k =
     (case Option.bind (jget raw k) (py_str P) of
        None \<Rightarrow> Inl (ValidationError k) | Some s \<Rightarrow> Inr s)"

definition field_int :: "pydantic \<Rightarrow> (string \<times> json) list \<Rightarrow> string \<Rightarrow> exn + int" where
  "field_int P raw k =
     (case Option.bind (jget raw k) (py_int P) of
        None \<Rightarrow> Inl (ValidationError k) | Some n \<Rightarrow> Inr n)"

text \<open>\<open>SubscribeFrame(**raw)\<close>: the field validator turns its \<open>ValueError\<close> into a
  \<open>ValidationError\<close>.\<close>

definition parse_subscribe :: "pydantic \<Rightarrow> (string \<times> json) list \<Rightarrow> exn + frame" where
  "parse_subscribe P raw =
     (case field_str P raw ''channel'' of
        Inl e \<Rightarrow> Inl e
      | Inr v \<Rightarrow>
          (case validate_channel_name v of
             Inl (ValueError m) \<Rightarrow> Inl (ValidationError m)
           | Inl e \<Rightarrow> Inl e
           | Inr c \<Rightarrow> Inr (SubscribeFrame c)))"

definition parse_unsubscribe :: "pydantic \<Rightarrow> (string \<times> json) list \<Rightarrow> exn + frame" where
  "parse_unsubscribe P raw =
     (case field_str P raw ''channel'' of Inl e \<Rightarrow> Inl e | Inr v \<Rightarrow> Inr (UnsubscribeFrame v))"

definition parse_ack :: "pydantic \<Rightarrow> (string \<times> json) list \<Rightarrow> exn + frame" where
  "parse_ack P raw =
     (case field_str P raw ''channel'' of
        Inl e \<Rightarrow> Inl e
      | Inr c \<Rightarrow>
          (case field_int P raw ''sequence'' of
             Inl e \<Rightarrow> Inl e | Inr n \<Rightarrow> Inr (AckFrame c n)))"

text \<open>\<open>dict[str, int]\<close>, in the order of the object; the default is the empty dict.\<close>

fun int_members :: "pydantic \<Rightarrow> (string \<times> json) list \<Rightarrow> (string \<times> int) list option" where
  "int_members P [] = Some []"
| "int_members P ((k, v) # kvs) =
     (case (py_int P v, int_members P kvs) of
        (Some n, Some ns) \<Rightarrow> Some ((k, n) # ns) | _ \<Rightarrow> None)"

definition parse_resume :: "pydantic \<Rightarrow> (string \<times> json) list \<Rightarrow> exn + frame" where
  "parse_resume P raw =
     (case field_str P raw ''session_id'' of
        Inl e \<Rightarrow> Inl e
      | Inr s \<Rightarrow>
          (case jget raw ''last_ack_by_channel'' of
             None \<Rightarrow> Inr (ResumeFrame s [])
           | Some (JObj kvs) \<Rightarrow>
               (case int_members P kvs of
                  None \<Rightarrow> Inl (ValidationError ''last_ack_by_channel'')
                | Some ns \<Rightarrow> Inr (ResumeFrame s ns))
           | Some _ \<Rightarrow> Inl (ValidationError ''last_ack_by_channel'')))"

text \<open>Documented behaviour of Pydantic the code relies on.\<close>

locale pydantic_lib =
  fixes P :: pydantic
  assumes str_ok: "py_str P (JStr s) = Some s"
    and str_only: "py_str P v = Some s \<Longrightarrow> v = JStr s"
    and int_ok: "py_int P (JInt n) = Some n"
    and dump_loads: "wf_json (frame_json (float_text P) f) \<Longrightarrow>
           json_loads (dump_json P f) = Some (frame_json (float_text P) f)"
begin

lemma parse_ack_ok:
  "jget raw ''channel'' = Some (JStr c) \<Longrightarrow> jget raw ''sequence'' = Some (JInt n) \<Longrightarrow>
     parse_ack P raw = Inr (AckFrame c n)"
  by (simp add: parse_ack_def field_str_def field_int_def str_ok int_ok)

lemma parse_unsubscribe_ok:
  "jget raw ''channel'' = Some (JStr c) \<Longrightarrow> parse_unsubscribe P raw = Inr (UnsubscribeFrame c)"
  by (simp add: parse_unsubscribe_def field_str_def str_ok)

lemma parse_subscribe_ok:
  "jget raw ''channel'' = Some (JStr c) \<Longrightarrow> validate_channel_name c = Inr c \<Longrightarrow>
     parse_subscribe P raw = Inr (SubscribeFrame c)"
  by (simp add: parse_subscribe_def field_str_def str_ok)

lemma int_members_ints: "int_members P (map (\<lambda>(c, n). (c, JInt n)) acks) = Some acks"
  by (induction acks) (auto simp: int_ok)

end

text \<open>An instance: validation without coercion, compact serialization.\<close>

definition strict_pydantic :: pydantic where
  "strict_pydantic =
     \<lparr> py_str = (\<lambda>v. case v of JStr s \<Rightarrow> Some s | _ \<Rightarrow> None),
       py_int = (\<lambda>v. case v of JInt n \<Rightarrow> Some n | _ \<Rightarrow> None),
       dump_json = (\<lambda>f. dumps '','' '':'' (frame_json (\<lambda>q. show_int (floor q) @ ''.0'') f)),
       float_text = (\<lambda>q. show_int (floor q) @ ''.0'') \<rparr>"

interpretation strict: pydantic_lib strict_pydantic
proof unfold_locales
  show "py_str strict_pydantic v = Some s \<Longrightarrow> v = JStr s" for v s
    by (auto simp: strict_pydantic_def split: json.splits)
qed (simp_all add: strict_pydantic_def loads_dumps)

section \<open>Lemmas\<close>

text \<open>A validated name is safe to embed in a Redis key: exactly the strings of the documented
  grammar are accepted, unchanged.\<close>

lemma validate_channel_name_Inr_iff:
  "validate_channel_name c = Inr d \<longleftrightarrow>
     d = c \<and> c \<noteq> [] \<and> length c \<le> 200 \<and> set c \<subseteq> set CHANNEL_SAFE_CHARS"
  by (auto simp: validate_channel_name_def MAX_CHANNEL_LENGTH_def list_all_iff)

lemma validate_channel_name_same: "validate_channel_name c = Inr d \<Longrightarrow> d = c"
  by (simp add: validate_channel_name_Inr_iff)

lemma validate_channel_name_error:
  "validate_channel_name c = Inl e \<Longrightarrow> \<exists>m. e = ValueError m"
  by (auto simp: validate_channel_name_def split: if_splits)

lemma parse_subscribe_Inr_iff:
  "parse_subscribe P raw = Inr f \<longleftrightarrow>
     (\<exists>c. field_str P raw ''channel'' = Inr c \<and> validate_channel_name c = Inr c \<and> f = SubscribeFrame c)"
  by (auto simp: parse_subscribe_def split: sum.splits exn.splits dest: validate_channel_name_same)

lemma parse_subscribe_error:
  "parse_subscribe P raw = Inl e \<Longrightarrow> \<exists>m. e = ValidationError m"
  by (auto simp: parse_subscribe_def field_str_def
      split: sum.splits exn.splits option.splits dest: validate_channel_name_error)

lemma frame_type_value_inject [simp]: "frame_type_value a = frame_type_value b \<longleftrightarrow> a = b"
  by (cases a; cases b) simp_all

lemma wf_frame_json_MessageFrame:
  "wf_json payload \<Longrightarrow> wf_json (frame_json fl (MessageFrame m c n t payload))"
  by (simp add: frame_json_def)

end
