(* ===== verification/World.thy ===== *)
theory World
  imports Registry Redis_Client Frames Observability
begin

text \<open>
  The state of one gateway process, for the components that change more than one part of it: the
  Redis service and the WebSocket library (parameters of the model, each with its own state), the
  heap of connections with the registry, the subscription manager with its listener tasks, the
  counters, the tasks started to terminate slow consumers, and the connections whose sender and
  heartbeat tasks are running.  A connection object lives at the heap
  address that is also the identity of its socket.  Log lines are not modelled.
\<close>

section \<open>Sockets\<close>

datatype ws_call = WsAccept | WsSend string | WsClose "int option" | WsReceive

datatype ws_reply = WsDone | WsJson json

record 'w sockets =
  ws_exec :: "nat \<Rightarrow> ws_call \<Rightarrow> ('w, ws_reply) io"

text \<open>A recording instance: every call is written down, a receive takes the next frame of the script of
  the socket and raises when there is none.\<close>

record wire =
  wire_calls :: "(nat \<times> ws_call) list"
  wire_input :: "json list"

fun wire_exec :: "nat \<Rightarrow> ws_call \<Rightarrow> (wire, ws_reply) io" where
  "wire_exec ws WsReceive v =
     (case wire_input v of
        [] \<Rightarrow> (Inl WebSocketDisconnect, v)
      | j # js \<Rightarrow> (Inr (WsJson j), v\<lparr>wire_input := js\<rparr>))"
| "wire_exec ws call v = (Inr WsDone, v\<lparr>wire_calls := wire_calls v @ [(ws, call)]\<rparr>)"

definition wire_sockets :: "wire sockets" where
  "wire_sockets = \<lparr>ws_exec = wire_exec\<rparr>"

section \<open>Process state\<close>

text \<open>A listener task: its channel, its stop event, whether it was cancelled, whether it has ended.\<close>

record listener_task =
  lt_channel :: string
  lt_stop :: bool
  lt_cancelled :: bool
  lt_done :: bool

record sub_mgr =
  sm_node_id :: string
  sm_listeners :: "string \<rightharpoonup> nat"
  sm_counts :: "string \<rightharpoonup> int"
  sm_tasks :: "listener_task list"

record ('r, 'w) world =
  w_redis :: 'r
  w_ws :: 'w
  w_heap :: heap
  w_reg :: conn_registry
  w_subs :: sub_mgr
  w_metrics :: metrics
  w_spawned :: "nat list"
  w_tasks :: "nat list"

definition new_sub_mgr :: "string \<Rightarrow> sub_mgr" where
  "new_sub_mgr nid = \<lparr>sm_node_id = nid, sm_listeners = Map.empty, sm_counts = Map.empty, sm_tasks = []\<rparr>"

definition new_world :: "string \<Rightarrow> 'r \<Rightarrow> 'w \<Rightarrow> ('r, 'w) world" where
  "new_world nid r v =
     \<lparr>w_redis = r, w_ws = v, w_heap = Map.empty, w_reg = empty_registry, w_subs = new_sub_mgr nid,
      w_metrics = no_metrics, w_spawned = [], w_tasks = []\<rparr>"

section \<open>Effects on a part of the state\<close>

definition redisE :: "('r, 'a) io \<Rightarrow> (('r, 'w) world, 'a) io" where
  "redisE m w = (case m (w_redis w) of (x, r) \<Rightarrow> (x, w\<lparr>w_redis := r\<rparr>))"

definition wsE :: "'w sockets \<Rightarrow> nat \<Rightarrow> ws_call \<Rightarrow> (('r, 'w) world, ws_reply) io" where
  "wsE W ws call w = (case ws_exec W ws call (w_ws w) of (x, v) \<Rightarrow> (x, w\<lparr>w_ws := v\<rparr>))"

definition send_frame :: "'w sockets \<Rightarrow> pydantic \<Rightarrow> nat \<Rightarrow> frame \<Rightarrow> (('r, 'w) world, unit) io" where
  "send_frame W P ws f = thenE (wsE W ws (WsSend (dump_json P f))) (returnE ())"

definition close_ws :: "'w sockets \<Rightarrow> nat \<Rightarrow> int option \<Rightarrow> (('r, 'w) world, unit) io" where
  "close_ws W ws code = thenE (wsE W ws (WsClose code)) (returnE ())"

definition regE :: "(reg_state \<Rightarrow> reg_state) \<Rightarrow> (('r, 'w) world, unit) io" where
  "regE f w = (case f (w_heap w, w_reg w) of (h, R) \<Rightarrow> (Inr (), w\<lparr>w_heap := h, w_reg := R\<rparr>))"

definition connE :: "nat \<Rightarrow> (connection, 'a) io \<Rightarrow> (('r, 'w) world, 'a) io" where
  "connE ws m w =
     (case w_heap w ws of
        None \<Rightarrow> (Inl AttributeError, w)
      | Some c \<Rightarrow> (case m c of (x, c') \<Rightarrow> (x, w\<lparr>w_heap := (w_heap w)(ws \<mapsto> c')\<rparr>)))"

definition update_conn :: "nat \<Rightarrow> (connection \<Rightarrow> connection) \<Rightarrow> (('r, 'w) world, unit) io" where
  "update_conn ws f = connE ws (modifyE f)"

definition subsE :: "(sub_mgr \<Rightarrow> sub_mgr) \<Rightarrow> (('r, 'w) world, unit) io" where
  "subsE f = modifyE (\<lambda>w. w\<lparr>w_subs := f (w_subs w)\<rparr>)"

definition metric_add :: "string \<Rightarrow> int \<Rightarrow> (('r, 'w) world, unit) io" where
  "metric_add name n = modifyE (\<lambda>w. w\<lparr>w_metrics := (w_metrics w)(name := metric_plus (w_metrics w name) n)\<rparr>)"

definition metric_set :: "string \<Rightarrow> int \<Rightarrow> (('r, 'w) world, unit) io" where
  "metric_set name n = modifyE (\<lambda>w. w\<lparr>w_metrics := (w_metrics w)(name := MInt n)\<rparr>)"

definition time_now :: "'r redis \<Rightarrow> (('r, 'w) world, time) io" where
  "time_now X = getE (\<lambda>w. rclock X (w_redis w))"

end
