(* ===== verification/Subscriptions.thy ===== *)
theory Subscriptions
  imports World
begin

text \<open>
  \<open>apps/gateway/rooms/subscriptions.py\<close>: the subscription manager of a node, which counts the local
  subscribers of a channel and keeps one listener task per channel while there are any.  The listener
  itself is \<open>run_pubsub_listener\<close> of the fanout; here a task is created, told to stop and cancelled.
  \<open>sub_event\<close> are the calls of the manager and the end of a task on its own, in any order and with
  any outcome of the Redis calls, one call after the other; \<open>sub_step\<close> cuts the calls at their awaits and
  interleaves them.
\<close>

section \<open>Operations\<close>

definition get_count :: "sub_mgr \<Rightarrow> string \<Rightarrow> int" where
  "get_count m ch = (case sm_counts m ch of None \<Rightarrow> 0 | Some n \<Rightarrow> n)"

text \<open>The second half of \<open>on_local_subscribe\<close>: a task when there is none, or when the last one has ended.\<close>

definition ensure_listener :: "string \<Rightarrow> sub_mgr \<Rightarrow> sub_mgr" where
  "ensure_listener ch m =
     (let start = m\<lparr>sm_tasks := sm_tasks m @ [\<lparr>lt_channel = ch, lt_stop = False, lt_cancelled = False, lt_done = False\<rparr>],
                    sm_listeners := (sm_listeners m)(ch \<mapsto> length (sm_tasks m))\<rparr>
      in case sm_listeners m ch of
           None \<Rightarrow> start
         | Some i \<Rightarrow> if lt_done (sm_tasks m ! i) then start else m)"

definition on_local_subscribe :: "'r redis \<Rightarrow> settings \<Rightarrow> string \<Rightarrow> (('r, 'w) world, unit) io" where
  "on_local_subscribe X cfg channel =
     thenE (subsE (\<lambda>m. m\<lparr>sm_counts := (sm_counts m)(channel \<mapsto> get_count m channel + 1)\<rparr>))
    (bindE (getE (\<lambda>w. sm_node_id (w_subs w))) (\<lambda>nid.
     thenE (redisE (rcall X (SADD (room_nodes_key channel) nid)))
    (thenE (redisE (rcall X (EXPIRE (room_nodes_key channel) (node_ttl_seconds cfg * 3))))
           (subsE (ensure_listener channel)))))"

definition stop_task :: "nat \<Rightarrow> listener_task list \<Rightarrow> listener_task list" where
  "stop_task i ts = ts[i := (ts ! i)\<lparr>lt_stop := True, lt_cancelled := True\<rparr>]"

definition drop_listener :: "string \<Rightarrow> sub_mgr \<Rightarrow> sub_mgr" where
  "drop_listener ch m =
     (let m1 = m\<lparr>sm_counts := (sm_counts m)(ch := None)\<rparr>
      in case sm_listeners m ch of
           None \<Rightarrow> m1
         | Some i \<Rightarrow> m1\<lparr>sm_listeners := (sm_listeners m)(ch := None), sm_tasks := stop_task i (sm_tasks m)\<rparr>)"

definition on_local_unsubscribe :: "'r redis \<Rightarrow> string \<Rightarrow> (('r, 'w) world, unit) io" where
  "on_local_unsubscribe X channel =
     bindE (getE w_subs) (\<lambda>m.
       let count = get_count m channel - 1
       in if count \<le> 0 then
            thenE (subsE (drop_listener channel))
           (thenE (redisE (rcall X (SREM (room_nodes_key channel) (sm_node_id m)))) (returnE ()))
          else subsE (\<lambda>m. m\<lparr>sm_counts := (sm_counts m)(channel \<mapsto> count)\<rparr>))"

definition sub_shutdown :: "string list \<Rightarrow> sub_mgr \<Rightarrow> sub_mgr" where
  "sub_shutdown chs m =
     m\<lparr>sm_tasks := foldl (\<lambda>ts ch. case sm_listeners m ch of None \<Rightarrow> ts | Some i \<Rightarrow> stop_task i ts) (sm_tasks m) chs,
       sm_listeners := Map.empty\<rparr>"

text \<open>\<open>get_subscription_manager\<close>: created on the first call.\<close>

definition get_subscription_manager :: "settings \<Rightarrow> sub_mgr option \<Rightarrow> sub_mgr" where
  "get_subscription_manager cfg m = (case m of None \<Rightarrow> new_sub_mgr (node_id cfg) | Some m' \<Rightarrow> m')"

section \<open>The manager alone\<close>

text \<open>What the calls do to the manager: all of it, or only the first part when Redis raises.\<close>

datatype sub_event =
    Subscribed string bool
  | Unsubscribed string
  | TaskEnded nat

definition count_up :: "string \<Rightarrow> sub_mgr \<Rightarrow> sub_mgr" where
  "count_up ch m = m\<lparr>sm_counts := (sm_counts m)(ch \<mapsto> get_count m ch + 1)\<rparr>"

definition count_down :: "string \<Rightarrow> sub_mgr \<Rightarrow> sub_mgr" where
  "count_down ch m =
     (if get_count m ch - 1 \<le> 0 then drop_listener ch m
      else m\<lparr>sm_counts := (sm_counts m)(ch \<mapsto> get_count m ch - 1)\<rparr>)"

fun sub_exec :: "sub_mgr \<Rightarrow> sub_event \<Rightarrow> sub_mgr" where
  "sub_exec m (Subscribed ch ok) = (if ok then ensure_listener ch (count_up ch m) else count_up ch m)"
| "sub_exec m (Unsubscribed ch) = count_down ch m"
| "sub_exec m (TaskEnded i) =
     (if i < length (sm_tasks m) then m\<lparr>sm_tasks := (sm_tasks m)[i := (sm_tasks m ! i)\<lparr>lt_done := True\<rparr>]\<rparr> else m)"

lemma redisE_run: "redisE m w = (fst (m (w_redis w)), w\<lparr>w_redis := snd (m (w_redis w))\<rparr>)"
  by (simp add: redisE_def split: prod.split)

lemma redisE_keeps [simp]:
  "w_subs (snd (redisE m w)) = w_subs w" "w_heap (snd (redisE m w)) = w_heap w"
  "w_reg (snd (redisE m w)) = w_reg w" "w_ws (snd (redisE m w)) = w_ws w"
  "w_redis (snd (redisE m w)) = snd (m (w_redis w))" "w_metrics (snd (redisE m w)) = w_metrics w"
  by (simp_all add: redisE_run)

lemma on_local_subscribe_subs:
  assumes "on_local_subscribe X cfg ch w = (x, w')"
  shows "w_subs w' = sub_exec (w_subs w) (Subscribed ch (x = Inr ())) \<and> w_heap w' = w_heap w \<and> w_reg w' = w_reg w"
  using assms
  by (auto simp: on_local_subscribe_def thenE_def bindE_def subsE_def redisE_run count_up_def split: sum.splits)

lemma on_local_unsubscribe_subs:
  assumes "on_local_unsubscribe X ch w = (x, w')"
  shows "w_subs w' = sub_exec (w_subs w) (Unsubscribed ch) \<and> w_heap w' = w_heap w \<and> w_reg w' = w_reg w"
  using assms
  by (auto simp: on_local_unsubscribe_def thenE_def bindE_def subsE_def redisE_run count_down_def Let_def
      split: sum.splits if_splits)

section \<open>Invariant\<close>

definition running :: "sub_mgr \<Rightarrow> string \<Rightarrow> nat \<Rightarrow> bool" where
  "running m ch i =
     (i < length (sm_tasks m) \<and> lt_channel (sm_tasks m ! i) = ch \<and>
      \<not> lt_cancelled (sm_tasks m ! i) \<and> \<not> lt_done (sm_tasks m ! i))"

definition sub_inv :: "sub_mgr \<Rightarrow> bool" where
  "sub_inv m =
     ((\<forall>ch i. sm_listeners m ch = Some i \<longrightarrow>
         i < length (sm_tasks m) \<and> lt_channel (sm_tasks m ! i) = ch \<and> \<not> lt_cancelled (sm_tasks m ! i) \<and>
         sm_counts m ch \<noteq> None) \<and>
      (\<forall>ch i. running m ch i \<longrightarrow> sm_listeners m ch = Some i) \<and>
      (\<forall>ch n. sm_counts m ch = Some n \<longrightarrow> 1 \<le> n))"

lemma sub_inv_new: "sub_inv (new_sub_mgr nid)"
  by (simp add: sub_inv_def new_sub_mgr_def running_def)

text \<open>The part of it that concerns the listeners; the other part is that a listener in the dict has a count.\<close>

definition listener_inv :: "sub_mgr \<Rightarrow> bool" where
  "listener_inv m =
     ((\<forall>ch i. sm_listeners m ch = Some i \<longrightarrow>
         i < length (sm_tasks m) \<and> lt_channel (sm_tasks m ! i) = ch \<and> \<not> lt_cancelled (sm_tasks m ! i)) \<and>
      (\<forall>ch i. running m ch i \<longrightarrow> sm_listeners m ch = Some i) \<and>
      (\<forall>ch n. sm_counts m ch = Some n \<longrightarrow> 1 \<le> n))"

definition counted :: "sub_mgr \<Rightarrow> bool" where
  "counted m = (\<forall>ch. sm_listeners m ch \<noteq> None \<longrightarrow> sm_counts m ch \<noteq> None)"

lemma sub_inv_iff: "sub_inv m \<longleftrightarrow> listener_inv m \<and> counted m"
  unfolding sub_inv_def listener_inv_def counted_def by fast

lemma running_counts [simp]: "running (m\<lparr>sm_counts := c\<rparr>) ch i = running m ch i"
  by (simp add: running_def)

lemma listener_inv_count_up: "listener_inv m \<Longrightarrow> listener_inv (count_up ch m)"
  by (force simp: listener_inv_def count_up_def running_def get_count_def split: option.splits if_splits)

lemma listener_inv_ensure:
  assumes "listener_inv m"
  shows "listener_inv (ensure_listener ch m)"
proof (cases "\<exists>i. sm_listeners m ch = Some i \<and> \<not> lt_done (sm_tasks m ! i)")
  case True
  then have "ensure_listener ch m = m" by (auto simp: ensure_listener_def)
  with assms show ?thesis by simp
next
  case False
  let ?t = "\<lparr>lt_channel = ch, lt_stop = False, lt_cancelled = False, lt_done = False\<rparr>"
  have e: "ensure_listener ch m =
      m\<lparr>sm_tasks := sm_tasks m @ [?t], sm_listeners := (sm_listeners m)(ch \<mapsto> length (sm_tasks m))\<rparr>"
    using False by (auto simp: ensure_listener_def Let_def split: option.splits)
  have no: "\<not> running m ch i" for i using assms False by (auto simp: listener_inv_def running_def)
  have run: "running (ensure_listener ch m) c i \<longleftrightarrow> running m c i \<or> c = ch \<and> i = length (sm_tasks m)" for c i
    by (auto simp: e running_def nth_append less_Suc_eq)
  show ?thesis
    unfolding listener_inv_def run using assms no
    by (auto simp: e listener_inv_def nth_append less_SucI split: if_splits)
qed

lemma listener_inv_drop:
  assumes "listener_inv m"
  shows "listener_inv (drop_listener ch m)"
proof (cases "sm_listeners m ch")
  case None
  then have "\<not> running m ch i" for i using assms by (auto simp: listener_inv_def)
  with assms None show ?thesis by (auto simp: listener_inv_def drop_listener_def running_def Let_def)
next
  case (Some i)
  with assms have i: "i < length (sm_tasks m)" "lt_channel (sm_tasks m ! i) = ch" by (auto simp: listener_inv_def)
  have other: "j \<noteq> i" if "sm_listeners m c = Some j" "c \<noteq> ch" for c j
    using that assms i by (auto simp: listener_inv_def)
  have run: "running (drop_listener ch m) c j \<longleftrightarrow> running m c j \<and> j \<noteq> i" for c j
    using Some i by (auto simp: running_def drop_listener_def stop_task_def nth_list_update Let_def)
  have "c \<noteq> ch" if "running m c j" "j \<noteq> i" for c j using that assms Some by (auto simp: listener_inv_def)
  with assms Some i other show ?thesis
    unfolding listener_inv_def run
    by (auto simp: drop_listener_def stop_task_def listener_inv_def nth_list_update Let_def split: if_splits)
qed

lemma listener_inv_set_count: "listener_inv m \<Longrightarrow> 1 \<le> n \<Longrightarrow> listener_inv (m\<lparr>sm_counts := (sm_counts m)(ch \<mapsto> n)\<rparr>)"
  by (auto simp: listener_inv_def)

lemma listener_inv_ended:
  assumes "listener_inv m" and "i < length (sm_tasks m)"
  shows "listener_inv (m\<lparr>sm_tasks := (sm_tasks m)[i := (sm_tasks m ! i)\<lparr>lt_done := True\<rparr>]\<rparr>)" (is "listener_inv ?m")
proof -
  have "running ?m c j \<Longrightarrow> running m c j" for c j
    using assms(2) by (simp add: running_def nth_list_update split: if_splits)
  then show ?thesis using assms unfolding listener_inv_def by (auto simp: nth_list_update)
qed

lemma listener_inv_count_down: "listener_inv m \<Longrightarrow> listener_inv (count_down ch m)"
  using listener_inv_drop listener_inv_set_count by (simp add: count_down_def)

lemma listener_inv_exec: "listener_inv m \<Longrightarrow> listener_inv (sub_exec m e)"
  by (cases e) (simp_all add: listener_inv_count_up listener_inv_ensure listener_inv_count_down listener_inv_ended)

lemma counts_listeners [simp]:
  "sm_listeners (count_up ch m) = sm_listeners m" "sm_counts (count_up ch m) = (sm_counts m)(ch \<mapsto> get_count m ch + 1)"
  "sm_counts (ensure_listener ch m) = sm_counts m" "sm_counts (drop_listener ch m) = (sm_counts m)(ch := None)"
  "sm_listeners (drop_listener ch m) = (sm_listeners m)(ch := None)"
  by (auto simp: count_up_def ensure_listener_def drop_listener_def Let_def fun_eq_iff split: option.split)

lemma ensure_listeners: "c \<noteq> ch \<Longrightarrow> sm_listeners (ensure_listener ch m) c = sm_listeners m c"
  by (auto simp: ensure_listener_def Let_def split: option.split)

lemma sub_inv_count_up: "sub_inv m \<Longrightarrow> sub_inv (count_up ch m)"
  by (simp add: sub_inv_iff listener_inv_count_up) (simp add: counted_def)

lemma sub_inv_ensure: "sub_inv m \<Longrightarrow> sm_counts m ch \<noteq> None \<Longrightarrow> sub_inv (ensure_listener ch m)"
  unfolding sub_inv_iff counted_def using listener_inv_ensure ensure_listeners by (metis counts_listeners(3))

lemma sub_inv_drop: "sub_inv m \<Longrightarrow> sub_inv (drop_listener ch m)"
  by (simp add: sub_inv_iff listener_inv_drop) (simp add: counted_def)

lemma sub_inv_set_count: "sub_inv m \<Longrightarrow> 1 \<le> n \<Longrightarrow> sub_inv (m\<lparr>sm_counts := (sm_counts m)(ch \<mapsto> n)\<rparr>)"
  by (simp add: sub_inv_iff listener_inv_set_count) (simp add: counted_def)

lemma sub_inv_ended:
  "sub_inv m \<Longrightarrow> i < length (sm_tasks m) \<Longrightarrow> sub_inv (m\<lparr>sm_tasks := (sm_tasks m)[i := (sm_tasks m ! i)\<lparr>lt_done := True\<rparr>]\<rparr>)"
  by (simp add: sub_inv_iff listener_inv_ended) (simp add: counted_def)

lemma sub_inv_exec: "sub_inv m \<Longrightarrow> sub_inv (sub_exec m e)"
proof (cases e)
  case (Subscribed ch ok)
  assume "sub_inv m"
  then show ?thesis
    using Subscribed sub_inv_count_up [of m ch] sub_inv_ensure [of "count_up ch m" ch]
    by (simp add: count_up_def)
next
  case (Unsubscribed ch)
  assume "sub_inv m"
  then show ?thesis
    using Unsubscribed sub_inv_drop [of m ch] sub_inv_set_count [of m "get_count m ch - 1" ch]
    by (simp add: count_down_def)
next
  case (TaskEnded i)
  assume "sub_inv m"
  then show ?thesis using TaskEnded sub_inv_ended [of m i] by simp
qed

lemma sub_inv_execs: "sub_inv m \<Longrightarrow> sub_inv (foldl sub_exec m es)"
  by (induction es arbitrary: m) (auto intro: sub_inv_exec)

text \<open>The specification of the counter, and of the listener when nothing fails.\<close>

fun abs_count :: "string \<Rightarrow> nat \<Rightarrow> sub_event \<Rightarrow> nat" where
  "abs_count ch n (Subscribed c _) = (if c = ch then n + 1 else n)"
| "abs_count ch n (Unsubscribed c) = (if c = ch then n - 1 else n)"
| "abs_count ch n (TaskEnded _) = n"

fun undisturbed :: "sub_event \<Rightarrow> bool" where
  "undisturbed (Subscribed _ ok) = ok"
| "undisturbed (Unsubscribed _) = True"
| "undisturbed (TaskEnded _) = False"

lemma get_count_exec:
  assumes "sub_inv m"
  shows "get_count (sub_exec m e) ch = int (abs_count ch (nat (get_count m ch)) e) \<and> 0 \<le> get_count m ch"
proof -
  have "0 \<le> get_count m c" for c using assms by (force simp: sub_inv_def get_count_def split: option.splits)
  then show ?thesis
    by (cases e) (auto simp: get_count_def count_up_def count_down_def ensure_listener_def drop_listener_def
        Let_def split: option.splits)
qed

lemma get_count_execs:
  assumes "sub_inv m"
  shows "get_count (foldl sub_exec m es) ch = int (foldl (abs_count ch) (nat (get_count m ch)) es)"
  using assms
proof (induction es arbitrary: m)
  case Nil
  then show ?case using get_count_exec [of m "TaskEnded 0" ch] by simp
next
  case (Cons e es)
  then show ?case using get_count_exec [of m e ch] sub_inv_exec [of m e] by simp
qed

text \<open>Without Redis errors and crashed tasks, a channel with subscribers has a running listener.\<close>

definition served :: "sub_mgr \<Rightarrow> bool" where
  "served m = ((\<forall>ch. sm_counts m ch \<noteq> None \<longrightarrow> (\<exists>i. running m ch i)) \<and> (\<forall>t \<in> set (sm_tasks m). \<not> lt_done t))"

lemma served_exec:
  assumes "sub_inv m" and "served m" and "undisturbed e"
  shows "served (sub_exec m e)"
proof (cases e)
  case (Subscribed ch ok)
  with assms(3) have ok: "ok" by simp
  have notdone: "\<not> lt_done (sm_tasks m ! i)" if "sm_listeners m ch = Some i" for i
    using that assms(1,2) by (auto simp: served_def sub_inv_def)
  have r: "running (count_up ch m) c i = running m c i" for c i by (simp add: count_up_def running_def)
  show ?thesis
  proof (cases "sm_listeners m ch")
    case None
    have "running (sub_exec m e) c i \<longleftrightarrow> running m c i \<or> c = ch \<and> i = length (sm_tasks m)" for c i
      using None Subscribed ok by (auto simp: ensure_listener_def count_up_def running_def nth_append less_Suc_eq)
    with assms(2) None Subscribed ok show ?thesis
      by (auto simp: served_def ensure_listener_def count_up_def)
  next
    case (Some i)
    have "running m ch i" using Some assms(1) notdone by (auto simp: sub_inv_def running_def)
    with assms(2) Some notdone [OF Some] Subscribed ok show ?thesis
      by (auto simp: served_def ensure_listener_def count_up_def running_def)
  qed
next
  case (Unsubscribed ch)
  show ?thesis
  proof (cases "get_count m ch - 1 \<le> 0")
    case True
    have drop: "sub_exec m e = drop_listener ch m" using True Unsubscribed by (simp add: count_down_def)
    have keep: "running (drop_listener ch m) c i" if "running m c i" "c \<noteq> ch" for c i
      using that assms(1) by (cases "sm_listeners m ch")
        (auto simp: drop_listener_def stop_task_def running_def sub_inv_def nth_list_update Let_def)
    have "\<not> lt_done t" if "t \<in> set (sm_tasks (drop_listener ch m))" for t
      using that assms(1,2)
      by (cases "sm_listeners m ch")
        (auto simp: drop_listener_def stop_task_def served_def sub_inv_def Let_def dest!: set_update_subset_insert [THEN subsetD])
    moreover have "sm_counts (drop_listener ch m) c = (if c = ch then None else sm_counts m c)" for c
      by (simp add: drop_listener_def Let_def split: option.split)
    ultimately show ?thesis using keep assms(2) unfolding drop served_def by (metis (full_types))
  next
    case False
    with assms(2) Unsubscribed show ?thesis
      by (auto simp: served_def count_down_def running_def get_count_def split: option.splits)
  qed
next
  case (TaskEnded i)
  with assms(3) show ?thesis by simp
qed

section \<open>Sequences of calls\<close>

datatype sub_call = SubCall string | UnsubCall string | EndTask nat

fun do_sub_call :: "'r redis \<Rightarrow> settings \<Rightarrow> ('r, 'w) world \<Rightarrow> sub_call \<Rightarrow> (exn + unit) \<times> ('r, 'w) world" where
  "do_sub_call X cfg w (SubCall ch) = on_local_subscribe X cfg ch w"
| "do_sub_call X cfg w (UnsubCall ch) = on_local_unsubscribe X ch w"
| "do_sub_call X cfg w (EndTask i) = subsE (\<lambda>m. sub_exec m (TaskEnded i)) w"

fun call_count :: "string \<Rightarrow> nat \<Rightarrow> sub_call \<Rightarrow> nat" where
  "call_count ch n (SubCall c) = (if c = ch then n + 1 else n)"
| "call_count ch n (UnsubCall c) = (if c = ch then n - 1 else n)"
| "call_count ch n (EndTask _) = n"

fun ends_task :: "sub_call \<Rightarrow> bool" where
  "ends_task (EndTask _) = True"
| "ends_task _ = False"

fun calls_ok :: "'r redis \<Rightarrow> settings \<Rightarrow> ('r, 'w) world \<Rightarrow> sub_call list \<Rightarrow> bool" where
  "calls_ok X cfg w [] = True"
| "calls_ok X cfg w (c # cs) =
     (fst (do_sub_call X cfg w c) = Inr () \<and> \<not> ends_task c \<and> calls_ok X cfg (snd (do_sub_call X cfg w c)) cs)"

lemma do_sub_call_event:
  obtains e where "w_subs (snd (do_sub_call X cfg w c)) = sub_exec (w_subs w) e"
    "\<And>ch n. abs_count ch n e = call_count ch n c"
    "fst (do_sub_call X cfg w c) = Inr () \<Longrightarrow> \<not> ends_task c \<Longrightarrow> undisturbed e"
proof (cases c)
  case (SubCall ch)
  then show thesis
    using that [of "Subscribed ch (fst (do_sub_call X cfg w c) = Inr ())"]
      on_local_subscribe_subs [of X cfg ch w "fst (on_local_subscribe X cfg ch w)" "snd (on_local_subscribe X cfg ch w)"]
    by simp
next
  case (UnsubCall ch)
  then show thesis
    using that [of "Unsubscribed ch"]
      on_local_unsubscribe_subs [of X ch w "fst (on_local_unsubscribe X ch w)" "snd (on_local_unsubscribe X ch w)"]
    by simp
next
  case (EndTask i)
  then show thesis using that [of "TaskEnded i"] by (simp add: subsE_def)
qed

lemma sub_calls_simulate:
  assumes "sub_inv (w_subs w)"
  shows "sub_inv (w_subs (foldl (\<lambda>w c. snd (do_sub_call X cfg w c)) w cs)) \<and>
    get_count (w_subs (foldl (\<lambda>w c. snd (do_sub_call X cfg w c)) w cs)) ch =
      int (foldl (call_count ch) (nat (get_count (w_subs w) ch)) cs) \<and>
    (served (w_subs w) \<and> calls_ok X cfg w cs \<longrightarrow> served (w_subs (foldl (\<lambda>w c. snd (do_sub_call X cfg w c)) w cs)))"
  using assms
proof (induction cs arbitrary: w)
  case Nil
  then show ?case using get_count_exec [of "w_subs w" "TaskEnded 0" ch] by simp
next
  case (Cons c cs)
  obtain e where e: "w_subs (snd (do_sub_call X cfg w c)) = sub_exec (w_subs w) e"
    "abs_count ch n e = call_count ch n c"
    "fst (do_sub_call X cfg w c) = Inr () \<Longrightarrow> \<not> ends_task c \<Longrightarrow> undisturbed e" for n
    by (rule do_sub_call_event [of X cfg w c]) blast
  have inv: "sub_inv (w_subs (snd (do_sub_call X cfg w c)))" using e sub_inv_exec [OF Cons.prems] by simp
  have "get_count (w_subs (snd (do_sub_call X cfg w c))) ch = int (call_count ch (nat (get_count (w_subs w) ch)) c)"
    using get_count_exec [OF Cons.prems, of e ch] e by simp
  moreover have "served (w_subs (snd (do_sub_call X cfg w c)))" if "served (w_subs w)" "calls_ok X cfg w (c # cs)"
    using that e served_exec [OF Cons.prems, of e] by simp
  ultimately show ?case using Cons.IH [OF inv] by simp
qed

section \<open>Overlapping calls\<close>

text \<open>The calls are coroutines.  \<open>on_local_subscribe\<close> is suspended after it has counted, in \<open>sadd\<close>, and again in
  \<open>expire\<close>, before it looks for a listener; \<open>on_local_unsubscribe\<close> after it has released the channel, in
  \<open>srem\<close>.\<close>

datatype sub_pc =
    SubCounted string
  | SubAdded string
  | SubReleased string
  | SubEnded "exn + unit"

fun sub_segment :: "'r redis \<Rightarrow> settings \<Rightarrow> sub_pc \<Rightarrow> (('r, 'w) world, sub_pc) io" where
  "sub_segment X cfg (SubCounted ch) =
     bindE (getE (\<lambda>w. sm_node_id (w_subs w))) (\<lambda>nid.
     thenE (redisE (rcall X (SADD (room_nodes_key ch) nid))) (returnE (SubAdded ch)))"
| "sub_segment X cfg (SubAdded ch) =
     thenE (redisE (rcall X (EXPIRE (room_nodes_key ch) (node_ttl_seconds cfg * 3))))
    (thenE (subsE (ensure_listener ch)) (returnE (SubEnded (Inr ()))))"
| "sub_segment X cfg (SubReleased ch) =
     bindE (getE (\<lambda>w. sm_node_id (w_subs w))) (\<lambda>nid.
     thenE (redisE (rcall X (SREM (room_nodes_key ch) nid))) (returnE (SubEnded (Inr ()))))"
| "sub_segment X cfg (SubEnded x) = returnE (SubEnded x)"

definition sub_advance :: "'r redis \<Rightarrow> settings \<Rightarrow> sub_pc \<times> ('r, 'w) world \<Rightarrow> sub_pc \<times> ('r, 'w) world" where
  "sub_advance X cfg = (\<lambda>(pc, w).
     case sub_segment X cfg pc w of (Inl e, w') \<Rightarrow> (SubEnded (Inl e), w') | (Inr pc', w') \<Rightarrow> (pc', w'))"

definition unsub_pc :: "sub_mgr \<Rightarrow> string \<Rightarrow> sub_pc" where
  "unsub_pc m ch = (if get_count m ch - 1 \<le> 0 then SubReleased ch else SubEnded (Inr ()))"

text \<open>A call that nobody interrupts is the call of the operations above.\<close>

lemma subscribe_uncut:
  "(sub_advance X cfg ^^ 2) (SubCounted ch, w\<lparr>w_subs := count_up ch (w_subs w)\<rparr>) =
     (SubEnded (fst (on_local_subscribe X cfg ch w)), snd (on_local_subscribe X cfg ch w))"
  by (auto simp: numeral_2_eq_2 sub_advance_def on_local_subscribe_def thenE_def bindE_def subsE_def redisE_run count_up_def
      split: prod.split sum.split)

lemma unsubscribe_uncut:
  "sub_advance X cfg (unsub_pc (w_subs w) ch, w\<lparr>w_subs := count_down ch (w_subs w)\<rparr>) =
     (SubEnded (fst (on_local_unsubscribe X ch w)), snd (on_local_unsubscribe X ch w))"
  by (auto simp: sub_advance_def unsub_pc_def on_local_unsubscribe_def thenE_def bindE_def subsE_def redisE_run count_down_def
      drop_listener_def Let_def split: prod.split sum.split option.split)

text \<open>The system: the calls begun so far, where each is suspended, and the channels that were released while a
  subscribe call on them was suspended.\<close>

record ('r, 'w) sub_sys =
  ss_world :: "('r, 'w) world"
  ss_pcs :: "sub_pc list"
  ss_calls :: "sub_call list"
  ss_overtaken :: "string set"

definition subscribing :: "sub_pc list \<Rightarrow> string \<Rightarrow> bool" where
  "subscribing pcs ch = (SubCounted ch \<in> set pcs \<or> SubAdded ch \<in> set pcs)"

inductive sub_step :: "'r redis \<Rightarrow> settings \<Rightarrow> ('r, 'w) sub_sys \<Rightarrow> ('r, 'w) sub_sys \<Rightarrow> bool"
  for X :: "'r redis" and cfg :: settings where
  subscribe_begins: "w = ss_world s \<Longrightarrow>
    sub_step X cfg s (s\<lparr>ss_world := w\<lparr>w_subs := count_up ch (w_subs w)\<rparr>, ss_pcs := ss_pcs s @ [SubCounted ch],
      ss_calls := ss_calls s @ [SubCall ch]\<rparr>)"
| unsubscribe_begins: "w = ss_world s \<Longrightarrow>
    sub_step X cfg s (s\<lparr>ss_world := w\<lparr>w_subs := count_down ch (w_subs w)\<rparr>, ss_pcs := ss_pcs s @ [unsub_pc (w_subs w) ch],
      ss_calls := ss_calls s @ [UnsubCall ch],
      ss_overtaken := (if get_count (w_subs w) ch - 1 \<le> 0 \<and> subscribing (ss_pcs s) ch then insert ch (ss_overtaken s) else ss_overtaken s)\<rparr>)"
| call_resumes: "i < length (ss_pcs s) \<Longrightarrow> sub_advance X cfg (ss_pcs s ! i, ss_world s) = (pc, w) \<Longrightarrow>
    sub_step X cfg s (s\<lparr>ss_world := w, ss_pcs := (ss_pcs s)[i := pc]\<rparr>)"
| listener_ends: "w = ss_world s \<Longrightarrow>
    sub_step X cfg s (s\<lparr>ss_world := w\<lparr>w_subs := sub_exec (w_subs w) (TaskEnded i)\<rparr>\<rparr>)"
| others: "w_subs w = w_subs (ss_world s) \<Longrightarrow> sub_step X cfg s (s\<lparr>ss_world := w\<rparr>)"

definition sub_init :: "string \<Rightarrow> ('r, 'w) sub_sys \<Rightarrow> bool" where
  "sub_init nid s = (w_subs (ss_world s) = new_sub_mgr nid \<and> ss_pcs s = [] \<and> ss_calls s = [] \<and> ss_overtaken s = {})"

text \<open>A channel that has a listener, or gets one when a suspended call resumes, has a count unless it was
  released under such a call.\<close>

definition sub_sys_inv :: "('r, 'w) sub_sys \<Rightarrow> bool" where
  "sub_sys_inv s =
     (let m = w_subs (ss_world s) in
      listener_inv m \<and> (\<forall>ch. get_count m ch = int (foldl (call_count ch) 0 (ss_calls s))) \<and>
      (\<forall>ch. ch \<notin> ss_overtaken s \<and> (sm_listeners m ch \<noteq> None \<or> subscribing (ss_pcs s) ch) \<longrightarrow> sm_counts m ch \<noteq> None))"

lemma get_count_simps [simp]:
  "get_count (count_up ch m) c = (if c = ch then get_count m ch + 1 else get_count m c)"
  "get_count (ensure_listener ch m) c = get_count m c"
  "get_count (sub_exec m (TaskEnded i)) c = get_count m c"
  by (simp_all add: get_count_def)

lemma get_count_down:
  assumes "listener_inv m"
  shows "0 \<le> get_count m c" and "get_count (count_down ch m) c = (if c = ch then int (nat (get_count m ch) - 1) else get_count m c)"
proof -
  show nn: "0 \<le> get_count m c" for c using assms by (force simp: listener_inv_def get_count_def split: option.splits)
  show "get_count (count_down ch m) c = (if c = ch then int (nat (get_count m ch) - 1) else get_count m c)"
  proof (cases "get_count m ch - 1 \<le> 0")
    case True
    with nn [of ch] show ?thesis by (simp add: count_down_def get_count_def [of "drop_listener ch m"] get_count_def [of m c])
  next
    case False
    then show ?thesis by (simp add: count_down_def get_count_def [of "m\<lparr>sm_counts := _\<rparr>"] get_count_def [of m c])
  qed
qed

lemma sub_advance_cases:
  assumes "sub_advance X cfg (pc, w) = (pc', w')"
  obtains (same) "w_subs w' = w_subs w" "\<And>ch. subscribing [pc'] ch \<Longrightarrow> subscribing [pc] ch"
  | (listens) ch where "pc = SubAdded ch" "pc' = SubEnded (Inr ())" "w_subs w' = ensure_listener ch (w_subs w)"
  using assms
  by (cases pc) (auto simp: sub_advance_def subscribing_def thenE_def bindE_def subsE_def redisE_run split: prod.splits sum.splits)

lemma subscribing_update:
  assumes "i < length pcs" and "subscribing [pc] ch \<Longrightarrow> subscribing [pcs ! i] ch" and "subscribing (pcs[i := pc]) ch"
  shows "subscribing pcs ch"
  using assms nth_mem [OF assms(1)] unfolding subscribing_def
  by (auto dest!: set_update_subset_insert [THEN subsetD])

lemma sub_sys_inv_resume:
  assumes "sub_sys_inv s" and "i < length (ss_pcs s)" and "sub_advance X cfg (ss_pcs s ! i, ss_world s) = (pc, w)"
  shows "sub_sys_inv (s\<lparr>ss_world := w, ss_pcs := (ss_pcs s)[i := pc]\<rparr>)"
  using assms(3)
proof (cases rule: sub_advance_cases)
  case same
  have "subscribing (ss_pcs s) c" if "subscribing ((ss_pcs s)[i := pc]) c" for c
    by (rule subscribing_update [OF assms(2) same(2) that])
  with assms(1) same(1) show ?thesis by (auto simp: sub_sys_inv_def Let_def)
next
  case (listens ch)
  have sub: "subscribing (ss_pcs s) c" if "subscribing ((ss_pcs s)[i := pc]) c" for c
    by (rule subscribing_update [OF assms(2) _ that]) (simp add: listens(2) subscribing_def)
  have ch: "subscribing (ss_pcs s) ch" using nth_mem [OF assms(2)] listens(1) by (simp add: subscribing_def)
  let ?m = "w_subs (ss_world s)"
  have "sm_counts ?m c \<noteq> None" if "c \<notin> ss_overtaken s"
    "sm_listeners (ensure_listener ch ?m) c \<noteq> None \<or> subscribing ((ss_pcs s)[i := pc]) c" for c
    using that assms(1) ch sub [of c] ensure_listeners [of c ch ?m] by (cases "c = ch") (auto simp: sub_sys_inv_def Let_def)
  with assms(1) listens(3) show ?thesis by (simp add: sub_sys_inv_def Let_def listener_inv_ensure)
qed

lemma sub_sys_inv_unsubscribe:
  assumes "sub_sys_inv s" and "m = w_subs (ss_world s)"
    and "t = s\<lparr>ss_world := (ss_world s)\<lparr>w_subs := count_down ch m\<rparr>, ss_pcs := ss_pcs s @ [unsub_pc m ch],
      ss_calls := ss_calls s @ [UnsubCall ch],
      ss_overtaken := (if get_count m ch - 1 \<le> 0 \<and> subscribing (ss_pcs s) ch then insert ch (ss_overtaken s) else ss_overtaken s)\<rparr>"
  shows "sub_sys_inv t"
proof -
  have li: "listener_inv m" and cnt: "get_count m c = int (foldl (call_count c) 0 (ss_calls s))" for c
    using assms(1) by (simp_all add: assms(2) sub_sys_inv_def Let_def)
  have old: "sm_counts m c \<noteq> None" if "c \<notin> ss_overtaken s" "sm_listeners m c \<noteq> None \<or> subscribing (ss_pcs s) c" for c
    using that assms(1) by (auto simp: assms(2) sub_sys_inv_def Let_def)
  have pcs: "subscribing (ss_pcs s @ [unsub_pc m ch]) c \<longleftrightarrow> subscribing (ss_pcs s) c" for c
    by (auto simp: subscribing_def unsub_pc_def)
  have "sm_counts (count_down ch m) c \<noteq> None" if c: "c \<notin> ss_overtaken t"
    "sm_listeners (count_down ch m) c \<noteq> None \<or> subscribing (ss_pcs s) c" for c
  proof (cases "get_count m ch - 1 \<le> 0")
    case True
    with c old [of c] show ?thesis by (auto simp: assms(3) count_down_def split: if_splits)
  next
    case False
    with c old [of c] show ?thesis by (auto simp: assms(3) count_down_def)
  qed
  moreover have "get_count (count_down ch m) c = int (foldl (call_count c) 0 (ss_calls t))" for c
    using get_count_down(2) [OF li, of ch c] cnt [of c] by (auto simp: assms(3))
  ultimately show ?thesis using listener_inv_count_down [OF li] by (simp add: sub_sys_inv_def Let_def assms(3) pcs)
qed

lemma sub_sys_inv_step:
  assumes "sub_sys_inv s" and "sub_step X cfg s t"
  shows "sub_sys_inv t"
  using assms(2)
proof (cases rule: sub_step.cases)
  case (subscribe_begins w ch)
  then show ?thesis using assms(1) by (auto simp: sub_sys_inv_def Let_def listener_inv_count_up subscribing_def)
next
  case (unsubscribe_begins w ch)
  then show ?thesis using sub_sys_inv_unsubscribe [OF assms(1) refl] by simp
next
  case (call_resumes i pc w)
  then show ?thesis using sub_sys_inv_resume [OF assms(1)] by simp
next
  case (listener_ends w i)
  have "sm_counts (sub_exec m (TaskEnded i)) = sm_counts m" "sm_listeners (sub_exec m (TaskEnded i)) = sm_listeners m" for m
    by simp_all
  with listener_ends assms(1) show ?thesis by (simp add: sub_sys_inv_def Let_def listener_inv_exec del: sub_exec.simps)
next
  case (others w)
  then show ?thesis using assms(1) by (simp add: sub_sys_inv_def)
qed

interpretation manager: invariant_system "sub_init nid" "sub_step X cfg" sub_sys_inv for nid X cfg
proof unfold_locales
  show "sub_init nid s \<Longrightarrow> sub_sys_inv s" for s
    by (simp add: sub_init_def sub_sys_inv_def listener_inv_def new_sub_mgr_def running_def get_count_def subscribing_def)
  show "sub_sys_inv s \<Longrightarrow> sub_step X cfg s t \<Longrightarrow> sub_sys_inv t" for s t by (rule sub_sys_inv_step)
qed

text \<open>What the segments do to the manager, in any order.\<close>

inductive mgr_step :: "sub_mgr \<Rightarrow> sub_mgr \<Rightarrow> bool" where
  mgr_up: "mgr_step m (count_up ch m)"
| mgr_down: "mgr_step m (count_down ch m)"
| mgr_listen: "mgr_step m (ensure_listener ch m)"
| mgr_ended: "mgr_step m (sub_exec m (TaskEnded i))"

lemma listener_inv_mgr:
  assumes "mgr_step\<^sup>*\<^sup>* m m'" and "listener_inv m"
  shows "listener_inv m'"
  using assms
proof (induction rule: rtranclp_induct)
  case (step y z)
  from step(2) listener_inv_exec [of y] step(3,4) show ?case
    by cases (simp_all add: listener_inv_count_up listener_inv_count_down listener_inv_ensure del: sub_exec.simps)
qed

lemma sub_step_mgr:
  assumes "sub_step X cfg s t"
  shows "mgr_step\<^sup>*\<^sup>* (w_subs (ss_world s)) (w_subs (ss_world t))"
  using assms
proof (cases rule: sub_step.cases)
  case (call_resumes i pc w)
  from call_resumes(3) show ?thesis
    using call_resumes(1) mgr_listen by (cases rule: sub_advance_cases) auto
qed (auto simp del: sub_exec.simps intro: mgr_step.intros)

section \<open>Properties\<close>

text \<open>C24: At most one listener per channel.  In every interleaving of subscribe and unsubscribe calls of a node
  at their awaits, whatever Redis answers and whichever listener tasks have ended on their own, a channel
  has at most one running listener task, which has neither been stopped nor cancelled; the count of a
  channel is the number of subscribe calls begun less the unsubscribe calls, never below zero; and a
  channel with a running listener has a positive count, unless an unsubscribe call took its count to zero
  while a subscribe call on it was suspended.\<close>

theorem one_listener_per_channel:
  assumes "reachable (sub_init nid) (sub_step X cfg) s" and "m = w_subs (ss_world s)"
  shows "(running m ch i \<and> running m ch j \<longrightarrow> i = j) \<and>
    get_count m ch = int (foldl (call_count ch) 0 (ss_calls s)) \<and>
    (running m ch i \<and> ch \<notin> ss_overtaken s \<longrightarrow> 1 \<le> get_count m ch)"
proof -
  have inv: "sub_sys_inv s" by (rule manager.reachable_inv [OF assms(1)])
  then have li: "listener_inv m" and cnt: "get_count m ch = int (foldl (call_count ch) 0 (ss_calls s))"
    by (simp_all add: sub_sys_inv_def Let_def assms(2))
  have l: "sm_listeners m ch = Some i" if "running m ch i" for i using that li by (simp add: listener_inv_def)
  have "1 \<le> get_count m ch" if "running m ch i" "ch \<notin> ss_overtaken s"
  proof -
    have "sm_counts m ch \<noteq> None" using inv that l [OF that(1)] by (simp add: sub_sys_inv_def Let_def assms(2))
    with li show ?thesis by (auto simp: listener_inv_def get_count_def)
  qed
  with cnt l show ?thesis by (metis option.inject)
qed

abbreviation mem_world :: "fault list \<Rightarrow> (mem, wire) world" where
  "mem_world fs \<equiv> new_world ''n1'' (mem_start 0 fs) \<lparr>wire_calls = [], wire_input = []\<rparr>"

lemma w_subs_mem_world [simp]: "w_subs (new_world nid r v) = new_sub_mgr nid"
  by (simp add: new_world_def)

definition demo_calls :: "sub_call list" where
  "demo_calls = [SubCall ''a'', SubCall ''a'', SubCall ''b'', UnsubCall ''a'', UnsubCall ''b'', SubCall ''b'']"

definition idle_sys :: "(mem, wire) sub_sys" where
  "idle_sys = \<lparr>ss_world = mem_world [], ss_pcs = [], ss_calls = [], ss_overtaken = {}\<rparr>"

lemma idle_sys_reachable: "reachable (sub_init ''n1'') (sub_step X cfg) idle_sys"
  by (rule reach_init) (simp add: sub_init_def idle_sys_def)

definition counting_sys :: "(mem, wire) sub_sys" where
  "counting_sys = idle_sys\<lparr>ss_world := (mem_world [])\<lparr>w_subs := count_up ''a'' (w_subs (mem_world []))\<rparr>,
     ss_pcs := [SubCounted ''a''], ss_calls := [SubCall ''a'']\<rparr>"

theorem one_listener_per_channel_witness:
  "\<exists>s :: (mem, wire) sub_sys. reachable (sub_init ''n1'') (sub_step mem_redis default_settings) s \<and> subscribing (ss_pcs s) ''a'' \<and>
     get_count (w_subs (ss_world s)) ''a'' = 1"
proof -
  have "sub_step mem_redis default_settings idle_sys counting_sys"
    using subscribe_begins [of "mem_world []" idle_sys mem_redis default_settings "''a''"] by (simp add: counting_sys_def idle_sys_def)
  with idle_sys_reachable have r: "reachable (sub_init ''n1'') (sub_step mem_redis default_settings) counting_sys" by (rule reach_step)
  from one_listener_per_channel [OF r refl] have "get_count (w_subs (ss_world counting_sys)) ''a'' = int (foldl (call_count ''a'') 0 (ss_calls counting_sys))"
    by blast
  then have "get_count (w_subs (ss_world counting_sys)) ''a'' = 1" by (simp add: counting_sys_def)
  with r show ?thesis by (intro exI [of _ counting_sys]) (simp add: counting_sys_def subscribing_def)
qed

text \<open>C34: An unsubscribe call can leave a listener behind.  From every state in which a channel has no
  subscribers, a subscribe call that has counted and an unsubscribe call on the channel that runs while it
  waits for Redis take the count back to zero; when the two Redis calls of the subscribe call return, it
  starts a listener, which then runs although the count is zero and no call is left to stop it.\<close>

theorem overtaken_subscribe_leaks_listener:
  assumes "reachable (sub_init nid) (sub_step X cfg) s" and "w = ss_world s" and "get_count (w_subs w) ch = 0"
    and "(sub_advance X cfg ^^ 2) (SubCounted ch, w\<lparr>w_subs := count_down ch (count_up ch (w_subs w))\<rparr>) = (SubEnded (Inr ()), w')"
  shows "\<exists>t. (sub_step X cfg)\<^sup>*\<^sup>* s t \<and> ss_calls t = ss_calls s @ [SubCall ch, UnsubCall ch] \<and>
    ss_pcs t = ss_pcs s @ [SubEnded (Inr ()), SubReleased ch] \<and>
    get_count (w_subs (ss_world t)) ch = 0 \<and> (\<exists>i. running (w_subs (ss_world t)) ch i)"
proof -
  let ?m = "count_down ch (count_up ch (w_subs w))" and ?n = "length (ss_pcs s)"
  have drop: "?m = drop_listener ch (count_up ch (w_subs w))" using assms(3) by (simp add: count_down_def)
  have none: "sm_listeners ?m ch = None" "get_count ?m ch = 0" by (simp_all add: drop get_count_def)
  define s1 where "s1 = s\<lparr>ss_world := w\<lparr>w_subs := count_up ch (w_subs w)\<rparr>, ss_pcs := ss_pcs s @ [SubCounted ch],
    ss_calls := ss_calls s @ [SubCall ch]\<rparr>"
  define s2 where "s2 = s1\<lparr>ss_world := w\<lparr>w_subs := ?m\<rparr>, ss_pcs := ss_pcs s @ [SubCounted ch, SubReleased ch],
    ss_calls := ss_calls s @ [SubCall ch, UnsubCall ch], ss_overtaken := insert ch (ss_overtaken s)\<rparr>"
  obtain pc w1 where a1: "sub_advance X cfg (SubCounted ch, w\<lparr>w_subs := ?m\<rparr>) = (pc, w1)" by fastforce
  with assms(4) have a2: "sub_advance X cfg (pc, w1) = (SubEnded (Inr ()), w')" by (simp add: numeral_2_eq_2)
  have pc: "pc = SubAdded ch" and w1: "w_subs w1 = ?m"
    using a1 a2 by (auto simp: sub_advance_def thenE_def bindE_def redisE_run split: prod.splits sum.splits)
  have m': "w_subs w' = ensure_listener ch ?m"
    using a2 unfolding pc w1 [symmetric]
    by (auto simp: sub_advance_def thenE_def bindE_def subsE_def redisE_run split: prod.splits sum.splits)
  define s3 where "s3 = s2\<lparr>ss_world := w1, ss_pcs := ss_pcs s @ [SubAdded ch, SubReleased ch]\<rparr>"
  define t where "t = s3\<lparr>ss_world := w', ss_pcs := ss_pcs s @ [SubEnded (Inr ()), SubReleased ch]\<rparr>"
  have "sub_step X cfg s s1" unfolding s1_def using assms(2) by (rule subscribe_begins)
  moreover have "sub_step X cfg s1 s2"
    using unsubscribe_begins [of "ss_world s1" s1 X cfg ch] assms(3)
    by (simp add: s1_def s2_def unsub_pc_def subscribing_def)
  moreover have "sub_step X cfg s2 s3"
    using call_resumes [of ?n s2 X cfg pc w1] a1 by (simp add: s2_def s3_def pc nth_append)
  moreover have "sub_step X cfg s3 t"
    using call_resumes [of ?n s3 X cfg "SubEnded (Inr ())" w'] a2 by (simp add: s2_def s3_def t_def pc nth_append)
  ultimately have "(sub_step X cfg)\<^sup>*\<^sup>* s t" by (meson converse_rtranclp_into_rtranclp rtranclp.rtrancl_refl)
  moreover have "get_count (w_subs w') ch = 0" using none by (simp add: m')
  moreover have "running (w_subs w') ch (length (sm_tasks ?m))" using none by (simp add: m' ensure_listener_def running_def)
  ultimately show ?thesis by (intro exI [of _ t]) (auto simp: t_def s3_def s2_def)
qed

theorem overtaken_subscribe_leaks_listener_witness:
  "\<exists>t :: (mem, wire) sub_sys. reachable (sub_init ''n1'') (sub_step calm_redis default_settings) t \<and>
     get_count (w_subs (ss_world t)) ''a'' = 0 \<and> (\<exists>i. running (w_subs (ss_world t)) ''a'' i)"
proof -
  let ?w = "mem_world []"
  let ?a = "(sub_advance calm_redis default_settings ^^ 2) (SubCounted ''a'', ?w\<lparr>w_subs := count_down ''a'' (count_up ''a'' (w_subs ?w))\<rparr>)"
  have "fst ?a = SubEnded (Inr ())" by code_simp
  then obtain w' where a: "?a = (SubEnded (Inr ()), w')" by (cases ?a) auto
  have w: "?w = ss_world idle_sys" by (simp add: idle_sys_def)
  have "get_count (w_subs ?w) ''a'' = 0" by code_simp
  from overtaken_subscribe_leaks_listener [OF idle_sys_reachable w this a] obtain t where
    t: "(sub_step calm_redis default_settings)\<^sup>*\<^sup>* idle_sys t" "get_count (w_subs (ss_world t)) ''a'' = 0" "\<exists>i. running (w_subs (ss_world t)) ''a'' i"
    by blast
  from idle_sys_reachable t(1) have "reachable (sub_init ''n1'') (sub_step calm_redis default_settings) t" by (rule reachable_steps)
  with t show ?thesis by blast
qed

text \<open>C25: A channel with subscribers is served.  When the Redis calls of a sequence of subscribe and
  unsubscribe calls succeed and no listener crashes, a channel has a running listener exactly when
  more subscribe than unsubscribe calls are outstanding.\<close>

theorem subscribed_channel_has_listener:
  assumes "w_subs w = new_sub_mgr nid" and "calls_ok X cfg w cs"
    and "m = w_subs (foldl (\<lambda>w c. snd (do_sub_call X cfg w c)) w cs)"
  shows "(\<exists>i. running m ch i) \<longleftrightarrow> 0 < foldl (call_count ch) 0 cs"
proof -
  have "get_count (w_subs w) ch = 0" "served (w_subs w)"
    by (simp_all add: assms(1) new_sub_mgr_def get_count_def served_def)
  with sub_calls_simulate [of w X cfg cs ch] assms
  have inv: "sub_inv m" and c: "get_count m ch = int (foldl (call_count ch) 0 cs)" and srv: "served m"
    by (simp_all add: sub_inv_new)
  have "sm_counts m ch \<noteq> None" if "running m ch i" for i using that inv unfolding sub_inv_def by blast
  moreover have "sm_counts m ch \<noteq> None \<longleftrightarrow> 0 < get_count m ch"
    using inv by (force simp: sub_inv_def get_count_def split: option.splits)
  ultimately show ?thesis using srv c unfolding served_def by auto
qed

theorem subscribed_channel_has_listener_witness:
  "\<exists>i. running (w_subs (foldl (\<lambda>w c. snd (do_sub_call calm_redis default_settings w c)) (mem_world []) demo_calls)) ''a'' i"
proof -
  have "calls_ok calm_redis default_settings (mem_world []) demo_calls"
    by code_simp
  then show ?thesis
    by (rule subscribed_channel_has_listener [OF w_subs_mem_world _ refl, THEN iffD2]) (simp add: demo_calls_def)
qed

end
