(* ===== verification/Fanout.thy ===== *)
theory Fanout
  imports Subscriptions
begin

text \<open>
  \<open>apps/gateway/fanout/publisher.py\<close>, the receiving side: \<open>deliver_local\<close> queues a message for every local
  subscriber, \<open>terminate_slow_consumer\<close> drops a connection whose queue is full, and
  \<open>run_pubsub_listener\<close> is the supervised listener of a channel.
\<close>

section \<open>Local delivery\<close>

text \<open>The loop over the subscribers: the ids that were too slow so far and the number of active ones.
  Starting the task that terminates a slow consumer is \<open>w_spawned\<close>; it runs later.\<close>

fun deliver_loop ::
  "settings \<Rightarrow> string \<Rightarrow> string \<Rightarrow> int option \<Rightarrow> nat list \<Rightarrow> string list \<Rightarrow> int \<Rightarrow>
     (('r, 'w) world, string list \<times> int) io" where
  "deliver_loop cfg channel env sq [] disconnected fanout_size = returnE (disconnected, fanout_size)"
| "deliver_loop cfg channel env sq (r # rs) disconnected fanout_size =
     bindE (connE r (getE (\<lambda>c. c))) (\<lambda>c.
       if conn_state c \<noteq> ACTIVE then deliver_loop cfg channel env sq rs disconnected fanout_size
       else
         bindE
           (catchE
             (thenE (connE r (enqueue cfg env NORMAL (Some channel) sq))
             (thenE (metric_add ''relay_messages_delivered_total'' 1) (returnE [])))
             (\<lambda>e. case e of
                SlowConsumerError _ \<Rightarrow>
                  thenE (modifyE (\<lambda>w. w\<lparr>w_spawned := w_spawned w @ [r]\<rparr>)) (returnE [connection_id c])
              | _ \<Rightarrow> raiseE e))
           (\<lambda>slow. deliver_loop cfg channel env sq rs (disconnected @ slow) (fanout_size + 1)))"

definition deliver_local ::
  "settings \<Rightarrow> string \<Rightarrow> string \<Rightarrow> int option \<Rightarrow> (('r, 'w) world, string list) io" where
  "deliver_local cfg channel env sq =
     bindE (getE (\<lambda>w. local_subscribers (w_reg w) channel)) (\<lambda>subs.
     bindE (deliver_loop cfg channel env sq subs [] 0) (\<lambda>(disconnected, fanout_size).
     thenE (metric_set ''relay_fanout_size'' fanout_size) (returnE disconnected)))"

definition terminate_slow_consumer :: "'w sockets \<Rightarrow> pydantic \<Rightarrow> nat \<Rightarrow> (('r, 'w) world, unit) io" where
  "terminate_slow_consumer W P r =
     thenE (update_conn r (\<lambda>c. c\<lparr>conn_state := DEAD\<rparr>))
    (thenE (metric_add ''relay_slow_consumers_total'' 1)
    (thenE (metric_add ''relay_disconnects_total'' 1)
    (thenE (suppressE (send_frame W P r (DisconnectFrame (error_code_value SLOW_CONSUMER))))
           (suppressE (close_ws W r (Some 4409))))))"

section \<open>The listener of a channel\<close>

text \<open>\<open>json.loads(data).get("sequence")\<close>, or \<open>None\<close> when that raises.  The frames the program publishes carry an
  integer there; another value is read as \<open>None\<close>.\<close>

definition envelope_sequence :: "string \<Rightarrow> int option" where
  "envelope_sequence data =
     (case json_loads data of
        Some (JObj kvs) \<Rightarrow> (case jget kvs ''sequence'' of Some (JInt n) \<Rightarrow> Some n | _ \<Rightarrow> None)
      | _ \<Rightarrow> None)"

text \<open>One round of the supervision loop, as the Pub/Sub connection behaves: whether the stop event was
  set at the head of the loop, how the subscription went, the items \<open>listen()\<close> yields with the stop
  event at that time, and whether the stop event was set at the end.\<close>

record pubsub_round =
  ro_stopped :: bool
  ro_subscribe :: "exn option"
  ro_items :: "(bool \<times> string \<times> string) list"
  ro_stop_after :: bool

fun listen_items :: "settings \<Rightarrow> string \<Rightarrow> (bool \<times> string \<times> string) list \<Rightarrow> (('r, 'w) world, unit) io" where
  "listen_items cfg channel [] = returnE ()"
| "listen_items cfg channel ((stop, typ, data) # items) =
     (if stop then returnE ()
      else if typ \<noteq> ''message'' then listen_items cfg channel items
      else thenE (deliver_local cfg channel data (envelope_sequence data)) (listen_items cfg channel items))"

text \<open>The whole task: the sleeps between its rounds, and the process state it leaves.\<close>

fun run_pubsub_listener ::
  "settings \<Rightarrow> string \<Rightarrow> pubsub_round list \<Rightarrow> rat \<Rightarrow> ('r, 'w) world \<Rightarrow> rat list \<times> ('r, 'w) world" where
  "run_pubsub_listener cfg channel [] backoff w = ([], w)"
| "run_pubsub_listener cfg channel (ro # ros) backoff w =
     (if ro_stopped ro then ([], w)
      else
        let (backoff1, w1) =
              (case ro_subscribe ro of
                 Some _ \<Rightarrow> (backoff, w)
               | None \<Rightarrow> (1 / 4, snd (listen_items cfg channel (ro_items ro) w)))
        in if ro_stop_after ro then ([], w1)
           else
             let (sleeps, w2) = run_pubsub_listener cfg channel ros (min (backoff1 * 2) 5) w1
             in (backoff1 # sleeps, w2))"

section \<open>What delivery does to the process\<close>

text \<open>The reference: every active subscriber gets one attempt, independently of the others.\<close>

definition delivered :: "settings \<Rightarrow> string \<Rightarrow> string \<Rightarrow> int option \<Rightarrow> connection \<Rightarrow> connection" where
  "delivered cfg channel env sq c =
     (if conn_state c = ACTIVE then snd (enqueue cfg env NORMAL (Some channel) sq c) else c)"

definition too_slow :: "settings \<Rightarrow> string \<Rightarrow> connection \<Rightarrow> bool" where
  "too_slow cfg env c = (conn_state c = ACTIVE \<and> over_limit cfg env c)"

lemma enqueue_normal:
  "enqueue cfg env NORMAL chn sq c =
     (if over_limit cfg env c then (Inl (SlowConsumerError (connection_id c)), c)
      else (Inr (), snd (enqueue cfg env NORMAL chn sq c)))"
  by (simp add: enqueue_def Let_def)

lemma delivered_keeps [simp]:
  "connection_id (delivered cfg channel env sq c) = connection_id c"
  "session_id (delivered cfg channel env sq c) = session_id c"
  "tenant_id (delivered cfg channel env sq c) = tenant_id c"
  "subscriptions (delivered cfg channel env sq c) = subscriptions c"
  "conn_state (delivered cfg channel env sq c) = conn_state c"
  by (simp_all add: delivered_def enqueue_def Let_def)

lemma delivered_same: "conn_state c \<noteq> ACTIVE \<or> over_limit cfg env c \<Longrightarrow> delivered cfg channel env sq c = c"
  by (auto simp: delivered_def enqueue_def Let_def)

lemma deliver_loop_step:
  assumes "w_heap w r = Some c"
  shows "deliver_loop cfg channel env sq (r # rs) dis n w =
    (if conn_state c \<noteq> ACTIVE then deliver_loop cfg channel env sq rs dis n w
     else if over_limit cfg env c then
       deliver_loop cfg channel env sq rs (dis @ [connection_id c]) (n + 1) (w\<lparr>w_spawned := w_spawned w @ [r]\<rparr>)
     else deliver_loop cfg channel env sq rs dis (n + 1)
       (w\<lparr>w_heap := (w_heap w)(r \<mapsto> delivered cfg channel env sq c),
          w_metrics := (w_metrics w)(''relay_messages_delivered_total'' := metric_plus (w_metrics w ''relay_messages_delivered_total'') 1)\<rparr>))"
proof -
  have upd: "(w_heap w)(r \<mapsto> c) = w_heap w" using assms by (simp add: fun_upd_idem)
  consider "conn_state c \<noteq> ACTIVE" | "conn_state c = ACTIVE" "over_limit cfg env c"
    | "conn_state c = ACTIVE" "\<not> over_limit cfg env c" by blast
  then show ?thesis
  proof cases
    case 1
    then show ?thesis using assms upd by (simp add: bindE_def connE_def)
  next
    case 2
    then show ?thesis
      using assms upd by (simp add: bindE_def thenE_def catchE_def connE_def enqueue_normal)
  next
    case 3
    then have "enqueue cfg env NORMAL (Some channel) sq c = (Inr (), delivered cfg channel env sq c)"
      by (subst enqueue_normal) (simp add: delivered_def)
    with 3 assms upd show ?thesis
      by (simp add: bindE_def thenE_def catchE_def connE_def metric_add_def)
  qed
qed

text \<open>The slow ones, the active ones, and the process after the loop.\<close>

definition slow_subs :: "settings \<Rightarrow> string \<Rightarrow> heap \<Rightarrow> nat list \<Rightarrow> nat list" where
  "slow_subs cfg env h rs = filter (\<lambda>r. too_slow cfg env (the (h r))) rs"

definition active_subs :: "heap \<Rightarrow> nat list \<Rightarrow> nat list" where
  "active_subs h rs = filter (\<lambda>r. conn_state (the (h r)) = ACTIVE) rs"

definition slow_ids :: "settings \<Rightarrow> string \<Rightarrow> heap \<Rightarrow> nat list \<Rightarrow> string list" where
  "slow_ids cfg env h rs = map (\<lambda>r. connection_id (the (h r))) (slow_subs cfg env h rs)"

definition delivery ::
  "settings \<Rightarrow> string \<Rightarrow> string \<Rightarrow> int option \<Rightarrow> nat list \<Rightarrow> ('r, 'w) world \<Rightarrow> ('r, 'w) world \<Rightarrow> bool" where
  "delivery cfg channel env sq rs w w' =
     (w_heap w' = (\<lambda>r. if r \<in> set rs then map_option (delivered cfg channel env sq) (w_heap w r) else w_heap w r) \<and>
      w_spawned w' = w_spawned w @ slow_subs cfg env (w_heap w) rs \<and>
      w_reg w' = w_reg w \<and> w_redis w' = w_redis w \<and> w_ws w' = w_ws w \<and> w_subs w' = w_subs w)"

lemma subs_cong:
  assumes "\<And>r. r \<in> set rs \<Longrightarrow> h' r = h r"
  shows "slow_subs cfg env h' rs = slow_subs cfg env h rs" "active_subs h' rs = active_subs h rs"
    "slow_ids cfg env h' rs = slow_ids cfg env h rs"
proof -
  show s: "slow_subs cfg env h' rs = slow_subs cfg env h rs" "active_subs h' rs = active_subs h rs"
    unfolding slow_subs_def active_subs_def using assms by (auto intro!: filter_cong)
  have "r \<in> set (slow_subs cfg env h rs) \<Longrightarrow> h' r = h r" for r using assms by (auto simp: slow_subs_def)
  then show "slow_ids cfg env h' rs = slow_ids cfg env h rs" unfolding slow_ids_def s by (auto intro!: map_cong)
qed

lemma slow_subs_Cons:
  "slow_subs cfg env h (r # rs) = (if too_slow cfg env (the (h r)) then [r] else []) @ slow_subs cfg env h rs"
  by (simp add: slow_subs_def)

lemma deliver_loop_effect:
  assumes "distinct rs" and "\<forall>r \<in> set rs. w_heap w r \<noteq> None"
  shows "\<exists>w'. deliver_loop cfg channel env sq rs dis n w =
      (Inr (dis @ slow_ids cfg env (w_heap w) rs, n + int (length (active_subs (w_heap w) rs))), w') \<and>
    delivery cfg channel env sq rs w w'"
  using assms
proof (induction rs arbitrary: w dis n)
  case Nil
  then show ?case by (simp add: delivery_def slow_ids_def slow_subs_def active_subs_def)
next
  case (Cons r rs)
  obtain c where c: "w_heap w r = Some c" using Cons.prems(2) by auto
  have r: "r \<notin> set rs" "distinct rs" using Cons.prems(1) by simp_all
  define w1 where "w1 = (if conn_state c \<noteq> ACTIVE then w
     else if over_limit cfg env c then w\<lparr>w_spawned := w_spawned w @ [r]\<rparr>
     else w\<lparr>w_heap := (w_heap w)(r \<mapsto> delivered cfg channel env sq c),
       w_metrics := (w_metrics w)(''relay_messages_delivered_total'' := metric_plus (w_metrics w ''relay_messages_delivered_total'') 1)\<rparr>)"
  let ?dis = "dis @ (if too_slow cfg env c then [connection_id c] else [])"
  let ?n = "n + (if conn_state c = ACTIVE then 1 else 0)"
  have step: "deliver_loop cfg channel env sq (r # rs) dis n w = deliver_loop cfg channel env sq rs ?dis ?n w1"
    unfolding deliver_loop_step [OF c] w1_def too_slow_def by simp
  have same: "w_heap w1 = (w_heap w)(r \<mapsto> delivered cfg channel env sq c)"
    using c delivered_same [of c cfg env channel sq] by (auto simp: w1_def fun_upd_idem)
  have others: "x \<in> set rs \<Longrightarrow> w_heap w1 x = w_heap w x" for x using r(1) same by auto
  have "\<forall>x \<in> set rs. w_heap w1 x \<noteq> None" using Cons.prems(2) others by simp
  from Cons.IH [OF r(2) this, of ?dis ?n] obtain w' where
    w': "deliver_loop cfg channel env sq rs ?dis ?n w1 =
      (Inr (?dis @ slow_ids cfg env (w_heap w) rs, ?n + int (length (active_subs (w_heap w) rs))), w')"
    "delivery cfg channel env sq rs w1 w'" using subs_cong [OF others] by auto
  have w1: "w_spawned w1 = w_spawned w @ (if too_slow cfg env c then [r] else [])" "w_reg w1 = w_reg w"
    "w_redis w1 = w_redis w" "w_ws w1 = w_ws w" "w_subs w1 = w_subs w"
    by (simp_all add: w1_def too_slow_def)
  have slow: "slow_subs cfg env (w_heap w1) rs = slow_subs cfg env (w_heap w) rs"
    by (rule subs_cong(1)) (rule others)
  have "delivery cfg channel env sq (r # rs) w w'"
    using w'(2) c r(1) unfolding delivery_def slow w1 slow_subs_Cons unfolding same
    by (auto simp: fun_eq_iff)
  with w'(1) step c show ?case by (auto simp: slow_ids_def slow_subs_def active_subs_def)
qed

section \<open>The whole of a delivery, by connection\<close>

lemma delivered_push:
  "delivered cfg ch env sq c =
     (if conn_state c = ACTIVE \<and> \<not> over_limit cfg env c then push_message env NORMAL (Some ch) sq c else c)"
  by (simp add: delivered_def enqueue_def push_message_def Let_def)

lemma same_index_delivered: "same_index c (delivered cfg ch env sq c)"
  by (simp add: same_index_def info_def)

lemma deliver_local_run:
  assumes inv: "reg_inv (w_heap w, w_reg w)"
  obtains w' where "deliver_local cfg ch env sq w =
      (Inr (slow_ids cfg env (w_heap w) (local_subscribers (w_reg w) ch)), w')"
    "delivery cfg ch env sq (local_subscribers (w_reg w) ch) w w'"
proof -
  let ?rs = "local_subscribers (w_reg w) ch"
  have "\<forall>r \<in> set ?rs. w_heap w r \<noteq> None" using local_subscribers_live [OF inv] by fastforce
  from deliver_loop_effect [OF local_subscribers_distinct [OF inv] this, of cfg ch env sq "[]" 0]
  obtain w1 where w1: "deliver_loop cfg ch env sq ?rs [] 0 w =
      (Inr (slow_ids cfg env (w_heap w) ?rs, int (length (active_subs (w_heap w) ?rs))), w1)"
    "delivery cfg ch env sq ?rs w w1" by auto
  show thesis
  proof (rule that)
    show "deliver_local cfg ch env sq w = (Inr (slow_ids cfg env (w_heap w) ?rs),
        snd (metric_set ''relay_fanout_size'' (int (length (active_subs (w_heap w) ?rs))) w1))"
      using w1(1) by (simp add: deliver_local_def bindE_def thenE_def metric_set_def)
    show "delivery cfg ch env sq ?rs w (snd (metric_set ''relay_fanout_size'' (int (length (active_subs (w_heap w) ?rs))) w1))"
      using w1(2) by (simp add: delivery_def metric_set_def)
  qed
qed

lemma delivery_reg:
  assumes inv: "reg_inv (w_heap w, w_reg w)" and d: "delivery cfg ch env sq (local_subscribers (w_reg w) ch) w w'"
  shows "reg_inv (w_heap w', w_reg w') \<and> reg_view (w_heap w', w_reg w') = reg_view (w_heap w, w_reg w)"
proof -
  have "rel_option same_index (w_heap w r) (w_heap w' r)" for r
    using d same_index_delivered by (cases "w_heap w r") (auto simp: delivery_def same_index_def)
  from reg_inv_heap_same [OF inv this] d show ?thesis by (simp add: delivery_def)
qed

lemma delivery_conn:
  assumes inv: "reg_inv (w_heap w, w_reg w)" and d: "delivery cfg ch env sq (local_subscribers (w_reg w) ch) w w'"
    and c: "conn_of (w_heap w, w_reg w) cid = Some c"
  shows "conn_of (w_heap w', w_reg w') cid =
    Some (if ch \<in> set (subscriptions c) then delivered cfg ch env sq c else c)"
proof -
  from c obtain r where r: "map_of (by_id (w_reg w)) cid = Some r" "w_heap w r = Some c"
    by (auto simp: conn_of_def split: Option.bind_splits)
  with local_subscribers_iff [OF inv r] d show ?thesis by (auto simp: conn_of_def delivery_def)
qed

lemma slow_ids_set:
  assumes inv: "reg_inv (w_heap w, w_reg w)"
  shows "set (slow_ids cfg env (w_heap w) (local_subscribers (w_reg w) ch)) =
    {cid. \<exists>c. conn_of (w_heap w, w_reg w) cid = Some c \<and> ch \<in> set (subscriptions c) \<and> too_slow cfg env c}"
    (is "?S = ?T")
proof (intro set_eqI iffI)
  fix cid assume "cid \<in> ?S"
  then obtain r where "r \<in> set (local_subscribers (w_reg w) ch)" "too_slow cfg env (the (w_heap w r))"
    "cid = connection_id (the (w_heap w r))" by (auto simp: slow_ids_def slow_subs_def)
  with local_subscribers_live [OF inv this(1)] show "cid \<in> ?T" by auto
next
  fix cid assume "cid \<in> ?T"
  then obtain c where c: "conn_of (w_heap w, w_reg w) cid = Some c" "ch \<in> set (subscriptions c)" "too_slow cfg env c"
    by blast
  then obtain r where r: "map_of (by_id (w_reg w)) cid = Some r" "w_heap w r = Some c"
    by (auto simp: conn_of_def split: Option.bind_splits)
  have "connection_id c = cid" using conn_of_ref [OF inv r(1)] r(2) by auto
  with r(2) c local_subscribers_iff [OF inv r] show "cid \<in> ?S"
    by (force simp: slow_ids_def slow_subs_def)
qed

text \<open>C8: One slow consumer never holds up the others.  Delivering a message to a channel on a node
  returns, and adds it, once and at the end, to the queue of every registered connection that is
  active, subscribed and below its queue bound; it changes no other connection, and neither Redis, nor
  a socket, nor the registry.  The ids it returns are exactly those of the active subscribers that are
  over their bound, and a task that terminates each of them, and nobody else, is started.\<close>

theorem fanout_isolated:
  assumes "reg_inv (w_heap w, w_reg w)"
  shows "\<exists>w' slow. deliver_local cfg ch env sq w = (Inr slow, w') \<and>
    (\<forall>cid c. conn_of (w_heap w, w_reg w) cid = Some c \<longrightarrow>
       conn_of (w_heap w', w_reg w') cid =
         Some (if ch \<in> set (subscriptions c) \<and> conn_state c = ACTIVE \<and> \<not> over_limit cfg env c
               then push_message env NORMAL (Some ch) sq c else c)) \<and>
    set slow = {cid. \<exists>c. conn_of (w_heap w, w_reg w) cid = Some c \<and> ch \<in> set (subscriptions c) \<and>
      conn_state c = ACTIVE \<and> over_limit cfg env c} \<and>
    (\<exists>rs. w_spawned w' = w_spawned w @ rs \<and> map (\<lambda>r. connection_id (the (w_heap w r))) rs = slow) \<and>
    reg_inv (w_heap w', w_reg w') \<and> w_reg w' = w_reg w \<and> w_redis w' = w_redis w \<and> w_ws w' = w_ws w"
proof -
  let ?rs = "local_subscribers (w_reg w) ch"
  obtain w' where run: "deliver_local cfg ch env sq w = (Inr (slow_ids cfg env (w_heap w) ?rs), w')"
    and d: "delivery cfg ch env sq ?rs w w'" by (rule deliver_local_run [OF assms])
  have sp: "w_spawned w' = w_spawned w @ slow_subs cfg env (w_heap w) ?rs" "w_reg w' = w_reg w"
    "w_redis w' = w_redis w" "w_ws w' = w_ws w" using d by (simp_all add: delivery_def)
  show ?thesis
    using run sp delivery_conn [OF assms d] delivery_reg [OF assms d] slow_ids_set [OF assms, of cfg env ch]
    by (intro exI [of _ w'] exI [of _ "slow_ids cfg env (w_heap w) ?rs"] conjI)
      (auto simp: delivered_push too_slow_def slow_ids_def)
qed

text \<open>Two subscribers of a channel: \<open>a\<close> with an empty queue, \<open>b\<close> with a full one.\<close>

definition fast_conn :: connection where
  "fast_conn = new_connection ''a'' ''s1'' ''t'' ACTIVE 0"

definition full_conn :: connection where
  "full_conn = push_message ''m'' NORMAL (Some ''t-t:c'') (Some 1) (new_connection ''b'' ''s2'' ''t'' ACTIVE 0)"

definition two_subscribers :: reg_state where
  "two_subscribers = registry_subscribe ''b'' ''t-t:c'' (registry_subscribe ''a'' ''t-t:c''
     (registry_add 1 (registry_add 0 ([0 \<mapsto> fast_conn, 1 \<mapsto> full_conn], empty_registry))))"

definition one_slot :: settings where
  "one_slot = default_settings\<lparr>connection_queue_max_messages := 1\<rparr>"

lemma demo_conns:
  "connection_id fast_conn = ''a''" "connection_id full_conn = ''b''" "subscriptions fast_conn = []" "subscriptions full_conn = []"
  "tenant_id fast_conn = ''t''" "tenant_id full_conn = ''t''" "session_id fast_conn = ''s1''" "session_id full_conn = ''s2''"
  "conn_state fast_conn = ACTIVE" "conn_state full_conn = ACTIVE"
  by (simp_all add: fast_conn_def full_conn_def push_message_def)

lemma two_subscribers_ok:
  "reg_inv two_subscribers \<and> conn_of two_subscribers =
    [''a'' \<mapsto> fast_conn\<lparr>subscriptions := [''t-t:c'']\<rparr>, ''b'' \<mapsto> full_conn\<lparr>subscriptions := [''t-t:c'']\<rparr>]"
proof -
  define h :: heap where "h = [0 \<mapsto> fast_conn, 1 \<mapsto> full_conn]"
  have h: "h 0 = Some fast_conn" "h 1 = Some full_conn" by (simp_all add: h_def)
  obtain R1 where s1: "registry_add 0 (h, empty_registry) = (h, R1)" using h by (simp add: registry_add_def)
  obtain R2 where s2: "registry_add 1 (h, R1) = (h, R2)" using h by (simp add: registry_add_def)
  have c0: "conn_of (h, empty_registry) = Map.empty" by (simp add: conn_of_def empty_registry_def fun_eq_iff)
  have c1: "conn_of (h, R1) = [''a'' \<mapsto> fast_conn]" using conn_of_add [of h 0 fast_conn empty_registry] h(1) by (simp add: s1 c0 demo_conns)
  have c2: "conn_of (h, R2) = [''a'' \<mapsto> fast_conn, ''b'' \<mapsto> full_conn]" using conn_of_add [of h 1 full_conn R1] h(2) by (simp add: s2 [simplified] c1 demo_conns)
  have "reg_inv (h, R1)" using reg_inv_add [of h empty_registry 0 fast_conn] h(1) by (simp add: s1 c0 demo_conns reg_inv_empty)
  then have i2: "reg_inv (h, R2)" using reg_inv_add [of h R1 1 full_conn] h(2) by (simp add: s2 [simplified] c1 demo_conns)
  note i3 = reg_inv_subscribe [OF i2, of "''a''" "''t-t:c''"]
  have two: "two_subscribers = registry_subscribe ''b'' ''t-t:c'' (registry_subscribe ''a'' ''t-t:c'' (h, R2))"
    by (simp add: two_subscribers_def h_def [symmetric] s1 s2 del: One_nat_def)
  show ?thesis
    unfolding two conn_of_subscribe [OF i3] conn_of_subscribe [OF i2] c2
    using reg_inv_subscribe [OF i3] by (simp add: demo_conns set_add_def fun_upd_twist)
qed

lemmas two_subscribers_inv = two_subscribers_ok [THEN conjunct1]
lemmas two_subscribers_conns = two_subscribers_ok [THEN conjunct2]

theorem fanout_isolated_witness:
  "\<exists>w w' slow. reg_inv (w_heap w, w_reg w) \<and> deliver_local one_slot ''t-t:c'' ''hi'' (Some 2) (w :: (mem, wire) world) = (Inr slow, w') \<and>
     set slow = {''b''} \<and>
     conn_of (w_heap w', w_reg w') ''a'' =
       Some (push_message ''hi'' NORMAL (Some ''t-t:c'') (Some 2) (fast_conn\<lparr>subscriptions := [''t-t:c'']\<rparr>))"
proof -
  define w where "w = (mem_world [])\<lparr>w_heap := fst two_subscribers, w_reg := snd two_subscribers\<rparr>"
  have w: "(w_heap w, w_reg w) = two_subscribers" by (simp add: w_def)
  have lim: "\<not> over_limit one_slot ''hi'' (fast_conn\<lparr>subscriptions := X\<rparr>)" "over_limit one_slot ''hi'' (full_conn\<lparr>subscriptions := X\<rparr>)" for X
    by (simp_all add: over_limit_def one_slot_def queue_depth_def fast_conn_def full_conn_def push_message_def
        new_connection_def utf8_size_def default_settings_def)
  have slow: "{cid. \<exists>c. conn_of two_subscribers cid = Some c \<and> ''t-t:c'' \<in> set (subscriptions c) \<and>
      conn_state c = ACTIVE \<and> over_limit one_slot ''hi'' c} = {''b''}"
    unfolding two_subscribers_conns using lim by (auto simp: demo_conns split: if_splits)
  obtain w' slow where run: "deliver_local one_slot ''t-t:c'' ''hi'' (Some 2) w = (Inr slow, w')"
    and e: "\<forall>cid c. conn_of two_subscribers cid = Some c \<longrightarrow> conn_of (w_heap w', w_reg w') cid =
         Some (if ''t-t:c'' \<in> set (subscriptions c) \<and> conn_state c = ACTIVE \<and> \<not> over_limit one_slot ''hi'' c
               then push_message ''hi'' NORMAL (Some ''t-t:c'') (Some 2) c else c)"
      "set slow = {cid. \<exists>c. conn_of two_subscribers cid = Some c \<and> ''t-t:c'' \<in> set (subscriptions c) \<and>
         conn_state c = ACTIVE \<and> over_limit one_slot ''hi'' c}"
    using fanout_isolated [of w one_slot "''t-t:c''" "''hi''" "Some 2", unfolded w, OF two_subscribers_inv] by blast
  have "conn_of two_subscribers ''a'' = Some (fast_conn\<lparr>subscriptions := [''t-t:c'']\<rparr>)"
    unfolding two_subscribers_conns by simp
  from e(1) [rule_format, OF this] have a: "conn_of (w_heap w', w_reg w') ''a'' =
      Some (push_message ''hi'' NORMAL (Some ''t-t:c'') (Some 2) (fast_conn\<lparr>subscriptions := [''t-t:c'']\<rparr>))"
    using lim(1) by (simp add: demo_conns)
  show ?thesis
    by (intro exI [of _ w] exI [of _ w'] exI [of _ slow] conjI)
      (simp only: w two_subscribers_inv, rule run, simp only: e(2) slow, rule a)
qed

section \<open>Supervision of the listener\<close>

definition round_failed :: "pubsub_round \<Rightarrow> bool" where
  "round_failed ro = (ro_subscribe ro \<noteq> None)"

text \<open>The number of rounds that failed in a row up to round \<open>i\<close>.\<close>

definition failures :: "pubsub_round list \<Rightarrow> nat \<Rightarrow> nat" where
  "failures ros i = length (takeWhile round_failed (rev (take (Suc i) ros)))"

lemma failures_le: "failures ros i \<le> Suc i"
  using length_takeWhile_le [of round_failed "rev (take (Suc i) ros)"] by (simp add: failures_def)

lemma failures_Cons:
  assumes "i < length ros"
  shows "failures (ro # ros) (Suc i) =
    (if failures ros i = Suc i then Suc i + (if round_failed ro then 1 else 0) else failures ros i)"
proof -
  define xs where "xs = rev (take (Suc i) ros)"
  have len: "length xs = Suc i" and f: "failures ros i = length (takeWhile round_failed xs)"
    "failures (ro # ros) (Suc i) = length (takeWhile round_failed (xs @ [ro]))"
    using assms by (simp_all add: failures_def xs_def)
  show ?thesis
  proof (cases "\<forall>x \<in> set xs. round_failed x")
    case True
    then have "takeWhile round_failed (xs @ [ro]) = xs @ takeWhile round_failed [ro]" "takeWhile round_failed xs = xs"
      by (auto simp: takeWhile_eq_all_conv)
    with len f show ?thesis by simp
  next
    case False
    then have "takeWhile round_failed (xs @ [ro]) = takeWhile round_failed xs" by (auto intro: takeWhile_append1)
    moreover have "length (takeWhile round_failed xs) \<noteq> Suc i"
      using False len by (metis takeWhile_eq_all_conv takeWhile_eq_take take_all_iff order_refl)
    ultimately show ?thesis by (simp add: f)
  qed
qed

lemma backoff_double: "min (min (2 ^ j / 4) 5 * 2) 5 = min (2 ^ Suc j / 4) (5 :: rat)"
  by (simp add: min_def)

lemma listener_sleeps:
  assumes "\<forall>ro \<in> set ros. \<not> ro_stopped ro \<and> \<not> ro_stop_after ro"
  shows "fst (run_pubsub_listener cfg ch ros (min (2 ^ j / 4) 5) w) =
    map (\<lambda>i. min (2 ^ (if failures ros i = Suc i then j + i else failures ros i) / 4) 5) [0..<length ros]"
  using assms
proof (induction ros arbitrary: j w)
  case (Cons ro ros)
  define j' where "j' = (if round_failed ro then j else 0)"
  define w1 where "w1 = (if round_failed ro then w else snd (listen_items cfg ch (ro_items ro) w))"
  have b: "(1 / 4 :: rat) = min (2 ^ 0 / 4) 5" by simp
  have "fst (run_pubsub_listener cfg ch (ro # ros) (min (2 ^ j / 4) 5) w) =
      min (2 ^ j' / 4) 5 # fst (run_pubsub_listener cfg ch ros (min (min (2 ^ j' / 4) 5 * 2) 5) w1)"
    using Cons.prems
    by (auto simp: j'_def w1_def round_failed_def Let_def min_def split: option.split prod.split)
  also have "\<dots> = min (2 ^ j' / 4) 5 #
      map (\<lambda>i. min (2 ^ (if failures ros i = Suc i then Suc j' + i else failures ros i) / 4) 5) [0..<length ros]"
    unfolding backoff_double using Cons.IH [of "Suc j'" w1] Cons.prems by simp
  also have "\<dots> = map (\<lambda>i. min (2 ^ (if failures (ro # ros) i = Suc i then j + i else failures (ro # ros) i) / 4) 5)
      [0..<length (ro # ros)]"
  proof -
    have "failures (ro # ros) 0 = (if round_failed ro then 1 else 0)" by (simp add: failures_def)
    moreover have "(if failures ros i = Suc i then Suc j' + i else failures ros i) =
        (if failures (ro # ros) (Suc i) = Suc (Suc i) then j + Suc i else failures (ro # ros) (Suc i))"
      if "i < length ros" for i
      using failures_Cons [OF that, of ro] failures_le [of ros i] by (auto simp: j'_def)
    ultimately show ?thesis by (auto simp: upt_conv_Cons map_Suc_upt [symmetric] j'_def simp del: upt_Suc)
  qed
  finally show ?case .
qed simp

lemma listener_stops:
  assumes "\<forall>ro \<in> set ros. \<not> ro_stopped ro \<and> \<not> ro_stop_after ro" and "ro_stopped ro"
  shows "run_pubsub_listener cfg ch (ros @ ro # rest) b w = run_pubsub_listener cfg ch ros b w"
  using assms(1) by (induction ros arbitrary: b w) (auto simp: assms(2) Let_def split: prod.split option.split)

text \<open>C29: The listener reconnects until it is stopped, with capped exponential backoff.  As long as the
  stop event is not set, every round of the listener, however it ended, is followed by a sleep and
  another round; the sleep after round \<open>i\<close> is a quarter of a second when that round subscribed,
  doubled for every round that failed since the last one that did (or since the first round), and
  never more than five seconds.  Once the stop event is set, no further round runs.\<close>

theorem listener_backoff:
  assumes "\<forall>ro \<in> set ros. \<not> ro_stopped ro \<and> \<not> ro_stop_after ro" and "ro_stopped ro"
  shows "fst (run_pubsub_listener cfg ch (ros @ ro # rest) (1 / 4) w) =
      map (\<lambda>i. min (2 ^ min i (failures ros i) / 4) 5) [0..<length ros]"
proof -
  have "fst (run_pubsub_listener cfg ch ros (1 / 4) w) =
      map (\<lambda>i. min (2 ^ (if failures ros i = Suc i then i else failures ros i) / 4) 5) [0..<length ros]"
    using listener_sleeps [OF assms(1), of cfg ch 0 w] by simp
  also have "(\<lambda>i. if failures ros i = Suc i then i else failures ros i) = (\<lambda>i. min i (failures ros i))"
    (is "?f = ?g")
  proof
    fix i
    show "?f i = ?g i" using failures_le [of ros i] by auto
  qed
  finally show ?thesis unfolding listener_stops [OF assms] .
qed

definition demo_round :: "exn option \<Rightarrow> bool \<Rightarrow> pubsub_round" where
  "demo_round e b = \<lparr>ro_stopped = b, ro_subscribe = e, ro_items = [], ro_stop_after = False\<rparr>"

theorem listener_backoff_witness:
  "fst (run_pubsub_listener default_settings ''c''
      ([demo_round (Some RedisConnectionError) False, demo_round (Some RedisConnectionError) False, demo_round None False,
        demo_round (Some RedisTimeoutError) False] @ demo_round None True # []) (1 / 4) (mem_world [])) = [1/4, 1/2, 1/4, 1/2]"
proof -
  let ?ros = "[demo_round (Some RedisConnectionError) False, demo_round (Some RedisConnectionError) False, demo_round None False,
    demo_round (Some RedisTimeoutError) False]"
  have "map (\<lambda>i. min (2 ^ min i (failures ?ros i) / 4) 5) [0..<length ?ros] = [1/4, 1/2, 1/4, 1/2 :: rat]"
    by (simp add: failures_def demo_round_def round_failed_def upt_rec)
  then show ?thesis
    using listener_backoff [of ?ros "demo_round None True" default_settings "''c''" "[]" "mem_world []"]
    by (simp add: demo_round_def del: run_pubsub_listener.simps)
qed

end
