(* ===== verification/Sessions.thy ===== *)
theory Sessions
  imports Redis_Client
begin

text \<open>
  \<open>apps/gateway/sessions/manager.py\<close>: the session record in Redis (a hash with the resume window as
  its time to live) and the cumulative acknowledgement position of a session on a channel.  The
  session id, a fresh \<open>uuid4\<close>, is an argument of \<open>create_session\<close>.
\<close>

section \<open>Operations\<close>

definition create_session ::
  "'r redis \<Rightarrow> pyfloat \<Rightarrow> settings \<Rightarrow> string \<Rightarrow> string \<Rightarrow> string \<Rightarrow> ('r, string) io" where
  "create_session X F cfg uuid tid nid =
     bindE (getE (rclock X)) (\<lambda>now.
     thenE (rcall X (HSET (session_key uuid)
              [(''tenant_id'', tid), (''current_node'', nid),
               (''created_at'', str_float F now), (''last_seen'', str_float F now)]))
    (thenE (rcall X (EXPIRE (session_key uuid) (session_resume_window_seconds cfg)))
           (returnE uuid)))"

definition touch_session ::
  "'r redis \<Rightarrow> pyfloat \<Rightarrow> settings \<Rightarrow> string \<Rightarrow> string \<Rightarrow> ('r, unit) io" where
  "touch_session X F cfg sid nid =
     bindE (getE (rclock X)) (\<lambda>now.
     thenE (rcall X (HSET (session_key sid) [(''last_seen'', str_float F now), (''current_node'', nid)]))
    (thenE (rcall X (EXPIRE (session_key sid) (session_resume_window_seconds cfg)))
           (returnE ())))"

text \<open>\<open>data or None\<close>: an empty dict is falsy.\<close>

definition get_session :: "'r redis \<Rightarrow> string \<Rightarrow> ('r, fields option) io" where
  "get_session X sid =
     bindE (bindE (rcall X (HGETALL (session_key sid))) pairs_reply)
       (\<lambda>data. returnE (if data = [] then None else Some data))"

definition record_ack :: "'r redis \<Rightarrow> settings \<Rightarrow> string \<Rightarrow> string \<Rightarrow> int \<Rightarrow> ('r, unit) io" where
  "record_ack X cfg sid channel sequence =
     (let key = session_ack_key sid channel;
          write = thenE (rcall X (SET key (show_int sequence) (Some (session_resume_window_seconds cfg))))
                        (returnE ())
      in bindE (bindE (rcall X (GET key)) string_reply) (\<lambda>current.
           case current of
             None \<Rightarrow> write
           | Some v \<Rightarrow>
               (case parse_int v of
                  None \<Rightarrow> raiseE (ValueError v)
                | Some n \<Rightarrow> if n < sequence then write else returnE ())))"

definition get_ack :: "'r redis \<Rightarrow> string \<Rightarrow> string \<Rightarrow> ('r, int) io" where
  "get_ack X sid channel =
     bindE (bindE (rcall X (GET (session_ack_key sid channel))) string_reply) (\<lambda>val.
       case val of
         None \<Rightarrow> returnE 0
       | Some v \<Rightarrow> (case parse_int v of None \<Rightarrow> raiseE (ValueError v) | Some n \<Rightarrow> returnE n))"

section \<open>Acknowledgement positions\<close>

text \<open>The position a reader sees at a time, and the position stored, live or not.\<close>

definition ack_of_slot :: "slot option \<Rightarrow> int" where
  "ack_of_slot x =
     (case x of Some (RString v, _) \<Rightarrow> (case parse_int v of Some n \<Rightarrow> n | None \<Rightarrow> 0) | _ \<Rightarrow> 0)"

definition ack_at :: "time \<Rightarrow> rdb \<Rightarrow> string \<Rightarrow> string \<Rightarrow> int" where
  "ack_at t d sid ch = ack_of_slot (lookup_at t d (session_ack_key sid ch))"

definition ack_stored :: "rdb \<Rightarrow> string \<Rightarrow> string \<Rightarrow> int" where
  "ack_stored d sid ch = ack_of_slot (rkeys d (session_ack_key sid ch))"

definition ack_wf :: "rdb \<Rightarrow> string \<Rightarrow> string \<Rightarrow> bool" where
  "ack_wf d sid ch =
     (case rkeys d (session_ack_key sid ch) of
        None \<Rightarrow> True | Some (v, _) \<Rightarrow> (\<exists>n \<ge> 0. v = RString (show_int n)))"

text \<open>Other clients leave the key alone.\<close>

definition key_rely :: "(rdb \<Rightarrow> rdb \<Rightarrow> bool) \<Rightarrow> string \<Rightarrow> bool" where
  "key_rely rely k = (\<forall>d d'. rely d d' \<longrightarrow> rkeys d' k = rkeys d k)"

lemma key_rely_eq [simp]: "key_rely (=) k"
  by (simp add: key_rely_def)

lemma ack_of_slot_show [simp]: "ack_of_slot (Some (RString (show_int n), dl)) = n" "ack_of_slot None = 0"
  by (simp_all add: ack_of_slot_def)

lemma ack_at_le_stored: "ack_wf d sid ch \<Longrightarrow> ack_at t d sid ch \<le> ack_stored d sid ch"
  by (auto simp: ack_at_def ack_stored_def ack_wf_def lookup_at_def split: option.splits)

lemma ack_frame:
  "rkeys d' (session_ack_key sid ch) = rkeys d (session_ack_key sid ch) \<Longrightarrow>
     ack_at t d' sid ch = ack_at t d sid ch \<and> ack_stored d' sid ch = ack_stored d sid ch \<and>
     ack_wf d' sid ch = ack_wf d sid ch"
  by (simp add: ack_at_def ack_stored_def ack_wf_def lookup_at_def)

context redis_service
begin

lemma rcall_frame:
  assumes "key_rely rely k" and "k \<notin> written c"
  shows "rkeys (db (snd (rcall X c s))) k = rkeys (db s) k"
  by (rule rcall_inv [where I = "\<lambda>d. rkeys d k = rkeys (db s) k"])
    (use assms in \<open>auto simp: key_rely_def dest: redis_ok_frame\<close>)

lemma rcall_read:
  assumes "key_rely rely k" and "written c = {}" and "rcall X c s = (Inr r, s')"
  obtains t d d' where "rclock X s \<le> t" "t \<le> rclock X s'" "rkeys d k = rkeys (db s) k" "redis_ok t c d r d'"
    "rkeys (db s') k = rkeys (db s) k"
proof -
  from assms(3) obtain t d d' where t: "rclock X s \<le> t" "t \<le> rclock X s'"
    and d: "(attempt rely (rclock X s) (rclock X s') [c])\<^sup>*\<^sup>* (db s) d"
    and ok: "redis_ok t c d r d'" by (rule rcall_ok)
  have k: "k \<notin> written c" using assms(2) by simp
  have "rkeys d k = rkeys (db s) k"
    by (rule attempts_inv [OF d, where I = "\<lambda>d. rkeys d k = rkeys (db s) k"])
      (use assms in \<open>auto simp: key_rely_def dest: redis_ok_frame [OF _ k]\<close>)
  then show thesis using that t ok rcall_frame [OF assms(1) k, of s] assms(3) by auto
qed

lemma ack_write:
  assumes "key_rely rely (session_ack_key sid ch)" and "0 \<le> n" and "M \<le> n"
    and "ack_wf (db s) sid ch" and "M \<le> ack_stored (db s) sid ch"
    and "rcall X (SET (session_ack_key sid ch) (show_int n) (Some w)) s = (x, s')"
  shows "ack_wf (db s') sid ch \<and> M \<le> ack_stored (db s') sid ch \<and> ((\<exists>r. x = Inr r) \<longrightarrow> ack_stored (db s') sid ch = n)"
proof -
  let ?c = "SET (session_ack_key sid ch) (show_int n) (Some w)"
  let ?I = "\<lambda>d. ack_wf d sid ch \<and> M \<le> ack_stored d sid ch"
  have set: "?I d'" if "redis_ok t ?c d r d'" "?I d" for t r d d'
    using that assms(2,3) by (cases "w \<le> 0") (auto simp: ack_wf_def ack_stored_def)
  have rely: "?I d'" if "rely d d'" "?I d" for d d'
    using that ack_frame [of d' sid ch d] assms(1) by (simp add: key_rely_def)
  have "?I (db (snd (rcall X ?c s)))"
    by (rule rcall_inv [where I = ?I]) (use assms(4,5) set rely in blast)+
  moreover have "ack_stored (db s') sid ch = n" if x: "x = Inr r" for r
  proof -
    from assms(6) x obtain t d d' where "redis_ok t ?c d r d'" "rely d' (db s')" "r \<noteq> RErr"
      by (metis rcall_ok)
    moreover from this have "rkeys (db s') (session_ack_key sid ch) = rkeys d' (session_ack_key sid ch)"
      using assms(1) by (simp add: key_rely_def)
    ultimately show ?thesis by (auto simp: ack_stored_def split: if_splits)
  qed
  ultimately show ?thesis using assms(6) by auto
qed

lemma record_ack_inv:
  assumes rely: "key_rely rely (session_ack_key sid ch)" and n: "0 \<le> n" and wf: "ack_wf (db s) sid ch"
    and run: "record_ack X cfg sid ch n s = (x, s')"
  shows "ack_wf (db s') sid ch \<and> ack_at (rclock X s') (db s) sid ch \<le> ack_stored (db s') sid ch \<and>
    (x = Inr () \<longrightarrow> n \<le> ack_stored (db s') sid ch)"
proof -
  let ?k = "session_ack_key sid ch"
  let ?w = "SET ?k (show_int n) (Some (session_resume_window_seconds cfg))"
  obtain y s1 where get: "rcall X (GET ?k) s = (y, s1)" by (cases "rcall X (GET ?k) s")
  have same: "rkeys (db s1) ?k = rkeys (db s) ?k"
    using rcall_frame [OF rely, of "GET ?k" s] get by simp
  have wf1: "ack_wf (db s1) sid ch" and st1: "ack_stored (db s1) sid ch = ack_stored (db s) sid ch"
    using ack_frame [OF same] wf by simp_all
  show ?thesis
  proof (cases y)
    case (Inl e)
    with run get have "s' = s1" "x = Inl e" by (simp_all add: record_ack_def bindE_def Let_def)
    with wf1 st1 ack_at_le_stored [OF wf] show ?thesis by simp
  next
    case (Inr r)
    have w: "written (GET ?k) = {}" by simp
    obtain t d d' where t: "rclock X s \<le> t" "t \<le> rclock X s1"
      and d: "rkeys d ?k = rkeys (db s) ?k" and r: "redis_ok t (GET ?k) d r d'"
      by (rule rcall_read [OF rely w get [unfolded Inr]])
    have look: "lookup_at t d ?k = lookup_at t (db s) ?k" by (rule lookup_frame [OF d])
    show ?thesis
    proof (cases "lookup_at t (db s) ?k")
      case None
      have wr: "thenE (rcall X ?w) (returnE ()) s1 = (x, s')"
        using run get Inr r look None by (simp add: record_ack_def bindE_def Let_def)
      then obtain z where z: "rcall X ?w s1 = (z, s')" "x = Inr () \<longrightarrow> (\<exists>r. z = Inr r)"
        by (cases "rcall X ?w s1") (auto simp: thenE_def bindE_def split: sum.splits)
      have clk: "rclock X s1 \<le> rclock X s'" using rcall_clock [of s1 ?w] z by simp
      with t None have "lookup_at (rclock X s') (db s) ?k = None" by (auto intro: lookup_None_mono)
      then have "ack_at (rclock X s') (db s) sid ch = 0" by (simp add: ack_at_def)
      moreover have "0 \<le> ack_stored (db s1) sid ch"
        using wf1 by (auto simp: ack_wf_def ack_stored_def split: option.splits)
      ultimately show ?thesis using ack_write [OF rely n n wf1 _ z(1)] z(2) by auto
    next
      case (Some v)
      then have "rkeys (db s) ?k = Some v" by (auto simp: lookup_at_def split: option.splits if_splits)
      with wf obtain m dl where m: "v = (RString (show_int m), dl)" by (cases v) (auto simp: ack_wf_def)
      then have stored: "ack_stored (db s) sid ch = m" using \<open>rkeys (db s) ?k = Some v\<close> by (simp add: ack_stored_def)
      have r': "r = RBulk (show_int m)" using r look Some m by simp
      note le = ack_at_le_stored [OF wf, of "rclock X s'"]
      show ?thesis
      proof (cases "m < n")
        case True
        with run get Inr r' have "thenE (rcall X ?w) (returnE ()) s1 = (x, s')"
          by (simp add: record_ack_def bindE_def Let_def)
        then obtain z where z: "rcall X ?w s1 = (z, s')" "x = Inr () \<longrightarrow> (\<exists>r. z = Inr r)"
          by (cases "rcall X ?w s1") (auto simp: thenE_def bindE_def split: sum.splits)
        from ack_write [OF rely n _ wf1 _ z(1), of m] True st1 stored z(2) le show ?thesis by auto
      next
        case False
        with run get Inr r' have "s' = s1" by (simp add: record_ack_def bindE_def Let_def)
        with False wf1 st1 stored le show ?thesis by simp
      qed
    qed
  qed
qed

end

section \<open>The session record\<close>

context redis_calm
begin

text \<open>Writing fields of a hash and setting its time to live.\<close>

lemma calm_hset_expire:
  assumes run: "thenE (rcall X (HSET k fs)) (thenE (rcall X (EXPIRE k w)) (returnE a)) s = (x, s')"
    and old: "lookup_at (rclock X s) (db s) k = None \<and> h = [] \<or>
      (\<exists>dl. lookup_at (rclock X s') (db s) k = Some (RHash h, dl))"
    and w: "0 < w"
  obtains t where "x = Inr a" "rclock X s \<le> t" "t \<le> rclock X s'"
    "rkeys (db s') k = Some (RHash (AList.updates (map fst fs) (map snd fs) h), Some (t + of_int w))"
    "\<And>k'. k' \<noteq> k \<Longrightarrow> rkeys (db s') k' = rkeys (db s) k'"
proof -
  let ?h = "AList.updates (map fst fs) (map snd fs) h"
  obtain r1 s1 t1 where t1: "rclock X s \<le> t1" "t1 \<le> rclock X s1"
    and ok1: "redis_ok t1 (HSET k fs) (db s) r1 (db s1)"
    and c1: "rcall X (HSET k fs) s = (if r1 = RErr then Inl ResponseError else Inr r1, s1)"
    by (rule calm_call)
  obtain r2 s2 t2 where t2: "rclock X s1 \<le> t2" "t2 \<le> rclock X s2"
    and ok2: "redis_ok t2 (EXPIRE k w) (db s1) r2 (db s2)"
    and c2: "rcall X (EXPIRE k w) s1 = (if r2 = RErr then Inl ResponseError else Inr r2, s2)"
    by (rule calm_call)
  have fin: "s' = (if r1 = RErr then s1 else s2)" "r1 \<noteq> RErr \<Longrightarrow> x = (if r2 = RErr then Inl ResponseError else Inr a)"
    using run by (auto simp: thenE_def bindE_def c1 c2 split: if_splits)
  then have s1: "rclock X s1 \<le> rclock X s'" using t2 by auto
  have "\<exists>dl. db s1 = put_key k (RHash ?h, dl) (db s) \<and> r1 \<noteq> RErr \<and> \<not> expired (rclock X s') dl"
  proof (cases "lookup_at t1 (db s) k")
    case None
    then have "h = []" using old lookup_mono [of "rclock X s'" "db s" k _ t1] t1 s1 by force
    with None ok1 show ?thesis by force
  next
    case (Some y)
    then have "lookup_at (rclock X s) (db s) k \<noteq> None" using lookup_mono [OF Some t1(1)] by simp
    with old obtain dl where dl: "lookup_at (rclock X s') (db s) k = Some (RHash h, dl)" by auto
    then have "lookup_at t1 (db s) k = Some (RHash h, dl)" using lookup_mono [OF dl] t1 s1 by auto
    with dl ok1 show ?thesis by (auto simp: lookup_at_def split: option.splits if_splits)
  qed
  then obtain dl where d1: "db s1 = put_key k (RHash ?h, dl) (db s)" "r1 \<noteq> RErr" "\<not> expired (rclock X s') dl"
    by blast
  with fin t2 have "\<not> expired t2 dl" by (auto simp: expired_def split: option.splits)
  with d1 ok2 w have "r2 = RInt 1" "db s2 = put_key k (RHash ?h, Some (t2 + of_int w)) (db s1)" by auto
  moreover have "rclock X s \<le> t2" using t1 t2 by linarith
  ultimately show thesis using that [of t2] fin d1 t2 by auto
qed

lemma calm_get_session:
  assumes "rkeys (db s) (session_key sid) = Some (RHash h, dl)" and "h \<noteq> []"
  obtains s' t where "rclock X s \<le> t" "t \<le> rclock X s'" "db s' = db s"
    "get_session X sid s = (Inr (if expired t dl then None else Some h), s')"
proof (rule calm_call [of s "HGETALL (session_key sid)"])
  fix r s' t
  assume "rclock X s \<le> t" "t \<le> rclock X s'" "redis_ok t (HGETALL (session_key sid)) (db s) r (db s')"
    "rcall X (HGETALL (session_key sid)) s = (if r = RErr then Inl ResponseError else Inr r, s')"
  then show thesis
    using assms by (intro that [of t s']) (auto simp: get_session_def bindE_def lookup_at_def)
qed

lemma calm_create_session:
  assumes "create_session X F cfg u tid nid s = (x, s')"
    and "rkeys (db s) (session_key u) = None" and "0 < session_resume_window_seconds cfg"
  obtains t where "x = Inr u" "rclock X s \<le> t" "t \<le> rclock X s'"
    "rkeys (db s') (session_key u) =
       Some (RHash [(''tenant_id'', tid), (''current_node'', nid),
                    (''created_at'', str_float F (rclock X s)), (''last_seen'', str_float F (rclock X s))],
             Some (t + of_int (session_resume_window_seconds cfg)))"
    "\<And>k'. k' \<noteq> session_key u \<Longrightarrow> rkeys (db s') k' = rkeys (db s) k'"
proof (rule calm_hset_expire [of "session_key u"])
  show "thenE (rcall X (HSET (session_key u)
      [(''tenant_id'', tid), (''current_node'', nid),
       (''created_at'', str_float F (rclock X s)), (''last_seen'', str_float F (rclock X s))]))
     (thenE (rcall X (EXPIRE (session_key u) (session_resume_window_seconds cfg))) (returnE u)) s = (x, s')"
    using assms(1) by (simp add: create_session_def bindE_def)
  show "lookup_at (rclock X s) (db s) (session_key u) = None \<and> [] = [] \<or>
      (\<exists>dl. lookup_at (rclock X s') (db s) (session_key u) = Some (RHash [], dl))"
    by (simp add: lookup_at_def assms(2))
qed (rule assms(3), simp add: that)

lemma calm_touch_session:
  assumes "touch_session X F cfg sid nid s = (x, s')"
    and "lookup_at (rclock X s) (db s) (session_key sid) = None \<and> h = [] \<or>
      (\<exists>dl. lookup_at (rclock X s') (db s) (session_key sid) = Some (RHash h, dl))"
    and "0 < session_resume_window_seconds cfg"
  obtains t where "x = Inr ()" "rclock X s \<le> t" "t \<le> rclock X s'"
    "rkeys (db s') (session_key sid) =
       Some (RHash (AList.updates [''last_seen'', ''current_node''] [str_float F (rclock X s), nid] h),
             Some (t + of_int (session_resume_window_seconds cfg)))"
proof (rule calm_hset_expire [of "session_key sid", OF _ assms(2)])
  show "thenE (rcall X (HSET (session_key sid)
      [(''last_seen'', str_float F (rclock X s)), (''current_node'', nid)]))
     (thenE (rcall X (EXPIRE (session_key sid) (session_resume_window_seconds cfg))) (returnE ())) s = (x, s')"
    using assms(1) by (simp add: touch_session_def bindE_def)
qed (rule assms(3), simp add: that)

lemma calm_session_lifetime:
  assumes "rkeys (db s) (session_key u) = None" and "0 < session_resume_window_seconds cfg"
    and "create_session X F cfg u tid nid s = (x, s1)"
    and "rkeys (db s2) (session_key u) = rkeys (db s1) (session_key u)" and "get_session X u s2 = (y, s3)"
  shows "x = Inr u \<and>
    (rclock X s3 < rclock X s + of_int (session_resume_window_seconds cfg) \<longrightarrow>
       (\<exists>h. y = Inr (Some h) \<and> map_of h ''tenant_id'' = Some tid \<and> map_of h ''current_node'' = Some nid)) \<and>
    (rclock X s1 + of_int (session_resume_window_seconds cfg) \<le> rclock X s2 \<longrightarrow> y = Inr None)"
proof -
  let ?w = "rat_of_int (session_resume_window_seconds cfg)"
  let ?h = "[(''tenant_id'', tid), (''current_node'', nid),
    (''created_at'', str_float F (rclock X s)), (''last_seen'', str_float F (rclock X s))]"
  obtain t where x: "x = Inr u" and t: "rclock X s \<le> t" "t \<le> rclock X s1"
    and k: "rkeys (db s1) (session_key u) = Some (RHash ?h, Some (t + ?w))"
    using calm_create_session [OF assms(3,1,2)] by metis
  from k assms(4) have "rkeys (db s2) (session_key u) = Some (RHash ?h, Some (t + ?w))" by simp
  then obtain s' t' where t': "rclock X s2 \<le> t'" "t' \<le> rclock X s'"
    and g: "get_session X u s2 = (Inr (if expired t' (Some (t + ?w)) then None else Some ?h), s')"
    by (rule calm_get_session) auto
  from g assms(5) have y: "y = Inr (if expired t' (Some (t + ?w)) then None else Some ?h)" and s': "s' = s3" by auto
  have "expired t' (Some (t + ?w))" if "rclock X s1 + ?w \<le> rclock X s2" using that t t' by simp
  moreover have "\<not> expired t' (Some (t + ?w))" if "rclock X s3 < rclock X s + ?w" using that t t' s' by simp
  ultimately show ?thesis using x y by simp
qed

lemma calm_touch_live:
  assumes "0 < session_resume_window_seconds cfg" and "touch_session X F cfg sid nid s = (x, s')"
    and "lookup_at (rclock X s') (db s) (session_key sid) = Some (RHash h, dl)"
  shows "x = Inr () \<and> (\<exists>t h'. rclock X s \<le> t \<and> t \<le> rclock X s' \<and>
     rkeys (db s') (session_key sid) = Some (RHash h', Some (t + of_int (session_resume_window_seconds cfg))) \<and>
     map_of h' = (map_of h)(''last_seen'' \<mapsto> str_float F (rclock X s), ''current_node'' \<mapsto> nid))"
  by (rule calm_touch_session [OF assms(2) _ assms(1), of h]) (use assms(3) in \<open>auto simp: update_conv'\<close>)

lemma calm_touch_expired:
  assumes "0 < session_resume_window_seconds cfg" and "touch_session X F cfg sid nid s = (x, s')"
    and "lookup_at (rclock X s) (db s) (session_key sid) = None"
  shows "x = Inr () \<and> (\<exists>h' dl. rkeys (db s') (session_key sid) = Some (RHash h', dl) \<and> map_of h' ''tenant_id'' = None)"
  by (rule calm_touch_session [OF assms(2) _ assms(1), of "[]"]) (use assms(3) in auto)

end

section \<open>Properties\<close>

text \<open>C21: One acknowledgement at a time never moves the position backwards.  With a Redis that may lose replies,
  time out and retry, and provided that no other client writes the position of this session and channel
  while the call runs (\<open>key_rely\<close>), \<open>record_ack\<close> leaves a position at least as large as the one a reader
  would still see, whatever its outcome; when it returns, the position is at least the acknowledged sequence.
  Two calls for one session and channel that overlap are outside the hypothesis: the read and the write are
  two commands, and the later write can store the smaller position.\<close>

theorem record_ack_monotone:
  assumes "redis_service X db rely" and "key_rely rely (session_ack_key sid ch)" and "0 \<le> n"
    and "ack_wf (db s) sid ch" and "record_ack X cfg sid ch n s = (x, s')"
  shows "ack_at (rclock X s') (db s) sid ch \<le> ack_stored (db s') sid ch \<and>
    (x = Inr () \<longrightarrow> n \<le> ack_stored (db s') sid ch) \<and> ack_wf (db s') sid ch"
  using redis_service.record_ack_inv [OF assms] by blast

theorem record_ack_monotone_witness:
  "\<exists>s'. record_ack mem_redis default_settings ''s'' ''t-1:a'' 5
      (mem_put (session_ack_key ''s'' ''t-1:a'') (RString (show_int 3), None) (mem_start 0 [Served, ReplyLost]))
      = (Inl RedisTimeoutError, s') \<and> 3 \<le> ack_stored (mem_db s') ''s'' ''t-1:a''"
proof -
  let ?s = "mem_put (session_ack_key ''s'' ''t-1:a'') (RString (show_int 3), None) (mem_start 0 [Served, ReplyLost])"
  obtain x s' where run: "record_ack mem_redis default_settings ''s'' ''t-1:a'' 5 ?s = (x, s')" by fastforce
  have "fst (record_ack mem_redis default_settings ''s'' ''t-1:a'' 5 ?s) = Inl RedisTimeoutError" by code_simp
  moreover have "ack_wf (mem_db ?s) ''s'' ''t-1:a''" "ack_at t (mem_db ?s) ''s'' ''t-1:a'' = 3" for t
    by (simp_all add: ack_wf_def ack_at_def)
  ultimately show ?thesis
    using record_ack_monotone [OF faulty_mem.redis_service_axioms key_rely_eq _ _ run] run by auto
qed

text \<open>A session lives for the resume window.  After \<open>create_session\<close> under an unused id, and as long
  as the record is not written again, \<open>get_session\<close> returns the record with the tenant and the node
  it was created with until the resume window has passed, and nothing from then on.\<close>

theorem session_lifetime:
  assumes "redis_calm X db" and "rkeys (db s) (session_key u) = None"
    and "0 < session_resume_window_seconds cfg"
    and "create_session X F cfg u tid nid s = (x, s1)"
    and "rkeys (db s2) (session_key u) = rkeys (db s1) (session_key u)" and "get_session X u s2 = (y, s3)"
  shows "x = Inr u \<and>
    (rclock X s3 < rclock X s + of_int (session_resume_window_seconds cfg) \<longrightarrow>
       (\<exists>h. y = Inr (Some h) \<and> map_of h ''tenant_id'' = Some tid \<and> map_of h ''current_node'' = Some nid)) \<and>
    (rclock X s1 + of_int (session_resume_window_seconds cfg) \<le> rclock X s2 \<longrightarrow> y = Inr None)"
  using redis_calm.calm_session_lifetime [OF assms] by blast

theorem session_lifetime_witness:
  "\<exists>x s1 y s3. create_session calm_redis frac_float default_settings ''u'' ''t'' ''n'' (mem_start 0 []) = (x, s1) \<and>
     get_session calm_redis ''u'' (s1\<lparr>mem_clock := 299\<rparr>) = (y, s3) \<and>
     (\<exists>h. y = Inr (Some h) \<and> map_of h ''tenant_id'' = Some ''t'')"
proof -
  let ?c = "create_session calm_redis frac_float default_settings ''u'' ''t'' ''n'' (mem_start 0 [])"
  obtain x s1 where c: "?c = (x, s1)" by fastforce
  obtain y s3 where g: "get_session calm_redis ''u'' (s1\<lparr>mem_clock := 299\<rparr>) = (y, s3)" by fastforce
  have "mem_clock (snd (get_session calm_redis ''u'' ((snd ?c)\<lparr>mem_clock := 299\<rparr>))) = 299" by code_simp
  then have "rclock calm_redis s3 = 299" using c g by (simp add: calm_redis_def)
  moreover have "rclock calm_redis (mem_start 0 []) = 0" by (simp add: calm_redis_def mem_start_def)
  moreover have "rkeys (mem_db (mem_start 0 [])) (session_key ''u'') = None" by (simp add: mem_db_def mem_start_def)
  ultimately have "\<exists>h. y = Inr (Some h) \<and> map_of h ''tenant_id'' = Some ''t''"
    using session_lifetime [OF calm_mem.redis_calm_axioms _ _ c _ g] by auto
  with c g show ?thesis by blast
qed

text \<open>C33: \<open>touch_session\<close> renews a live session, keeping its other fields, the tenant among them; on a
  session that has expired it creates a record that carries no tenant, so that the session cannot be
  resumed.\<close>

theorem touch_session_effect:
  assumes "redis_calm X db" and "0 < session_resume_window_seconds cfg"
    and "touch_session X F cfg sid nid s = (x, s')"
  shows "(lookup_at (rclock X s') (db s) (session_key sid) = Some (RHash h, dl) \<longrightarrow>
       x = Inr () \<and> (\<exists>t h'. rclock X s \<le> t \<and> t \<le> rclock X s' \<and>
         rkeys (db s') (session_key sid) = Some (RHash h', Some (t + of_int (session_resume_window_seconds cfg))) \<and>
         map_of h' = (map_of h)(''last_seen'' \<mapsto> str_float F (rclock X s), ''current_node'' \<mapsto> nid))) \<and>
    (lookup_at (rclock X s) (db s) (session_key sid) = None \<longrightarrow>
       x = Inr () \<and> (\<exists>h' dl. rkeys (db s') (session_key sid) = Some (RHash h', dl) \<and> map_of h' ''tenant_id'' = None))"
  using redis_calm.calm_touch_live [OF assms] redis_calm.calm_touch_expired [OF assms] by blast

theorem touch_session_effect_witness:
  "\<exists>x s'. touch_session calm_redis frac_float default_settings ''u'' ''n'' (mem_start 0 []) = (x, s') \<and>
     (\<exists>h' dl. rkeys (mem_db s') (session_key ''u'') = Some (RHash h', dl) \<and> map_of h' ''tenant_id'' = None)"
proof -
  obtain x s' where t: "touch_session calm_redis frac_float default_settings ''u'' ''n'' (mem_start 0 []) = (x, s')"
    by fastforce
  have "lookup_at (rclock calm_redis (mem_start 0 [])) (mem_db (mem_start 0 [])) (session_key ''u'') = None"
    by (simp add: lookup_at_def mem_db_def mem_start_def)
  then have "\<exists>h' dl. rkeys (mem_db s') (session_key ''u'') = Some (RHash h', dl) \<and> map_of h' ''tenant_id'' = None"
    using touch_session_effect [OF calm_mem.redis_calm_axioms _ t] by simp
  with t show ?thesis by blast
qed

end
