(* ===== verification/Presence.thy ===== *)
theory Presence
  imports Redis_Client
begin

text \<open>
  \<open>apps/gateway/presence/tracker.py\<close>: per user a Redis set of live connection ids under a time to live,
  and an optional state key the client may set to IDLE.  \<open>presence_op\<close> and \<open>presence_run\<close> are sequences
  of calls for one user, related to a plain set of connection ids.
\<close>

section \<open>Operations\<close>

datatype PresenceState = ONLINE | IDLE | OFFLINE

fun presence_state_value :: "PresenceState \<Rightarrow> string" where
  "presence_state_value ONLINE = ''ONLINE''"
| "presence_state_value IDLE = ''IDLE''"
| "presence_state_value OFFLINE = ''OFFLINE''"

record presence_info =
  pi_user :: string
  pi_state :: PresenceState
  pi_connections :: int

definition presence_user_key :: "string \<Rightarrow> string \<Rightarrow> string" where
  "presence_user_key tid uid = ''relay:presence:'' @ tid @ '':'' @ uid"

definition presence_state_key :: "string \<Rightarrow> string \<Rightarrow> string" where
  "presence_state_key tid uid = ''relay:presence:'' @ tid @ '':'' @ uid @ '':state''"

definition connection_online ::
  "'r redis \<Rightarrow> settings \<Rightarrow> string \<Rightarrow> string \<Rightarrow> string \<Rightarrow> ('r, unit) io" where
  "connection_online X cfg tid uid cid =
     (let key = presence_user_key tid uid
      in thenE (pipeline X [SADD key cid, EXPIRE key (presence_ttl_seconds cfg)]) (returnE ()))"

definition refresh :: "'r redis \<Rightarrow> settings \<Rightarrow> string \<Rightarrow> string \<Rightarrow> ('r, unit) io" where
  "refresh X cfg tid uid =
     thenE (pipeline X [EXPIRE (presence_user_key tid uid) (presence_ttl_seconds cfg),
                        EXPIRE (presence_state_key tid uid) (presence_ttl_seconds cfg)]) (returnE ())"

definition connection_offline :: "'r redis \<Rightarrow> string \<Rightarrow> string \<Rightarrow> string \<Rightarrow> ('r, bool) io" where
  "connection_offline X tid uid cid =
     (let key = presence_user_key tid uid
      in thenE (rcall X (SREM key cid))
        (bindE (bindE (rcall X (SCARD key)) int_reply) (\<lambda>remaining.
           if remaining = 0 then
             thenE (rcall X (DEL [key, presence_state_key tid uid])) (returnE True)
           else returnE False)))"

definition set_state :: "'r redis \<Rightarrow> settings \<Rightarrow> string \<Rightarrow> string \<Rightarrow> PresenceState \<Rightarrow> ('r, unit) io" where
  "set_state X cfg tid uid st =
     (if st = IDLE then
        thenE (rcall X (SET (presence_state_key tid uid) (presence_state_value st)
                          (Some (presence_ttl_seconds cfg)))) (returnE ())
      else thenE (rcall X (DEL [presence_state_key tid uid])) (returnE ()))"

definition get_presence :: "'r redis \<Rightarrow> string \<Rightarrow> string \<Rightarrow> ('r, presence_info) io" where
  "get_presence X tid uid =
     bindE (bindE (rcall X (SCARD (presence_user_key tid uid))) int_reply) (\<lambda>connections.
       if connections = 0 then
         returnE \<lparr>pi_user = uid, pi_state = OFFLINE, pi_connections = 0\<rparr>
       else
         bindE (bindE (rcall X (GET (presence_state_key tid uid))) string_reply) (\<lambda>reported.
           returnE \<lparr>pi_user = uid,
                    pi_state = (if reported = Some (presence_state_value IDLE) then IDLE else ONLINE),
                    pi_connections = connections\<rparr>))"

text \<open>The loop of \<open>list_online\<close> over the keys of the scan.\<close>

fun list_keys :: "'r redis \<Rightarrow> string \<Rightarrow> string \<Rightarrow> string list \<Rightarrow> ('r, presence_info list) io" where
  "list_keys X tid pre [] = returnE []"
| "list_keys X tid pre (key # ks) =
     (if endswith key '':state'' then list_keys X tid pre ks
      else
        bindE (get_presence X tid (drop (length pre) key)) (\<lambda>p.
        bindE (list_keys X tid pre ks) (\<lambda>ps. returnE (p # ps))))"

definition list_online :: "'r redis \<Rightarrow> string \<Rightarrow> ('r, presence_info list) io" where
  "list_online X tid =
     (let pre = ''relay:presence:'' @ tid @ '':''
      in bindE (bindE (rcall X (SCAN (pre @ ''*''))) keys_reply) (list_keys X tid pre))"

section \<open>The set of connections of a user\<close>

text \<open>The key is absent and there is no connection, or it holds the connections, each once, and lives
  until \<open>T\<close> at least.\<close>

definition holds_conns :: "time \<Rightarrow> rdb \<Rightarrow> string \<Rightarrow> string set \<Rightarrow> bool" where
  "holds_conns T d k A =
     (rkeys d k = None \<and> A = {} \<or>
      (\<exists>xs dl. rkeys d k = Some (RSet xs, dl) \<and> xs \<noteq> [] \<and> distinct xs \<and> set xs = A \<and>
         (\<forall>x. dl = Some x \<longrightarrow> T \<le> x)))"

lemma holds_conns_lookup:
  assumes "holds_conns T d k A" and "t < T"
  shows "A = {} \<and> lookup_at t d k = None \<or>
    (\<exists>xs dl. lookup_at t d k = Some (RSet xs, dl) \<and> rkeys d k = Some (RSet xs, dl) \<and> xs \<noteq> [] \<and> distinct xs \<and> set xs = A \<and>
       (\<forall>x. dl = Some x \<longrightarrow> T \<le> x))"
proof -
  have "\<not> expired t dl" if "\<forall>x. dl = Some x \<longrightarrow> T \<le> x" for dl
    using that assms(2) by (force simp: expired_def split: option.splits)
  then show ?thesis using assms(1) by (auto simp: holds_conns_def lookup_at_def)
qed

lemma holds_conns_frame: "rkeys d' k = rkeys d k \<Longrightarrow> holds_conns T d' k A = holds_conns T d k A"
  by (simp add: holds_conns_def)

lemma set_discard_empty: "set_discard x xs = [] \<longleftrightarrow> set xs \<subseteq> {x}"
  by (metis Diff_eq_empty_iff set_empty2 set_set_discard)

lemma sadd_expire_holds:
  assumes "holds_conns T d k A" and "t < T" and "T \<le> t + of_int w" and "0 < w"
    and "redis_txn t [SADD k x, EXPIRE k w] d rs d'"
  shows "holds_conns T d' k (insert x A) \<and> RErr \<notin> set rs"
  using holds_conns_lookup [OF assms(1,2)]
proof (elim disjE exE conjE)
  assume "A = {}" "lookup_at t d k = None"
  with assms(3-5) show ?thesis by (auto simp: holds_conns_def)
next
  fix xs dl
  assume l: "lookup_at t d k = Some (RSet xs, dl)" and xs: "xs \<noteq> []" "distinct xs" "set xs = A"
    and dl: "\<forall>x. dl = Some x \<longrightarrow> T \<le> x"
  have ne: "\<not> expired t dl" using dl assms(2) by (force simp: expired_def split: option.splits)
  have "set_add x xs \<noteq> []" using xs by (simp add: set_add_def)
  with assms(3-5) l ne xs show ?thesis by (auto simp: holds_conns_def split: if_splits)
qed

lemma srem_holds:
  assumes "holds_conns T d k A" and "t < T" and "redis_ok t (SREM k x) d r d'"
  shows "holds_conns T d' k (A - {x}) \<and> r \<noteq> RErr"
  using holds_conns_lookup [OF assms(1,2)]
proof (elim disjE exE conjE)
  assume "A = {}" "lookup_at t d k = None"
  with assms show ?thesis by auto
next
  fix xs dl
  assume l: "lookup_at t d k = Some (RSet xs, dl)" and xs: "xs \<noteq> []" "distinct xs" "set xs = A"
    and dl: "\<forall>x. dl = Some x \<longrightarrow> T \<le> x"
  then show ?thesis
    using assms(3) distinct_set_discard [OF xs(2), of x]
    by (cases "set_discard x xs = []") (auto simp: holds_conns_def set_discard_empty)
qed

lemma scard_holds:
  assumes "holds_conns T d k A" and "t < T" and "redis_ok t (SCARD k) d r d'"
  shows "r = RInt (int (card A)) \<and> d' = d \<and> finite A"
  using holds_conns_lookup [OF assms(1,2)] assms(3) by (auto simp: distinct_card)

lemma expire_holds:
  assumes "holds_conns T d k A" and "t < T" and "T \<le> t + of_int w" and "0 < w"
    and "redis_ok t (EXPIRE k' w) d r d'"
  shows "holds_conns T d' k A \<and> r \<noteq> RErr"
proof (cases "k' = k")
  case True
  then show ?thesis
    using holds_conns_lookup [OF assms(1,2)] assms by (auto simp: holds_conns_def)
next
  case False
  then show ?thesis
    using holds_conns_frame [of d' k d T A] redis_ok_frame [OF assms(5), of k] assms(1,5)
    by (auto split: option.split_asm prod.split_asm)
qed

lemma state_key_neq [simp]: "presence_state_key tid uid \<noteq> presence_user_key tid uid"
  "presence_user_key tid uid \<noteq> presence_state_key tid uid"
  by (simp_all add: presence_state_key_def presence_user_key_def)

section \<open>Sequences of calls\<close>

datatype presence_op = POnline string | POffline string | PRefresh

fun presence_do :: "'r redis \<Rightarrow> settings \<Rightarrow> string \<Rightarrow> string \<Rightarrow> presence_op \<Rightarrow> ('r, bool) io" where
  "presence_do X cfg tid uid (POnline cid) = thenE (connection_online X cfg tid uid cid) (returnE False)"
| "presence_do X cfg tid uid (POffline cid) = connection_offline X tid uid cid"
| "presence_do X cfg tid uid PRefresh = thenE (refresh X cfg tid uid) (returnE False)"

fun presence_run ::
  "'r redis \<Rightarrow> settings \<Rightarrow> string \<Rightarrow> string \<Rightarrow> presence_op list \<Rightarrow> 'r \<Rightarrow> (exn + bool) list \<times> 'r" where
  "presence_run X cfg tid uid [] s = ([], s)"
| "presence_run X cfg tid uid (p # ps) s =
     (let (x, s1) = presence_do X cfg tid uid p s; (xs, s2) = presence_run X cfg tid uid ps s1
      in (x # xs, s2))"

text \<open>The specification: a set of connections; going offline answers whether it was the last one.\<close>

fun conns_after :: "string set \<Rightarrow> presence_op \<Rightarrow> string set" where
  "conns_after A (POnline cid) = insert cid A"
| "conns_after A (POffline cid) = A - {cid}"
| "conns_after A PRefresh = A"

fun went_offline :: "string set \<Rightarrow> presence_op \<Rightarrow> bool" where
  "went_offline A (POffline cid) = (A \<subseteq> {cid})"
| "went_offline A _ = False"

fun outcomes :: "string set \<Rightarrow> presence_op list \<Rightarrow> (exn + bool) list" where
  "outcomes A [] = []"
| "outcomes A (p # ps) = Inr (went_offline A p) # outcomes (conns_after A p) ps"

context redis_service
begin

lemma clocked_presence:
  "clocked X (presence_do X cfg tid uid p)" "clocked X (get_presence X tid uid)"
proof -
  show "clocked X (presence_do X cfg tid uid p)"
    by (cases p) (auto simp: connection_online_def refresh_def connection_offline_def Let_def
        intro!: clocked_thenE clocked_bindE clocked_rcall clocked_pipeline)
  show "clocked X (get_presence X tid uid)"
    by (auto simp: get_presence_def intro!: clocked_bindE clocked_rcall)
qed

lemma presence_run_clock: "rclock X s \<le> rclock X (snd (presence_run X cfg tid uid ps s))"
proof (induction ps arbitrary: s)
  case (Cons p ps)
  then show ?case
    using clocked_presence(1) [of cfg tid uid p] unfolding clocked_def
    by (auto split: prod.splits) (metis order_trans snd_conv)
qed simp

end

context redis_calm
begin

lemma calm_online:
  assumes h: "holds_conns T (db s) (presence_user_key tid uid) A" and run: "connection_online X cfg tid uid cid s = (x, s')"
    and T: "rclock X s' < T" "T \<le> rclock X s + of_int (presence_ttl_seconds cfg)" and w: "0 < presence_ttl_seconds cfg"
  shows "x = Inr () \<and> holds_conns T (db s') (presence_user_key tid uid) (insert cid A)"
proof -
  let ?k = "presence_user_key tid uid" and ?w = "presence_ttl_seconds cfg"
  obtain rs s1 t where t: "rclock X s \<le> t" "t \<le> rclock X s1"
    and ok: "redis_txn t [SADD ?k cid, EXPIRE ?k ?w] (db s) rs (db s1)"
    and p: "pipeline X [SADD ?k cid, EXPIRE ?k ?w] s = (if RErr \<in> set rs then Inl ResponseError else Inr rs, s1)"
    using calm_pipeline by metis
  from run p have s1: "s1 = s'" by (auto simp: connection_online_def thenE_def bindE_def Let_def split: if_splits)
  with t T have "t < T" "T \<le> t + of_int ?w" by auto
  from sadd_expire_holds [OF h this w ok] run p s1 show ?thesis
    by (auto simp: connection_online_def thenE_def bindE_def Let_def)
qed

lemma calm_refresh:
  assumes h: "holds_conns T (db s) (presence_user_key tid uid) A" and run: "refresh X cfg tid uid s = (x, s')"
    and T: "rclock X s' < T" "T \<le> rclock X s + of_int (presence_ttl_seconds cfg)" and w: "0 < presence_ttl_seconds cfg"
  shows "x = Inr () \<and> holds_conns T (db s') (presence_user_key tid uid) A"
proof -
  let ?k = "presence_user_key tid uid" and ?k' = "presence_state_key tid uid" and ?w = "presence_ttl_seconds cfg"
  obtain rs s1 t where t: "rclock X s \<le> t" "t \<le> rclock X s1"
    and ok: "redis_txn t [EXPIRE ?k ?w, EXPIRE ?k' ?w] (db s) rs (db s1)"
    and p: "pipeline X [EXPIRE ?k ?w, EXPIRE ?k' ?w] s = (if RErr \<in> set rs then Inl ResponseError else Inr rs, s1)"
    using calm_pipeline by metis
  from run p have s1: "s1 = s'" by (auto simp: refresh_def thenE_def bindE_def split: if_splits)
  with t T have tT: "t < T" "T \<le> t + of_int ?w" by auto
  from ok obtain r1 d1 r2 where o1: "redis_ok t (EXPIRE ?k ?w) (db s) r1 d1"
    and o2: "redis_ok t (EXPIRE ?k' ?w) d1 r2 (db s1)" and rs: "rs = [r1, r2]"
    unfolding redis_txn.simps by blast
  from expire_holds [OF h tT w o1] have "holds_conns T d1 ?k A" "r1 \<noteq> RErr" by auto
  with expire_holds [OF _ tT w o2] have "holds_conns T (db s1) ?k A" "RErr \<notin> set rs" using rs by auto
  with run p s1 show ?thesis by (simp add: refresh_def thenE_def bindE_def)
qed

lemma calm_offline:
  assumes h: "holds_conns T (db s) (presence_user_key tid uid) A" and run: "connection_offline X tid uid cid s = (x, s')"
    and T: "rclock X s' < T"
  shows "x = Inr (A \<subseteq> {cid}) \<and> holds_conns T (db s') (presence_user_key tid uid) (A - {cid}) \<and>
    (A \<subseteq> {cid} \<longrightarrow> rkeys (db s') (presence_state_key tid uid) = None)"
proof -
  let ?k = "presence_user_key tid uid" and ?k' = "presence_state_key tid uid"
  obtain r1 s1 t1 where t1: "rclock X s \<le> t1" "t1 \<le> rclock X s1" and o1: "redis_ok t1 (SREM ?k cid) (db s) r1 (db s1)"
    and c1: "rcall X (SREM ?k cid) s = (if r1 = RErr then Inl ResponseError else Inr r1, s1)" by (rule calm_call)
  obtain r2 s2 t2 where t2: "rclock X s1 \<le> t2" "t2 \<le> rclock X s2" and o2: "redis_ok t2 (SCARD ?k) (db s1) r2 (db s2)"
    and c2: "rcall X (SCARD ?k) s1 = (if r2 = RErr then Inl ResponseError else Inr r2, s2)" by (rule calm_call)
  obtain r3 s3 t3 where t3: "rclock X s2 \<le> t3" "t3 \<le> rclock X s3" and o3: "redis_ok t3 (DEL [?k, ?k']) (db s2) r3 (db s3)"
    and c3: "rcall X (DEL [?k, ?k']) s2 = (if r3 = RErr then Inl ResponseError else Inr r3, s3)" by (rule calm_call)
  note calls = connection_offline_def thenE_def bindE_def Let_def c1 c2 c3
  have "rclock X s1 \<le> rclock X s'"
    using run t2 t3 by (cases r2) (auto simp: calls int_reply_def split: if_splits)
  with t1 T have "t1 < T" by simp
  from srem_holds [OF h this o1] have h1: "holds_conns T (db s1) ?k (A - {cid})" "r1 \<noteq> RErr" by auto
  have "rclock X s2 \<le> rclock X s'"
    using run t3 h1(2) by (cases r2) (auto simp: calls int_reply_def split: if_splits)
  with t2 T have "t2 < T" by simp
  from scard_holds [OF h1(1) this o2] have r2: "r2 = RInt (int (card (A - {cid})))" "db s2 = db s1" "finite A" by auto
  show ?thesis
  proof (cases "A \<subseteq> {cid}")
    case True
    then have e: "A - {cid} = {}" by auto
    then have "card (A - {cid}) = 0" by (simp only: card.empty)
    with run h1 r2 o3 have "x = Inr True" "s' = s3" by (auto simp: calls)
    with True o3 e show ?thesis by (simp add: holds_conns_def)
  next
    case False
    then have "card (A - {cid}) \<noteq> 0" using r2(3) by auto
    with run h1 r2 have "x = Inr False" "s' = s2" by (auto simp: calls)
    with False r2 h1 show ?thesis by simp
  qed
qed

lemma calm_presence_run:
  assumes "holds_conns T (db s) (presence_user_key tid uid) A" and "presence_run X cfg tid uid ps s = (xs, s')"
    and "rclock X s' < T" and "T \<le> rclock X s + of_int (presence_ttl_seconds cfg)" and w: "0 < presence_ttl_seconds cfg"
  shows "xs = outcomes A ps \<and> holds_conns T (db s') (presence_user_key tid uid) (foldl conns_after A ps)"
  using assms(1-4)
proof (induction ps arbitrary: s A xs)
  case (Cons p ps)
  obtain x s1 where x: "presence_do X cfg tid uid p s = (x, s1)" by fastforce
  obtain xs1 where xs1: "presence_run X cfg tid uid ps s1 = (xs1, s')" "xs = x # xs1"
    using Cons.prems(2) x by (auto split: prod.splits)
  have c1: "rclock X s \<le> rclock X s1" using clockedD [OF clocked_presence(1) x] .
  have c2: "rclock X s1 \<le> rclock X s'" using presence_run_clock [of s1 cfg tid uid ps] xs1 by simp
  have T1: "rclock X s1 < T" using c2 Cons.prems(3) by simp
  have "x = Inr (went_offline A p) \<and> holds_conns T (db s1) (presence_user_key tid uid) (conns_after A p)"
  proof (cases p)
    case (POnline cid)
    with x obtain y where y: "connection_online X cfg tid uid cid s = (y, s1)" "y = Inr () \<Longrightarrow> x = Inr False"
      by (auto simp: thenE_def bindE_def split: prod.splits sum.splits)
    from calm_online [OF Cons.prems(1) y(1) T1 Cons.prems(4) w] y(2) POnline show ?thesis by simp
  next
    case (POffline cid)
    with x calm_offline [OF Cons.prems(1) _ T1, of cid x] show ?thesis by simp
  next
    case PRefresh
    with x obtain y where y: "refresh X cfg tid uid s = (y, s1)" "y = Inr () \<Longrightarrow> x = Inr False"
      by (auto simp: thenE_def bindE_def split: prod.splits sum.splits)
    from calm_refresh [OF Cons.prems(1) y(1) T1 Cons.prems(4) w] y(2) PRefresh show ?thesis by simp
  qed
  moreover have "T \<le> rclock X s1 + of_int (presence_ttl_seconds cfg)" using Cons.prems(4) c1 by simp
  ultimately show ?case using Cons.IH [of s1 _ xs1] xs1 Cons.prems(3) by auto
qed simp

lemma calm_get_presence:
  assumes h: "holds_conns T (db s) (presence_user_key tid uid) A" and run: "get_presence X tid uid s = (x, s')"
    and T: "rclock X s' < T"
    and st: "\<And>t. (case lookup_at t (db s) (presence_state_key tid uid) of Some (RString _, _) \<Rightarrow> True | None \<Rightarrow> True | _ \<Rightarrow> False)"
  shows "\<exists>p. x = Inr p \<and> pi_user p = uid \<and> pi_connections p = int (card A) \<and> (pi_state p = OFFLINE \<longleftrightarrow> A = {})"
proof -
  let ?k = "presence_user_key tid uid" and ?k' = "presence_state_key tid uid"
  obtain r1 s1 t1 where t1: "rclock X s \<le> t1" "t1 \<le> rclock X s1" and o1: "redis_ok t1 (SCARD ?k) (db s) r1 (db s1)"
    and c1: "rcall X (SCARD ?k) s = (if r1 = RErr then Inl ResponseError else Inr r1, s1)" by (rule calm_call)
  obtain r2 s2 t2 where t2: "rclock X s1 \<le> t2" "t2 \<le> rclock X s2" and o2: "redis_ok t2 (GET ?k') (db s1) r2 (db s2)"
    and c2: "rcall X (GET ?k') s1 = (if r2 = RErr then Inl ResponseError else Inr r2, s2)" by (rule calm_call)
  note calls = get_presence_def bindE_def c1 c2
  have "rclock X s1 \<le> rclock X s'"
    using run t2 by (cases r1; cases r2) (auto simp: calls int_reply_def string_reply_def split: if_splits)
  with t1 T have "t1 < T" by simp
  from scard_holds [OF h this o1] have r1: "r1 = RInt (int (card A))" "db s1 = db s" "finite A" by auto
  have r2: "r2 = RNil \<or> (\<exists>v. r2 = RBulk v)"
    using o2 st [of t2] r1(2) by (auto split: option.splits prod.splits rvalue.splits)
  show ?thesis
  proof (cases "A = {}")
    case True
    with run r1 show ?thesis by (auto simp: calls)
  next
    case False
    then have "card A \<noteq> 0" using r1(3) by simp
    with run r1 r2 False show ?thesis by (auto simp: calls split: if_split_asm)
  qed
qed

lemma calm_online_deadline:
  assumes "0 < presence_ttl_seconds cfg" and "connection_online X cfg tid uid cid s = (Inr u, s')"
  obtains xs t where "t \<le> rclock X s'"
    "rkeys (db s') (presence_user_key tid uid) = Some (RSet xs, Some (t + of_int (presence_ttl_seconds cfg)))"
proof -
  let ?k = "presence_user_key tid uid" and ?w = "presence_ttl_seconds cfg"
  obtain rs s1 t where t: "t \<le> rclock X s1" and ok: "redis_txn t [SADD ?k cid, EXPIRE ?k ?w] (db s) rs (db s1)"
    and p: "pipeline X [SADD ?k cid, EXPIRE ?k ?w] s = (if RErr \<in> set rs then Inl ResponseError else Inr rs, s1)"
    using calm_pipeline by metis
  from assms(2) p have "RErr \<notin> set rs" "s1 = s'"
    by (auto simp: connection_online_def thenE_def bindE_def Let_def split: if_splits)
  moreover from ok obtain r1 d1 r2 where o1: "redis_ok t (SADD ?k cid) (db s) r1 d1"
    and o2: "redis_ok t (EXPIRE ?k ?w) d1 r2 (db s1)" and rs: "rs = [r1, r2]"
    unfolding redis_txn.simps by blast
  moreover have "\<exists>xs dl. lookup_at t d1 ?k = Some (RSet xs, dl)" if "r1 \<noteq> RErr"
    using o1 that by (auto simp: lookup_at_def split: option.splits prod.splits rvalue.splits if_splits)
  ultimately show thesis using that [of t] t assms(1) by auto
qed

lemma calm_presence_expires:
  assumes "0 < presence_ttl_seconds cfg" and "connection_online X cfg tid uid cid s = (Inr u, s1)"
    and "rkeys (db s2) (presence_user_key tid uid) = rkeys (db s1) (presence_user_key tid uid)"
    and "rclock X s1 + of_int (presence_ttl_seconds cfg) \<le> rclock X s2" and "get_presence X tid uid s2 = (x, s3)"
  shows "x = Inr \<lparr>pi_user = uid, pi_state = OFFLINE, pi_connections = 0\<rparr>"
proof -
  let ?k = "presence_user_key tid uid"
  obtain xs t where t: "t \<le> rclock X s1"
    "rkeys (db s1) ?k = Some (RSet xs, Some (t + of_int (presence_ttl_seconds cfg)))"
    by (rule calm_online_deadline [OF assms(1,2)])
  obtain r s' t' where t': "rclock X s2 \<le> t'" and ok: "redis_ok t' (SCARD ?k) (db s2) r (db s')"
    and c: "rcall X (SCARD ?k) s2 = (if r = RErr then Inl ResponseError else Inr r, s')" by (rule calm_call)
  have "lookup_at t' (db s2) ?k = None" using t t' assms(3,4) by (simp add: lookup_at_def)
  with ok c assms(5) show ?thesis by (simp add: get_presence_def bindE_def)
qed

lemma calm_state_collision:
  assumes "lookup_at (rclock X s') (db s) (presence_state_key tid uid) = Some (RString v, dl)"
    and "connection_online X cfg tid (uid @ '':state'') cid s = (x, s')"
  shows "x = Inl ResponseError"
proof -
  let ?k = "presence_user_key tid (uid @ '':state'')" and ?w = "presence_ttl_seconds cfg"
  have k: "?k = presence_state_key tid uid" by (simp add: presence_user_key_def presence_state_key_def)
  obtain rs s1 t where t: "t \<le> rclock X s1" and ok: "redis_txn t [SADD ?k cid, EXPIRE ?k ?w] (db s) rs (db s1)"
    and p: "pipeline X [SADD ?k cid, EXPIRE ?k ?w] s = (if RErr \<in> set rs then Inl ResponseError else Inr rs, s1)"
    using calm_pipeline by metis
  have s1: "s1 = s'" using assms(2) p
    by (auto simp: connection_online_def thenE_def bindE_def Let_def split: if_splits)
  then have "lookup_at t (db s) ?k = Some (RString v, dl)" using lookup_mono [OF assms(1)] t k by simp
  with ok have "RErr \<in> set rs" by auto
  with assms(2) p show ?thesis by (simp add: connection_online_def thenE_def bindE_def Let_def)
qed

end

section \<open>Properties\<close>

text \<open>C23: Presence counts connections.  Within one time to live, after any sequence of connections of a
  user going online, going offline and sending heartbeats, the presence key holds exactly the
  connections that are up; going offline answers \<open>True\<close> exactly for the last one, so a user with a
  second connection stays online; \<open>get_presence\<close> reports their number, and OFFLINE exactly when there
  is none.\<close>

theorem presence_counts_connections:
  assumes "redis_calm X db" and "rkeys (db s) (presence_user_key tid uid) = None"
    and "presence_run X cfg tid uid ops s = (xs, s')" and "0 < presence_ttl_seconds cfg"
    and "get_presence X tid uid s' = (y, s'')"
    and "rclock X s'' < rclock X s + of_int (presence_ttl_seconds cfg)"
    and "\<forall>t. lookup_at t (db s') (presence_state_key tid uid) = None"
  shows "xs = outcomes {} ops \<and>
    (\<exists>p. y = Inr p \<and> pi_user p = uid \<and> pi_connections p = int (card (foldl conns_after {} ops)) \<and>
       (pi_state p = OFFLINE \<longleftrightarrow> foldl conns_after {} ops = {}))"
proof -
  let ?T = "rclock X s + of_int (presence_ttl_seconds cfg)" and ?k = "presence_user_key tid uid"
  have "rclock X s' \<le> rclock X s''"
    by (rule clockedD [OF redis_service.clocked_presence(2) [OF redis_calm.calm_service [OF assms(1)]] assms(5)])
  with assms(6) have T: "rclock X s' < ?T" by simp
  have h: "holds_conns ?T (db s) ?k {}" using assms(2) by (simp add: holds_conns_def)
  from redis_calm.calm_presence_run [OF assms(1) h assms(3) T _ assms(4)]
  have "xs = outcomes {} ops" "holds_conns ?T (db s') ?k (foldl conns_after {} ops)" by auto
  with redis_calm.calm_get_presence [OF assms(1) _ assms(5,6)] assms(7) show ?thesis by simp
qed

definition two_tabs :: "presence_op list" where
  "two_tabs = [POnline ''tab1'', POnline ''tab2'', POffline ''tab1'', PRefresh]"

theorem presence_counts_connections_witness:
  "\<exists>xs s' p s''. presence_run calm_redis default_settings ''t'' ''u'' two_tabs (mem_start 0 []) = (xs, s') \<and>
     xs = [Inr False, Inr False, Inr False, Inr False] \<and>
     get_presence calm_redis ''t'' ''u'' s' = (Inr p, s'') \<and> pi_connections p = 1 \<and> pi_state p \<noteq> OFFLINE"
proof -
  obtain xs s' where r: "presence_run calm_redis default_settings ''t'' ''u'' two_tabs (mem_start 0 []) = (xs, s')"
    by fastforce
  obtain y s'' where g: "get_presence calm_redis ''t'' ''u'' s' = (y, s'')" by fastforce
  have "mem_keys (snd (presence_run calm_redis default_settings ''t'' ''u'' two_tabs (mem_start 0 []))) =
      [(presence_user_key ''t'' ''u'', (RSet [''tab2''], Some 30))]" by code_simp
  then have k: "mem_db s' = \<lparr>rkeys = [presence_user_key ''t'' ''u'' \<mapsto> (RSet [''tab2''], Some 30)], rpublished = mem_pub s'\<rparr>"
    using r by (simp add: mem_db_def)
  have "mem_clock (snd (get_presence calm_redis ''t'' ''u''
      (snd (presence_run calm_redis default_settings ''t'' ''u'' two_tabs (mem_start 0 []))))) = 0" by code_simp
  then have "rclock calm_redis s'' < rclock calm_redis (mem_start 0 []) + of_int (presence_ttl_seconds default_settings)"
    using r g by (simp add: calm_redis_def mem_start_def)
  moreover have "\<forall>t. lookup_at t (mem_db s') (presence_state_key ''t'' ''u'') = None"
    by (simp add: lookup_at_def k)
  moreover have "rkeys (mem_db (mem_start 0 [])) (presence_user_key ''t'' ''u'') = None"
    by (simp add: mem_db_def mem_start_def)
  moreover have "foldl conns_after {} two_tabs = {''tab2''}"
    "outcomes {} two_tabs = [Inr False, Inr False, Inr False, Inr False]"
    by (auto simp: two_tabs_def)
  ultimately show ?thesis
    using presence_counts_connections [OF calm_mem.redis_calm_axioms _ r _ g] r g by auto
qed

text \<open>Silence means offline.  A user whose connections stop sending heartbeats, a crashed node
  included, is reported OFFLINE with no connections once the time to live has passed since the last
  call that put a connection online, as long as nothing writes the key in between.\<close>

theorem presence_expires:
  assumes "redis_calm X db" and "0 < presence_ttl_seconds cfg"
    and "connection_online X cfg tid uid cid s = (Inr u, s1)"
    and "rkeys (db s2) (presence_user_key tid uid) = rkeys (db s1) (presence_user_key tid uid)"
    and "rclock X s1 + of_int (presence_ttl_seconds cfg) \<le> rclock X s2" and "get_presence X tid uid s2 = (x, s3)"
  shows "x = Inr \<lparr>pi_user = uid, pi_state = OFFLINE, pi_connections = 0\<rparr>"
  by (rule redis_calm.calm_presence_expires [OF assms])

theorem presence_expires_witness:
  "\<exists>s1 s3. connection_online calm_redis default_settings ''t'' ''u'' ''c'' (mem_start 0 []) = (Inr (), s1) \<and>
     get_presence calm_redis ''t'' ''u'' (s1\<lparr>mem_clock := 30\<rparr>) =
       (Inr \<lparr>pi_user = ''u'', pi_state = OFFLINE, pi_connections = 0\<rparr>, s3)"
proof -
  let ?m = "connection_online calm_redis default_settings ''t'' ''u'' ''c'' (mem_start 0 [])"
  obtain x s1 where c: "?m = (x, s1)" by fastforce
  have "fst ?m = Inr ()" "mem_clock (snd ?m) = 0" by code_simp+
  with c have x: "x = Inr ()" and t: "mem_clock s1 = 0" by simp_all
  obtain y s3 where g: "get_presence calm_redis ''t'' ''u'' (s1\<lparr>mem_clock := 30\<rparr>) = (y, s3)" by fastforce
  have "rclock calm_redis s1 + of_int (presence_ttl_seconds default_settings) \<le> rclock calm_redis (s1\<lparr>mem_clock := 30\<rparr>)"
    using t by (simp add: calm_redis_def)
  then have "y = Inr \<lparr>pi_user = ''u'', pi_state = OFFLINE, pi_connections = 0\<rparr>"
    using presence_expires [OF calm_mem.redis_calm_axioms _ c [unfolded x] _ _ g] by simp
  with c x g show ?thesis by blast
qed

text \<open>C39: The state key of one user is the presence key of another.  While the client of user \<open>u\<close> has
  reported IDLE, putting a connection of the user \<open>u:state\<close> of the same tenant online raises a Redis
  error.\<close>

theorem presence_state_key_collides:
  assumes "redis_calm X db"
    and "lookup_at (rclock X s') (db s) (presence_state_key tid uid) = Some (RString v, dl)"
    and "connection_online X cfg tid (uid @ '':state'') cid s = (x, s')"
  shows "x = Inl ResponseError"
  by (rule redis_calm.calm_state_collision [OF assms])

theorem presence_state_key_collides_witness:
  "\<exists>s s'. set_state calm_redis default_settings ''t'' ''u'' IDLE (mem_start 0 []) = (Inr (), s) \<and>
     connection_online calm_redis default_settings ''t'' (''u'' @ '':state'') ''c'' s = (Inl ResponseError, s')"
proof -
  let ?m = "set_state calm_redis default_settings ''t'' ''u'' IDLE (mem_start 0 [])"
  let ?n = "connection_online calm_redis default_settings ''t'' (''u'' @ '':state'') ''c''"
  obtain y s where i: "?m = (y, s)" by fastforce
  have "fst ?m = Inr ()" "mem_keys (snd ?m) = [(presence_state_key ''t'' ''u'', (RString ''IDLE'', Some 30))]"
    "mem_clock (snd (?n (snd ?m))) = 0" by code_simp+
  with i have y: "y = Inr ()" and k: "rkeys (mem_db s) = [presence_state_key ''t'' ''u'' \<mapsto> (RString ''IDLE'', Some 30)]"
    and t: "mem_clock (snd (?n s)) = 0" by (simp_all add: mem_db_def)
  obtain x s' where c: "?n s = (x, s')" by fastforce
  have "lookup_at (rclock calm_redis s') (mem_db s) (presence_state_key ''t'' ''u'') = Some (RString ''IDLE'', Some 30)"
    using k t c by (simp add: lookup_at_def calm_redis_def)
  from presence_state_key_collides [OF calm_mem.redis_calm_axioms this c] i y c show ?thesis by blast
qed

end
