(* ===== verification/Replay.thy ===== *)
theory Replay
  imports Redis_Client
begin

text \<open>
  \<open>apps/gateway/recovery/replay.py\<close>: given the last acknowledged sequence of a channel, the buffered
  messages after it, or the report of a gap.  \<open>buffer_holds\<close> is the abstract contents of the recovery
  buffer: the entries of the stream are the encodings of a list of messages.
\<close>

section \<open>The operation\<close>

record buffered_message =
  bm_id :: string
  bm_sequence :: int
  bm_payload :: json
  bm_created :: rat

record replay_result =
  rr_messages :: "buffered_message list"
  rr_gap :: bool

definition field_of :: "fields \<Rightarrow> string \<Rightarrow> exn + string" where
  "field_of fs k = (case map_of fs k of None \<Rightarrow> Inl (KeyError k) | Some v \<Rightarrow> Inr v)"

definition or_value_error :: "'a option \<Rightarrow> exn + 'a" where
  "or_value_error x = (case x of None \<Rightarrow> Inl (ValueError []) | Some v \<Rightarrow> Inr v)"

text \<open>One entry of the stream; the fields are read in the order of the dict display.\<close>

definition parse_entry :: "pyfloat \<Rightarrow> fields \<Rightarrow> exn + buffered_message" where
  "parse_entry F fs =
     (case field_of fs ''message_id'' of
        Inl e \<Rightarrow> Inl e
      | Inr i \<Rightarrow>
     (case field_of fs ''sequence'' of
        Inl e \<Rightarrow> Inl e
      | Inr q \<Rightarrow>
     (case or_value_error (parse_int q) of
        Inl e \<Rightarrow> Inl e
      | Inr n \<Rightarrow>
     (case field_of fs ''payload'' of
        Inl e \<Rightarrow> Inl e
      | Inr p \<Rightarrow>
     (case or_value_error (json_loads p) of
        Inl e \<Rightarrow> Inl e
      | Inr v \<Rightarrow>
     (case field_of fs ''created_at'' of
        Inl e \<Rightarrow> Inl e
      | Inr c \<Rightarrow>
     (case or_value_error (float_str F c) of
        Inl e \<Rightarrow> Inl e
      | Inr t \<Rightarrow> Inr \<lparr>bm_id = i, bm_sequence = n, bm_payload = v, bm_created = t\<rparr>)))))))"

fun parse_entries :: "pyfloat \<Rightarrow> entry list \<Rightarrow> exn + buffered_message list" where
  "parse_entries F [] = Inr []"
| "parse_entries F ((_, fs) # es) =
     (case parse_entry F fs of
        Inl e \<Rightarrow> Inl e
      | Inr m \<Rightarrow> (case parse_entries F es of Inl e \<Rightarrow> Inl e | Inr ms \<Rightarrow> Inr (m # ms)))"

definition replay_channel ::
  "'r redis \<Rightarrow> pyfloat \<Rightarrow> string \<Rightarrow> int \<Rightarrow> ('r, replay_result) io" where
  "replay_channel X F channel last_ack_sequence =
     bindE (bindE (rcall X (XRANGE (channel_stream_key channel))) entries_reply) (\<lambda>entries.
       if entries = [] then returnE \<lparr>rr_messages = [], rr_gap = False\<rparr>
       else
         (case parse_entries F entries of
            Inl e \<Rightarrow> raiseE e
          | Inr ms \<Rightarrow>
              let parsed = sort_key bm_sequence ms;
                  oldest_available = bm_sequence (hd parsed);
                  gap = (last_ack_sequence + 1 < oldest_available \<and> last_ack_sequence \<noteq> 0);
                  to_replay = filter (\<lambda>m. last_ack_sequence < bm_sequence m) parsed
              in returnE \<lparr>rr_messages = to_replay, rr_gap = gap\<rparr>))"

section \<open>Contents of the buffer\<close>

definition encode_message :: "pyfloat \<Rightarrow> buffered_message \<Rightarrow> fields" where
  "encode_message F m = buffer_fields F (bm_id m) (bm_sequence m) (bm_payload m) (bm_created m)"

definition buffer_holds :: "pyfloat \<Rightarrow> rdb \<Rightarrow> string \<Rightarrow> buffered_message list \<Rightarrow> bool" where
  "buffer_holds F d ch ms =
     (\<exists>es. (rkeys d (channel_stream_key ch) = Some (RStream es, None) \<or>
            rkeys d (channel_stream_key ch) = None \<and> es = []) \<and>
        map snd es = map (encode_message F) ms)"

definition wf_message :: "buffered_message \<Rightarrow> bool" where
  "wf_message m = wf_json (bm_payload m)"

lemma parse_entry_encode:
  assumes "pyfloat_ok F" and "wf_message m"
  shows "parse_entry F (encode_message F m) = Inr m"
  using assms
  by (simp add: parse_entry_def encode_message_def buffer_fields_def field_of_def or_value_error_def
      wf_message_def pyfloat_ok.float_str_float)

lemma parse_entries_encode:
  assumes "pyfloat_ok F" and "\<forall>m \<in> set ms. wf_message m" and "map snd es = map (encode_message F) ms"
  shows "parse_entries F es = Inr ms"
  using assms(2,3)
proof (induction ms arbitrary: es)
  case (Cons m ms)
  then obtain i es' where "es = (i, encode_message F m) # es'" "map snd es' = map (encode_message F) ms"
    by (cases es) auto
  with Cons show ?case by (simp add: parse_entry_encode [OF assms(1)])
qed simp

text \<open>The reference: what a replay from \<open>k\<close> of the buffered messages \<open>ms\<close> is.\<close>

definition replay_spec :: "buffered_message list \<Rightarrow> int \<Rightarrow> replay_result" where
  "replay_spec ms k =
     \<lparr>rr_messages = filter (\<lambda>m. k < bm_sequence m) (sort_key bm_sequence ms),
      rr_gap = (ms \<noteq> [] \<and> k \<noteq> 0 \<and> (\<forall>m \<in> set ms. k + 1 < bm_sequence m))\<rparr>"

lemma hd_sort_key_le: "ms \<noteq> [] \<Longrightarrow> m \<in> set ms \<Longrightarrow> f (hd (sort_key f ms)) \<le> f m"
proof -
  assume "ms \<noteq> []" "m \<in> set ms"
  then obtain x xs where x: "sort_key f ms = x # xs"
    by (metis length_0_conv length_sort neq_Nil_conv)
  moreover have "m \<in> set (x # xs)" using \<open>m \<in> set ms\<close> x by (metis set_sort)
  moreover have "sorted (map f (x # xs))" using sorted_sort_key [of f ms] x by simp
  ultimately show ?thesis by auto
qed

lemma hd_sort_key_mem: "ms \<noteq> [] \<Longrightarrow> hd (sort_key f ms) \<in> set ms"
  by (metis hd_in_set length_0_conv length_sort set_sort)

lemma gap_iff:
  assumes "ms \<noteq> []"
  shows "k + 1 < bm_sequence (hd (sort_key bm_sequence ms)) \<longleftrightarrow> (\<forall>m \<in> set ms. k + 1 < bm_sequence m)"
  using hd_sort_key_le [OF assms, of _ bm_sequence] hd_sort_key_mem [OF assms, of bm_sequence]
  by (metis order_less_le_trans)

context redis_calm
begin

lemma calm_replay:
  assumes "pyfloat_ok F" and "\<forall>m \<in> set ms. wf_message m" and "buffer_holds F (db s) ch ms"
  obtains s' where "replay_channel X F ch k s = (Inr (replay_spec ms k), s')" "db s' = db s"
    "rclock X s \<le> rclock X s'"
proof (rule calm_call [of s "XRANGE (channel_stream_key ch)"])
  fix r s' t
  assume t: "rclock X s \<le> t" "t \<le> rclock X s'"
    and ok: "redis_ok t (XRANGE (channel_stream_key ch)) (db s) r (db s')"
    and call: "rcall X (XRANGE (channel_stream_key ch)) s = (if r = RErr then Inl ResponseError else Inr r, s')"
  from assms(3) obtain es where es: "rkeys (db s) (channel_stream_key ch) = Some (RStream es, None) \<or>
      rkeys (db s) (channel_stream_key ch) = None \<and> es = []" "map snd es = map (encode_message F) ms"
    by (auto simp: buffer_holds_def)
  with ok have r: "r = REntries es" and db: "db s' = db s" by (auto simp: lookup_at_def)
  have Nil: "es = [] \<longleftrightarrow> ms = []" using es(2) by (metis Nil_is_map_conv)
  have "replay_channel X F ch k s = (Inr (replay_spec ms k), s')"
    using call r Nil
    by (simp add: replay_channel_def bindE_def parse_entries_encode [OF assms(1,2) es(2)] replay_spec_def
        gap_iff Let_def conj_commute)
  then show thesis using that db order_trans [OF t] by blast
qed

end

section \<open>Properties\<close>

text \<open>C19: A replay is exact.  When the stream of a channel holds the encodings of the messages \<open>ms\<close>,
  \<open>replay_channel\<close> returns exactly the messages above the last acknowledged sequence, in the order of
  their sequence numbers, each as often as it is buffered, with its id, payload and time as they were
  written; and it changes nothing.  It reports a gap exactly when the client has acknowledged something
  (\<open>k \<noteq> 0\<close>), the buffer is not empty and every buffered message is beyond the next one the client expects:
  a client that acknowledged nothing, or an empty buffer, is never told of a gap, whatever was lost.\<close>

theorem replay_exact:
  assumes "redis_calm X db" and "pyfloat_ok F" and "\<forall>m \<in> set ms. wf_message m"
    and "buffer_holds F (db s) ch ms"
  shows "\<exists>s'. replay_channel X F ch k s = (Inr (replay_spec ms k), s') \<and> db s' = db s \<and>
    sorted (map bm_sequence (rr_messages (replay_spec ms k))) \<and>
    mset (rr_messages (replay_spec ms k)) = filter_mset (\<lambda>m. k < bm_sequence m) (mset ms) \<and>
    (rr_gap (replay_spec ms k) \<longleftrightarrow> k \<noteq> 0 \<and> ms \<noteq> [] \<and> (\<forall>m \<in> set ms. k + 1 < bm_sequence m))"
proof -
  have "rr_gap (replay_spec ms k) \<longleftrightarrow> k \<noteq> 0 \<and> ms \<noteq> [] \<and> (\<forall>m \<in> set ms. k + 1 < bm_sequence m)"
    by (auto simp: replay_spec_def)
  moreover have "sorted (map bm_sequence (rr_messages (replay_spec ms k)))"
    by (simp add: replay_spec_def sorted_filter)
  moreover have "mset (rr_messages (replay_spec ms k)) = filter_mset (\<lambda>m. k < bm_sequence m) (mset ms)"
    by (simp add: replay_spec_def)
  ultimately show ?thesis using redis_calm.calm_replay [OF assms] by metis
qed

definition demo_message :: "int \<Rightarrow> buffered_message" where
  "demo_message n = \<lparr>bm_id = ''m'' @ show_int n, bm_sequence = n, bm_payload = JObj [(''n'', JInt n)], bm_created = 7\<rparr>"

definition demo_buffer :: mem where
  "demo_buffer =
     mem_put (channel_stream_key ''t-1:a'')
       (RStream [((7000, 0), encode_message frac_float (demo_message 6)),
                 ((7000, 1), encode_message frac_float (demo_message 5)),
                 ((7000, 2), encode_message frac_float (demo_message 7))], None)
       (mem_start 7 [])"

lemma demo_buffer_holds:
  "buffer_holds frac_float (mem_db demo_buffer) ''t-1:a'' [demo_message 6, demo_message 5, demo_message 7]"
  by (simp add: buffer_holds_def demo_buffer_def)

lemma demo_message_wf: "wf_message (demo_message n)"
  by (simp add: wf_message_def demo_message_def)

theorem replay_exact_witness:
  "\<exists>s'. replay_channel calm_redis frac_float ''t-1:a'' 5 demo_buffer =
     (Inr \<lparr>rr_messages = [demo_message 6, demo_message 7], rr_gap = False\<rparr>, s')"
proof -
  have "replay_spec [demo_message 6, demo_message 5, demo_message 7] 5 =
      \<lparr>rr_messages = [demo_message 6, demo_message 7], rr_gap = False\<rparr>"
    by (simp add: replay_spec_def demo_message_def)
  moreover have "\<forall>m \<in> set [demo_message 6, demo_message 5, demo_message 7]. wf_message m"
    by (simp add: demo_message_wf)
  ultimately show ?thesis
    using replay_exact [OF calm_mem.redis_calm_axioms frac.pyfloat_ok_axioms _ demo_buffer_holds, of 5] by auto
qed

end
