(* ===== verification/Publish.thy ===== *)
theory Publish
  imports Replay Frames
begin

text \<open>
  \<open>apps/gateway/fanout/publisher.py\<close>, \<open>publish_message\<close>: the one path every message takes (a sequence
  number, the recovery buffer, the Pub/Sub topic), one publisher at a time and several publishers
  interleaved at the Redis commands.  The message id is a fresh \<open>uuid4\<close> and an argument; \<open>strftime\<close> is
  the rendering of a time as a UTC timestamp.
\<close>

section \<open>The operation\<close>

record publish_result =
  pr_message_id :: string
  pr_sequence :: int

definition envelope ::
  "pydantic \<Rightarrow> (time \<Rightarrow> string) \<Rightarrow> string \<Rightarrow> string \<Rightarrow> int \<Rightarrow> json \<Rightarrow> time \<Rightarrow> string" where
  "envelope P strftime message_id channel sequence payload t =
     dump_json P (MessageFrame message_id channel sequence (strftime t) payload)"

definition publish_message ::
  "'r redis \<Rightarrow> pyfloat \<Rightarrow> pydantic \<Rightarrow> settings \<Rightarrow> (time \<Rightarrow> string) \<Rightarrow> string \<Rightarrow> string \<Rightarrow> json \<Rightarrow>
     ('r, publish_result) io" where
  "publish_message X F P cfg strftime message_id channel payload =
     bindE (allocate_sequence X channel) (\<lambda>sequence.
     thenE (append_to_channel_buffer X F cfg channel message_id sequence payload)
    (bindE (getE (rclock X)) (\<lambda>t.
     thenE (rcall X (PUBLISH (pubsub_channel_key channel)
                       (envelope P strftime message_id channel sequence payload t)))
           (returnE \<lparr>pr_message_id = message_id, pr_sequence = sequence\<rparr>))))"

text \<open>Publications one after the other, with the results of the calls.\<close>

fun publish_many ::
  "'r redis \<Rightarrow> pyfloat \<Rightarrow> pydantic \<Rightarrow> settings \<Rightarrow> (time \<Rightarrow> string) \<Rightarrow> string \<Rightarrow> (string \<times> json) list \<Rightarrow>
     'r \<Rightarrow> (exn + publish_result) list \<times> 'r" where
  "publish_many X F P cfg stf ch [] s = ([], s)"
| "publish_many X F P cfg stf ch ((mid, p) # ms) s =
     (let (x, s1) = publish_message X F P cfg stf mid ch p s;
          (xs, s2) = publish_many X F P cfg stf ch ms s1
      in (x # xs, s2))"

section \<open>One publication\<close>

lemma stream_key_neq [simp]:
  "channel_stream_key ch \<noteq> channel_sequence_key ch'" "channel_sequence_key ch' \<noteq> channel_stream_key ch"
  by (simp_all add: redis_key_defs)

lemma keep_last_drop: "\<exists>j \<le> length xs. keep_last n xs = drop j xs"
  by (rule exI [of _ "length xs - nat n"]) (simp add: keep_last_def)

lemma length_keep_last: "length (keep_last n xs) \<le> nat n"
  by (simp add: keep_last_def)

lemma keep_last_all: "length xs \<le> nat n \<Longrightarrow> keep_last n xs = xs"
  by (simp add: keep_last_def)

lemma map_keep_last: "map f (keep_last n xs) = keep_last n (map f xs)"
  by (simp add: keep_last_def drop_map)

lemma length_keep_last_eq: "length (keep_last n xs) = min (length xs) (nat n)"
  by (simp add: keep_last_def)

text \<open>The stream, with every entry id at or after a time.\<close>

definition buffer_since :: "pyfloat \<Rightarrow> int \<Rightarrow> rdb \<Rightarrow> string \<Rightarrow> buffered_message list \<Rightarrow> bool" where
  "buffer_since F T d ch ms =
     (\<exists>es. (rkeys d (channel_stream_key ch) = Some (RStream es, None) \<or>
            rkeys d (channel_stream_key ch) = None \<and> es = []) \<and>
        map snd es = map (encode_message F) ms \<and> (\<forall>e \<in> set es. T \<le> fst (fst e)))"

lemma buffer_since_holds: "buffer_since F T d ch ms \<Longrightarrow> buffer_holds F d ch ms"
  by (auto simp: buffer_since_def buffer_holds_def)

lemma buffer_since_frame:
  "rkeys d' (channel_stream_key ch) = rkeys d (channel_stream_key ch) \<Longrightarrow>
     buffer_since F T d' ch ms = buffer_since F T d ch ms"
  by (simp add: buffer_since_def)

lemma xadd_buffer:
  assumes "buffer_since F T d ch ms" and "0 \<le> n" and "T \<le> millis t"
    and "redis_ok t (XADD (channel_stream_key ch) (encode_message F m) n) d r d'"
  shows "buffer_since F T d' ch (keep_last n (ms @ [m])) \<and> r \<noteq> RErr"
proof -
  let ?k = "channel_stream_key ch"
  obtain es where es: "rkeys d ?k = Some (RStream es, None) \<or> rkeys d ?k = None \<and> es = []"
    "map snd es = map (encode_message F) ms" "\<forall>e \<in> set es. T \<le> fst (fst e)"
    using assms(1) by (auto simp: buffer_since_def)
  from es(1) assms(2,4) obtain i where i: "millis t \<le> fst i"
    and d': "d' = put_key ?k (RStream (keep_last n (es @ [(i, encode_message F m)])), None) d" and r: "r \<noteq> RErr"
    by (auto simp: lookup_at_def)
  have "map snd (keep_last n (es @ [(i, encode_message F m)])) = map (encode_message F) (keep_last n (ms @ [m]))"
    by (simp add: map_keep_last es(2))
  moreover have "set (keep_last n (es @ [(i, encode_message F m)])) \<subseteq> insert (i, encode_message F m) (set es)"
    by (auto simp: keep_last_def dest: in_set_dropD)
  then have "\<forall>e \<in> set (keep_last n (es @ [(i, encode_message F m)])). T \<le> fst (fst e)"
    using es(3) i assms(3) by fastforce
  ultimately show ?thesis using d' r by (auto simp: buffer_since_def)
qed

lemma xtrim_buffer:
  assumes "buffer_since F T d ch ms" and "redis_ok t (XTRIM (channel_stream_key ch) m) d r d'"
  shows "\<exists>j \<le> length ms. buffer_since F T d' ch (drop j ms) \<and> r \<noteq> RErr \<and> (m \<le> T \<longrightarrow> j = 0)"
proof -
  let ?k = "channel_stream_key ch"
  obtain es where es: "rkeys d ?k = Some (RStream es, None) \<or> rkeys d ?k = None \<and> es = []"
    "map snd es = map (encode_message F) ms" "\<forall>e \<in> set es. T \<le> fst (fst e)"
    using assms(1) by (auto simp: buffer_since_def)
  from es(1) show ?thesis
  proof
    assume "rkeys d ?k = None \<and> es = []"
    with assms show ?thesis by (auto simp: lookup_at_def intro!: exI [of _ 0])
  next
    assume k: "rkeys d ?k = Some (RStream es, None)"
    with assms(2) obtain j where j: "j \<le> length es" "\<forall>e \<in> set (take j es). fst (fst e) < m" "r = RInt (int j)"
      "d' = put_key ?k (RStream (drop j es), None) d" by (auto simp: lookup_at_def)
    have len: "length es = length ms" using es(2) by (metis length_map)
    have "j = 0" if "m \<le> T"
    proof (rule ccontr)
      assume "j \<noteq> 0"
      with j(1) have "hd es \<in> set (take j es)" "hd es \<in> set es" by (cases es; cases j; simp)+
      with j(2) es(3) that show False by fastforce
    qed
    moreover have "map snd (drop j es) = map (encode_message F) (drop j ms)" using es(2) by (metis drop_map)
    ultimately show ?thesis
      using j es(3) len by (auto simp: buffer_since_def dest: in_set_dropD intro!: exI [of _ j])
  qed
qed

context redis_calm
begin

lemma calm_append:
  assumes buf: "buffer_since F T (db s) ch ms" and T: "T \<le> millis (rclock X s)" and n: "0 \<le> channel_buffer_max_messages cfg"
  obtains s' j where "append_to_channel_buffer X F cfg ch mid sq p s = (Inr (), s')" "rclock X s \<le> rclock X s'"
    "j \<le> length (keep_last (channel_buffer_max_messages cfg) (ms @ [\<lparr>bm_id = mid, bm_sequence = sq, bm_payload = p, bm_created = rclock X s\<rparr>]))"
    "buffer_since F T (db s') ch
       (drop j (keep_last (channel_buffer_max_messages cfg) (ms @ [\<lparr>bm_id = mid, bm_sequence = sq, bm_payload = p, bm_created = rclock X s\<rparr>])))"
    "int_of_float ((rclock X s' - of_int (message_retention_seconds cfg)) * 1000) \<le> T \<Longrightarrow> j = 0"
    "\<And>k. k \<noteq> channel_stream_key ch \<Longrightarrow> rkeys (db s') k = rkeys (db s) k" "rpublished (db s') = rpublished (db s)"
proof -
  let ?m = "\<lparr>bm_id = mid, bm_sequence = sq, bm_payload = p, bm_created = rclock X s\<rparr>"
  let ?n = "channel_buffer_max_messages cfg" and ?k = "channel_stream_key ch"
  let ?a = "XADD ?k (encode_message F ?m) ?n"
  obtain r1 s1 t1 where t1: "rclock X s \<le> t1" "t1 \<le> rclock X s1" and o1: "redis_ok t1 ?a (db s) r1 (db s1)"
    and c1: "rcall X ?a s = (if r1 = RErr then Inl ResponseError else Inr r1, s1)" by (rule calm_call)
  let ?min = "int_of_float ((rclock X s1 - of_int (message_retention_seconds cfg)) * 1000)"
  let ?t = "XTRIM ?k ?min"
  obtain r2 s2 t2 where t2: "rclock X s1 \<le> t2" "t2 \<le> rclock X s2" and o2: "redis_ok t2 ?t (db s1) r2 (db s2)"
    and c2: "rcall X ?t s1 = (if r2 = RErr then Inl ResponseError else Inr r2, s2)" by (rule calm_call)
  have "millis (rclock X s) \<le> millis t1" unfolding millis_def using t1 by (intro floor_mono) simp
  with T have "T \<le> millis t1" by simp
  from xadd_buffer [OF buf n this o1] have b1: "buffer_since F T (db s1) ch (keep_last ?n (ms @ [?m]))" "r1 \<noteq> RErr" by auto
  from xtrim_buffer [OF b1(1) o2] obtain j where j: "j \<le> length (keep_last ?n (ms @ [?m]))"
    "buffer_since F T (db s2) ch (drop j (keep_last ?n (ms @ [?m])))" "r2 \<noteq> RErr" "?min \<le> T \<longrightarrow> j = 0" by blast
  have "append_to_channel_buffer X F cfg ch mid sq p s = (Inr (), s2)"
    using c1 c2 b1(2) j(3)
    by (simp add: append_to_channel_buffer_def encode_message_def bindE_def thenE_def Let_def)
  moreover have "?min \<le> T" if "int_of_float ((rclock X s2 - of_int (message_retention_seconds cfg)) * 1000) \<le> T"
  proof -
    have "rclock X s1 \<le> rclock X s2" using t2 by simp
    then have "?min \<le> int_of_float ((rclock X s2 - of_int (message_retention_seconds cfg)) * 1000)"
      by (intro int_of_float_mono) simp
    with that show ?thesis by linarith
  qed
  moreover have "rclock X s \<le> rclock X s2" using t1 t2 by linarith
  moreover have "rkeys (db s2) k = rkeys (db s) k" if "k \<noteq> ?k" for k
    using redis_ok_frame [OF o1, of k] redis_ok_frame [OF o2, of k] that by simp
  moreover have "rpublished (db s2) = rpublished (db s)"
    using redis_ok_published [OF o1] redis_ok_published [OF o2] by simp
  ultimately show thesis using j by (intro that [of s2 j]) auto
qed

end

section \<open>The log of a channel\<close>

text \<open>\<open>lg\<close> are all messages published so far, numbered from 1 without a hole; \<open>ret\<close>, a final part of it
  within the configured length, is what the buffer holds.\<close>

definition consecutive :: "buffered_message list \<Rightarrow> bool" where
  "consecutive lg = (\<forall>i < length lg. bm_sequence (lg ! i) = int i + 1)"

definition channel_log ::
  "pyfloat \<Rightarrow> int \<Rightarrow> int \<Rightarrow> rdb \<Rightarrow> string \<Rightarrow> buffered_message list \<Rightarrow> buffered_message list \<Rightarrow> bool" where
  "channel_log F T n d ch lg ret =
     (counter_wf d ch \<and> seq_counter d ch = int (length lg) \<and>
      consecutive lg \<and> suffix ret lg \<and> length ret \<le> nat n \<and> buffer_since F T d ch ret)"

lemma consecutive_snoc:
  "consecutive (lg @ [m]) \<longleftrightarrow> consecutive lg \<and> bm_sequence m = int (length lg) + 1"
  by (auto simp: consecutive_def nth_append less_Suc_eq)

lemma channel_log_start:
  "rkeys d (channel_sequence_key ch) = None \<Longrightarrow> rkeys d (channel_stream_key ch) = None \<Longrightarrow>
     channel_log F T n d ch [] []"
  by (simp add: channel_log_def counter_wf_def seq_counter_def buffer_since_def consecutive_def)

lemma keep_last_step: "0 \<le> n \<Longrightarrow> keep_last n (keep_last n xs @ [x]) = keep_last n (xs @ [x])"
  by (cases "length xs \<le> nat n") (auto simp: keep_last_def Suc_diff_le)

lemma suffix_keep_last: "suffix ret lg \<Longrightarrow> suffix (drop j (keep_last n (ret @ [m]))) (lg @ [m])"
  by (metis append.assoc keep_last_def suffixE suffixI suffix_drop suffix_order.trans)

context redis_calm
begin

lemma calm_publish:
  assumes lg: "channel_log F T (channel_buffer_max_messages cfg) (db s) ch lg ret"
    and T: "T \<le> millis (rclock X s)" and n: "0 \<le> channel_buffer_max_messages cfg"
    and room: "int (length lg) < 2 ^ 63 - 1"
  obtains s' m ret' t where
    "publish_message X F P cfg stf mid ch p s = (Inr \<lparr>pr_message_id = mid, pr_sequence = int (length lg) + 1\<rparr>, s')"
    "bm_id m = mid" "bm_payload m = p" "bm_sequence m = int (length lg) + 1" "rclock X s \<le> rclock X s'"
    "channel_log F T (channel_buffer_max_messages cfg) (db s') ch (lg @ [m]) ret'"
    "int_of_float ((rclock X s' - of_int (message_retention_seconds cfg)) * 1000) \<le> T \<Longrightarrow>
       ret = keep_last (channel_buffer_max_messages cfg) lg \<Longrightarrow> ret' = keep_last (channel_buffer_max_messages cfg) (lg @ [m])"
    "rpublished (db s') = rpublished (db s) @
       [(pubsub_channel_key ch, envelope P stf mid ch (int (length lg) + 1) p t)]"
proof -
  let ?n = "channel_buffer_max_messages cfg" and ?q = "int (length lg) + 1"
  note L = lg [unfolded channel_log_def]
  obtain s1 where a: "allocate_sequence X ch s = (Inr ?q, s1)" and c1: "counter_wf (db s1) ch" "seq_counter (db s1) ch = ?q"
    and f1: "\<And>k. k \<noteq> channel_sequence_key ch \<Longrightarrow> rkeys (db s1) k = rkeys (db s) k"
    and p1: "rpublished (db s1) = rpublished (db s)" and k1: "rclock X s \<le> rclock X s1"
    using calm_allocate [of s ch] L room by metis
  have b1: "buffer_since F T (db s1) ch ret" using L buffer_since_frame [of "db s1" ch "db s"] f1 by simp
  have "millis (rclock X s) \<le> millis (rclock X s1)" unfolding millis_def using k1 by (intro floor_mono) simp
  then have T1: "T \<le> millis (rclock X s1)" using T by simp
  let ?m = "\<lparr>bm_id = mid, bm_sequence = ?q, bm_payload = p, bm_created = rclock X s1\<rparr>"
  obtain s2 j where ap: "append_to_channel_buffer X F cfg ch mid ?q p s1 = (Inr (), s2)" and k2: "rclock X s1 \<le> rclock X s2"
    and b2: "buffer_since F T (db s2) ch (drop j (keep_last ?n (ret @ [?m])))"
    and j0: "int_of_float ((rclock X s2 - of_int (message_retention_seconds cfg)) * 1000) \<le> T \<Longrightarrow> j = 0"
    and f2: "\<And>k. k \<noteq> channel_stream_key ch \<Longrightarrow> rkeys (db s2) k = rkeys (db s1) k" and p2: "rpublished (db s2) = rpublished (db s1)"
    using calm_append [OF b1 T1 n, of mid ?q p] by metis
  let ?ret = "drop j (keep_last ?n (ret @ [?m]))"
  let ?c = "PUBLISH (pubsub_channel_key ch) (envelope P stf mid ch ?q p (rclock X s2))"
  obtain r3 s3 t3 where t3: "rclock X s2 \<le> t3" "t3 \<le> rclock X s3" and o3: "redis_ok t3 ?c (db s2) r3 (db s3)"
    and c3: "rcall X ?c s2 = (if r3 = RErr then Inl ResponseError else Inr r3, s3)" by (rule calm_call)
  have f3: "rkeys (db s3) k = rkeys (db s2) k" for k using redis_ok_frame [OF o3, of k] by simp
  have run: "publish_message X F P cfg stf mid ch p s = (Inr \<lparr>pr_message_id = mid, pr_sequence = ?q\<rparr>, s3)"
    using a ap c3 o3 by (auto simp: publish_message_def bindE_def thenE_def)
  have cnt: "counter_wf (db s3) ch" "seq_counter (db s3) ch = ?q"
    using counter_frame [of "db s3" ch "db s1"] f2 f3 c1 by simp_all
  have seqs: "consecutive (lg @ [?m])" using L by (simp add: consecutive_snoc)
  have suf: "suffix ?ret (lg @ [?m])" by (rule suffix_keep_last) (use L in blast)
  have len: "length ?ret \<le> nat ?n" using length_keep_last [of ?n "ret @ [?m]"] by simp
  have "buffer_since F T (db s3) ch ?ret" using b2 buffer_since_frame [of "db s3" ch "db s2"] f3 by simp
  with cnt seqs suf len have lg': "channel_log F T ?n (db s3) ch (lg @ [?m]) ?ret"
    unfolding channel_log_def by simp
  have k3: "rclock X s2 \<le> rclock X s3" using t3 by simp
  have old: "?ret = keep_last ?n (lg @ [?m])"
    if "int_of_float ((rclock X s3 - of_int (message_retention_seconds cfg)) * 1000) \<le> T" "ret = keep_last ?n lg"
  proof -
    have "int_of_float ((rclock X s2 - of_int (message_retention_seconds cfg)) * 1000)
        \<le> int_of_float ((rclock X s3 - of_int (message_retention_seconds cfg)) * 1000)"
      by (intro int_of_float_mono) (use k3 in simp)
    with that(1) have "j = 0" by (intro j0) linarith
    with that(2) keep_last_step [OF n] show ?thesis by simp
  qed
  show thesis
  proof (rule that [of s3 ?m ?ret "rclock X s2"])
    show "rclock X s \<le> rclock X s3" using k1 k2 k3 by linarith
    show "rpublished (db s3) = rpublished (db s) @ [(pubsub_channel_key ch, envelope P stf mid ch ?q p (rclock X s2))]"
      using o3 p1 p2 by simp
  qed (fact run lg' | rule old | simp)+
qed

end

context redis_service
begin

lemma publish_message_clock: "clocked X (publish_message X F P cfg stf mid ch p)"
  by (auto simp: publish_message_def allocate_sequence_def append_to_channel_buffer_def Let_def
      intro!: clocked_bindE clocked_thenE clocked_rcall)

end

context redis_calm
begin

lemma publish_many_clock: "rclock X s \<le> rclock X (snd (publish_many X F P cfg stf ch ms s))"
proof (induction ms arbitrary: s)
  case (Cons m ms)
  obtain mid p where m: "m = (mid, p)" by (cases m)
  have "rclock X s \<le> rclock X (snd (publish_message X F P cfg stf mid ch p s))"
    using publish_message_clock unfolding clocked_def by blast
  then show ?case using Cons.IH [of "snd (publish_message X F P cfg stf mid ch p s)"] m
    by (auto split: prod.splits)
qed simp

lemma calm_publish_many:
  assumes "channel_log F T (channel_buffer_max_messages cfg) (db s) ch lg ret" and "T \<le> millis (rclock X s)"
    and "0 \<le> channel_buffer_max_messages cfg" and "int (length lg + length ms) < 2 ^ 63 - 1"
    and "publish_many X F P cfg stf ch ms s = (xs, s')"
  shows "\<exists>lg' ret'. channel_log F T (channel_buffer_max_messages cfg) (db s') ch (lg @ lg') ret' \<and>
    map (\<lambda>m. (bm_id m, bm_payload m)) lg' = ms \<and>
    xs = map (\<lambda>m. Inr \<lparr>pr_message_id = bm_id m, pr_sequence = bm_sequence m\<rparr>) lg' \<and>
    (int_of_float ((rclock X s' - of_int (message_retention_seconds cfg)) * 1000) \<le> T \<and>
     ret = keep_last (channel_buffer_max_messages cfg) lg \<longrightarrow> ret' = keep_last (channel_buffer_max_messages cfg) (lg @ lg'))"
  using assms
proof (induction ms arbitrary: s lg ret xs)
  case Nil
  then show ?case by (intro exI [of _ "[]"] exI [of _ ret]) simp
next
  case (Cons a ms)
  let ?n = "channel_buffer_max_messages cfg"
  obtain mid p where a: "a = (mid, p)" by (cases a)
  from Cons.prems(4) have room: "int (length lg) < 2 ^ 63 - 1" by simp
  obtain s1 m ret1 where run: "publish_message X F P cfg stf mid ch p s =
      (Inr \<lparr>pr_message_id = mid, pr_sequence = int (length lg) + 1\<rparr>, s1)"
    and m: "bm_id m = mid" "bm_payload m = p" "bm_sequence m = int (length lg) + 1" and k1: "rclock X s \<le> rclock X s1"
    and log1: "channel_log F T ?n (db s1) ch (lg @ [m]) ret1"
    and keep: "int_of_float ((rclock X s1 - of_int (message_retention_seconds cfg)) * 1000) \<le> T \<Longrightarrow>
       ret = keep_last ?n lg \<Longrightarrow> ret1 = keep_last ?n (lg @ [m])"
    using calm_publish [OF Cons.prems(1,2,3) room, of P stf mid p] by metis
  obtain ys where ys: "publish_many X F P cfg stf ch ms s1 = (ys, s')"
    "xs = Inr \<lparr>pr_message_id = mid, pr_sequence = int (length lg) + 1\<rparr> # ys"
    using Cons.prems(5) run a by (auto split: prod.splits)
  have "millis (rclock X s) \<le> millis (rclock X s1)" unfolding millis_def using k1 by (intro floor_mono) simp
  then have T1: "T \<le> millis (rclock X s1)" using Cons.prems(2) by simp
  have "int (length (lg @ [m]) + length ms) < 2 ^ 63 - 1" using Cons.prems(4) by simp
  from Cons.IH [OF log1 T1 Cons.prems(3) this ys(1)] obtain lg' ret' where
    IH: "channel_log F T ?n (db s') ch ((lg @ [m]) @ lg') ret'" "map (\<lambda>m. (bm_id m, bm_payload m)) lg' = ms"
    "ys = map (\<lambda>m. Inr \<lparr>pr_message_id = bm_id m, pr_sequence = bm_sequence m\<rparr>) lg'"
    "int_of_float ((rclock X s' - of_int (message_retention_seconds cfg)) * 1000) \<le> T \<and>
     ret1 = keep_last ?n (lg @ [m]) \<longrightarrow> ret' = keep_last ?n ((lg @ [m]) @ lg')" by blast
  have "rclock X s1 \<le> rclock X s'" using publish_many_clock [of s1 F P cfg stf ch ms] ys by simp
  then have "int_of_float ((rclock X s1 - of_int (message_retention_seconds cfg)) * 1000)
      \<le> int_of_float ((rclock X s' - of_int (message_retention_seconds cfg)) * 1000)"
    by (intro int_of_float_mono) simp
  with keep IH have "int_of_float ((rclock X s' - of_int (message_retention_seconds cfg)) * 1000) \<le> T \<and>
     ret = keep_last ?n lg \<longrightarrow> ret' = keep_last ?n (lg @ m # lg')" by auto
  with IH m ys(2) a show ?case by (intro exI [of _ "m # lg'"] exI [of _ ret']) auto
qed

end

section \<open>Replaying the log\<close>

lemma filter_sequence:
  assumes "consecutive lg"
  shows "filter (\<lambda>m. int a < bm_sequence m) lg = drop a lg"
  using assms
proof (induction lg rule: rev_induct)
  case (snoc m lg)
  then show ?case by (cases "a \<le> length lg") (auto simp: consecutive_snoc)
qed simp

lemma replay_log:
  assumes "consecutive lg" and "ret = drop j lg" and "j \<le> length lg"
  shows "rr_messages (replay_spec ret (int a)) = drop (max a j) lg \<and>
    (rr_gap (replay_spec ret (int a)) \<longleftrightarrow> j < length lg \<and> a \<noteq> 0 \<and> a < j)"
proof -
  have "sorted (map bm_sequence lg)" using assms(1) by (auto simp: sorted_iff_nth_mono consecutive_def)
  then have "sorted (map bm_sequence ret)" unfolding assms(2) drop_map [symmetric] by (rule sorted_wrt_drop)
  then have sort: "sort_key bm_sequence ret = ret" by (rule sort_key_id_if_sorted)
  have ret: "ret = filter (\<lambda>m. int j < bm_sequence m) lg" using assms(2) filter_sequence [OF assms(1)] by simp
  have "filter (\<lambda>m. int a < bm_sequence m) ret = filter (\<lambda>m. int (max a j) < bm_sequence m) lg"
    unfolding ret filter_filter by (rule filter_cong) auto
  then have msgs: "filter (\<lambda>m. int a < bm_sequence m) ret = drop (max a j) lg" using filter_sequence [OF assms(1)] by simp
  have seq: "bm_sequence (lg ! i) = int i + 1" if "i < length lg" for i
    using assms(1) that by (simp add: consecutive_def)
  have "(\<forall>m \<in> set ret. int a + 1 < bm_sequence m) \<longleftrightarrow> a < j" if "j < length lg"
  proof
    assume "\<forall>m \<in> set ret. int a + 1 < bm_sequence m"
    moreover have "lg ! j \<in> set ret" using that assms(2) by (metis Cons_nth_drop_Suc list.set_intros(1))
    ultimately show "a < j" using seq [OF that] by auto
  next
    assume "a < j"
    then show "\<forall>m \<in> set ret. int a + 1 < bm_sequence m" by (auto simp: ret)
  qed
  moreover have "ret \<noteq> [] \<longleftrightarrow> j < length lg" using assms(2,3) by auto
  ultimately show ?thesis using sort msgs by (auto simp: replay_spec_def)
qed

definition contents :: "buffered_message \<Rightarrow> string \<times> int \<times> json" where
  "contents m = (bm_id m, bm_sequence m, bm_payload m)"

definition numbered :: "(string \<times> json) list \<Rightarrow> (string \<times> int \<times> json) list" where
  "numbered ms = map (\<lambda>i. (fst (ms ! i), int i + 1, snd (ms ! i))) [0..<length ms]"

lemma contents_log:
  assumes "consecutive lg" and "map (\<lambda>m. (bm_id m, bm_payload m)) lg = ms"
  shows "map contents lg = numbered ms"
proof (rule nth_equalityI)
  show len: "length (map contents lg) = length (numbered ms)" using assms(2) by (auto simp: numbered_def)
  fix i
  assume "i < length (map contents lg)"
  then have i: "i < length lg" by simp
  moreover have "bm_sequence (lg ! i) = int i + 1" using assms(1) i by (simp add: consecutive_def)
  ultimately show "map contents lg ! i = numbered ms ! i" using assms(2) by (auto simp: numbered_def contents_def)
qed

context redis_calm
begin

lemma calm_publish_replay:
  assumes F: "pyfloat_ok F" and fresh: "rkeys (db s) (channel_sequence_key ch) = None" "rkeys (db s) (channel_stream_key ch) = None"
    and n: "0 \<le> channel_buffer_max_messages cfg" and len: "int (length ms) < 2 ^ 63 - 1"
    and wf: "\<forall>(mid, p) \<in> set ms. wf_json p" and run: "publish_many X F P cfg stf ch ms s = (xs, s1)"
  shows "\<exists>j \<le> length ms. length ms - j \<le> nat (channel_buffer_max_messages cfg) \<and>
    xs = map (\<lambda>i. Inr \<lparr>pr_message_id = fst (ms ! i), pr_sequence = int i + 1\<rparr>) [0..<length ms] \<and>
    (0 \<le> rclock X s \<and> rclock X s1 \<le> rclock X s + of_int (message_retention_seconds cfg) \<longrightarrow>
       j = length ms - nat (channel_buffer_max_messages cfg)) \<and>
    (\<forall>a \<le> length ms. \<exists>r s2. replay_channel X F ch (int a) s1 = (Inr r, s2) \<and>
       map contents (rr_messages r) = drop (max a j) (numbered ms) \<and>
       (rr_gap r \<longleftrightarrow> j < length ms \<and> a \<noteq> 0 \<and> a < j))"
proof -
  let ?n = "channel_buffer_max_messages cfg" and ?T = "millis (rclock X s)"
  obtain lg ret where lg: "channel_log F ?T ?n (db s1) ch lg ret" and ms: "map (\<lambda>m. (bm_id m, bm_payload m)) lg = ms"
    and xs: "xs = map (\<lambda>m. Inr \<lparr>pr_message_id = bm_id m, pr_sequence = bm_sequence m\<rparr>) lg"
    and keep: "int_of_float ((rclock X s1 - of_int (message_retention_seconds cfg)) * 1000) \<le> ?T \<longrightarrow> ret = keep_last ?n lg"
    using calm_publish_many [OF channel_log_start [OF fresh] order_refl n _ run] len by (auto simp: keep_last_def)
  note L = lg [unfolded channel_log_def]
  have length: "length lg = length ms" using ms by auto
  define j where "j = length lg - length ret"
  have ret: "ret = drop j lg" "j \<le> length lg" "length ret = length lg - j"
    using L by (auto simp: j_def suffix_def)
  have "\<forall>m \<in> set lg. wf_message m" using wf ms by (auto simp: wf_message_def)
  then have wfr: "\<forall>m \<in> set ret. wf_message m" using ret(1) by (auto dest: in_set_dropD)
  have buf: "buffer_holds F (db s1) ch ret" using L buffer_since_holds by blast
  have seqs: "consecutive lg" using L by blast
  have 1: "length ms - j \<le> nat ?n" using L ret length by auto
  have 2: "xs = map (\<lambda>i. Inr \<lparr>pr_message_id = fst (ms ! i), pr_sequence = int i + 1\<rparr>) [0..<length ms]"
  proof -
    have "xs = map (\<lambda>(i, q, p). Inr \<lparr>pr_message_id = i, pr_sequence = q\<rparr>) (map contents lg)"
      unfolding xs by (simp add: contents_def)
    then show ?thesis unfolding contents_log [OF seqs ms] by (simp add: numbered_def)
  qed
  have 3: "j = length ms - nat ?n"
    if "0 \<le> rclock X s" "rclock X s1 \<le> rclock X s + of_int (message_retention_seconds cfg)"
  proof -
    have "int_of_float ((rclock X s1 - of_int (message_retention_seconds cfg)) * 1000) \<le> int_of_float (rclock X s * 1000)"
      by (rule int_of_float_mono) (use that in simp)
    also have "\<dots> = ?T" using that by (simp add: int_of_float_def millis_def)
    finally have "ret = keep_last ?n lg" using keep by blast
    then show ?thesis using length by (simp add: j_def length_keep_last_eq)
  qed
  have 4: "\<exists>r s2. replay_channel X F ch (int a) s1 = (Inr r, s2) \<and>
       map contents (rr_messages r) = drop (max a j) (numbered ms) \<and> (rr_gap r \<longleftrightarrow> j < length ms \<and> a \<noteq> 0 \<and> a < j)" for a
  proof -
    obtain s2 where "replay_channel X F ch (int a) s1 = (Inr (replay_spec ret (int a)), s2)"
      using calm_replay [OF F wfr buf] by metis
    with replay_log [OF seqs ret(1,2), of a] contents_log [OF seqs ms] length show ?thesis by (metis drop_map)
  qed
  show ?thesis using 1 2 3 4 ret(2) length by (intro exI [of _ j]) simp
qed

end

section \<open>Properties\<close>

text \<open>C6: What was published is replayed.  After \<open>k\<close> publications on a fresh channel of a Redis without
  faults, the calls have returned the sequence numbers 1 to \<open>k\<close>, and the buffer has kept all but the
  first \<open>j\<close> messages, at most as many as configured and exactly the newest ones as long as nothing is
  older than the retention time.  A replay from an acknowledged position \<open>a\<close> returns every message
  after \<open>a\<close> that is still kept, complete and in order, with id, number and payload as published; it
  reports a gap exactly when \<open>a\<close> is not zero and message \<open>a + 1\<close> has been dropped.\<close>

theorem published_messages_replay:
  assumes "redis_calm X db" and "pyfloat_ok F"
    and "rkeys (db s) (channel_sequence_key ch) = None" and "rkeys (db s) (channel_stream_key ch) = None"
    and "0 \<le> channel_buffer_max_messages cfg" and "int (length ms) < 2 ^ 63 - 1"
    and "\<forall>(mid, p) \<in> set ms. wf_json p" and "publish_many X F P cfg stf ch ms s = (xs, s1)"
  shows "\<exists>j \<le> length ms. length ms - j \<le> nat (channel_buffer_max_messages cfg) \<and>
    xs = map (\<lambda>i. Inr \<lparr>pr_message_id = fst (ms ! i), pr_sequence = int i + 1\<rparr>) [0..<length ms] \<and>
    (0 \<le> rclock X s \<and> rclock X s1 \<le> rclock X s + of_int (message_retention_seconds cfg) \<longrightarrow>
       j = length ms - nat (channel_buffer_max_messages cfg)) \<and>
    (\<forall>a \<le> length ms. \<exists>r s2. replay_channel X F ch (int a) s1 = (Inr r, s2) \<and>
       map contents (rr_messages r) = drop (max a j) (numbered ms) \<and>
       (rr_gap r \<longleftrightarrow> j < length ms \<and> a \<noteq> 0 \<and> a < j))"
  by (rule redis_calm.calm_publish_replay [OF assms])

definition demo_payloads :: "(string \<times> json) list" where
  "demo_payloads = [(''m1'', JObj [(''n'', JInt 1)]), (''m2'', JObj []), (''m3'', JObj [(''s'', JStr ''x'')])]"

definition small_buffer :: settings where
  "small_buffer = default_settings\<lparr>channel_buffer_max_messages := 2\<rparr>"

lemma publish_many_still:
  "mem_clock (snd (publish_many calm_redis F P cfg stf ch ms s)) = mem_clock s"
proof (induction ms arbitrary: s)
  case (Cons m ms)
  obtain mid p where m: "m = (mid, p)" by (cases m)
  have "still (publish_message calm_redis F P cfg stf mid ch p)"
    by (auto simp: publish_message_def allocate_sequence_def append_to_channel_buffer_def Let_def
        intro!: still_bindE still_thenE still_rcall)
  then have "mem_clock (snd (publish_message calm_redis F P cfg stf mid ch p s)) = mem_clock s" by (simp add: still_def)
  then show ?case using Cons.IH [of "snd (publish_message calm_redis F P cfg stf mid ch p s)"] m
    by (auto split: prod.splits)
qed simp

theorem published_messages_replay_witness:
  "\<exists>xs s1 r s2. publish_many calm_redis frac_float strict_pydantic small_buffer (\<lambda>_. []) ''t-1:a'' demo_payloads (mem_start 1000 []) = (xs, s1) \<and>
     replay_channel calm_redis frac_float ''t-1:a'' 1 s1 = (Inr r, s2) \<and> \<not> rr_gap r \<and>
     map contents (rr_messages r) = [(''m2'', 2, JObj []), (''m3'', 3, JObj [(''s'', JStr ''x'')])]"
proof -
  let ?s = "mem_start 1000 []"
  obtain xs s1 where run: "publish_many calm_redis frac_float strict_pydantic small_buffer (\<lambda>_. []) ''t-1:a'' demo_payloads ?s = (xs, s1)"
    by fastforce
  have "mem_clock s1 = 1000"
    using publish_many_still [of frac_float strict_pydantic small_buffer "\<lambda>_. []" "''t-1:a''" demo_payloads ?s] run
    by (simp add: mem_start_def)
  then have t: "0 \<le> rclock calm_redis ?s" "rclock calm_redis s1 \<le> rclock calm_redis ?s + of_int (message_retention_seconds small_buffer)"
    by (simp_all add: calm_redis_def mem_start_def small_buffer_def)
  have fresh: "rkeys (mem_db ?s) k = None" for k by (simp add: mem_db_def mem_start_def)
  have n: "channel_buffer_max_messages small_buffer = 2" by (simp add: small_buffer_def)
  have wf: "\<forall>(mid, p) \<in> set demo_payloads. wf_json p" by (simp add: demo_payloads_def)
  have len: "length demo_payloads = 3" by (simp add: demo_payloads_def)
  have pre: "0 \<le> channel_buffer_max_messages small_buffer" "int (length demo_payloads) < 2 ^ 63 - 1" using n len by simp_all
  obtain j where j: "j = length demo_payloads - nat (channel_buffer_max_messages small_buffer)"
    and all: "\<forall>a \<le> length demo_payloads. \<exists>r s2. replay_channel calm_redis frac_float ''t-1:a'' (int a) s1 = (Inr r, s2) \<and>
       map contents (rr_messages r) = drop (max a j) (numbered demo_payloads) \<and>
       (rr_gap r \<longleftrightarrow> j < length demo_payloads \<and> a \<noteq> 0 \<and> a < j)"
    using published_messages_replay [OF calm_mem.redis_calm_axioms frac.pyfloat_ok_axioms fresh fresh pre wf run] t by blast
  have "j = 1" using j n len by simp
  with all [rule_format, of 1] len obtain r s2 where r: "replay_channel calm_redis frac_float ''t-1:a'' 1 s1 = (Inr r, s2)"
    "map contents (rr_messages r) = drop 1 (numbered demo_payloads)" "\<not> rr_gap r" by auto
  moreover have "drop 1 (numbered demo_payloads) = [(''m2'', 2, JObj []), (''m3'', 3, JObj [(''s'', JStr ''x'')])]"
    by (simp add: numbered_def demo_payloads_def)
  ultimately show ?thesis using run by auto
qed

text \<open>C37: A replay from zero hides dropped messages.  After more publications than the buffer holds, a
  client that asks for everything (last acknowledged sequence zero) is told that there is no gap,
  although message 1 is not among the replayed ones.\<close>

theorem replay_from_zero_hides_loss:
  assumes "redis_calm X db" and "pyfloat_ok F"
    and "rkeys (db s) (channel_sequence_key ch) = None" and "rkeys (db s) (channel_stream_key ch) = None"
    and "0 \<le> channel_buffer_max_messages cfg" and "int (length ms) < 2 ^ 63 - 1"
    and "\<forall>(mid, p) \<in> set ms. wf_json p" and "publish_many X F P cfg stf ch ms s = (xs, s1)"
    and "0 \<le> rclock X s" and "rclock X s1 \<le> rclock X s + of_int (message_retention_seconds cfg)"
    and "channel_buffer_max_messages cfg < int (length ms)"
  shows "\<exists>r s2. replay_channel X F ch 0 s1 = (Inr r, s2) \<and> \<not> rr_gap r \<and> (\<forall>m \<in> set (rr_messages r). bm_sequence m \<noteq> 1)"
proof -
  obtain j where j: "j = length ms - nat (channel_buffer_max_messages cfg)"
    and all: "\<forall>a \<le> length ms. \<exists>r s2. replay_channel X F ch (int a) s1 = (Inr r, s2) \<and>
       map contents (rr_messages r) = drop (max a j) (numbered ms) \<and> (rr_gap r \<longleftrightarrow> j < length ms \<and> a \<noteq> 0 \<and> a < j)"
    using redis_calm.calm_publish_replay [OF assms(1-8)] assms(9,10) by blast
  from all [rule_format, of 0] obtain r s2 where r: "replay_channel X F ch 0 s1 = (Inr r, s2)" "\<not> rr_gap r"
    "map contents (rr_messages r) = drop j (numbered ms)" by auto
  have "0 < j" using j assms(5,11) by linarith
  have "bm_sequence m \<noteq> 1" if "m \<in> set (rr_messages r)" for m
  proof -
    have "contents m \<in> set (drop j (numbered ms))" using that r(3) by (metis image_eqI set_map)
    then obtain i where "(fst (ms ! (j + i)), int j + int i + 1, snd (ms ! (j + i))) = contents m"
      by (auto simp: in_set_conv_nth numbered_def)
    then show ?thesis using \<open>0 < j\<close> by (auto simp: contents_def)
  qed
  with r show ?thesis by blast
qed

theorem replay_from_zero_hides_loss_witness:
  "\<exists>xs s1 r s2. publish_many calm_redis frac_float strict_pydantic small_buffer (\<lambda>_. []) ''t-1:a'' demo_payloads (mem_start 1000 []) = (xs, s1) \<and>
     replay_channel calm_redis frac_float ''t-1:a'' 0 s1 = (Inr r, s2) \<and> \<not> rr_gap r \<and> (\<forall>m \<in> set (rr_messages r). bm_sequence m \<noteq> 1)"
proof -
  let ?s = "mem_start 1000 []"
  obtain xs s1 where run: "publish_many calm_redis frac_float strict_pydantic small_buffer (\<lambda>_. []) ''t-1:a'' demo_payloads ?s = (xs, s1)"
    by fastforce
  have "mem_clock s1 = 1000"
    using publish_many_still [of frac_float strict_pydantic small_buffer "\<lambda>_. []" "''t-1:a''" demo_payloads ?s] run
    by (simp add: mem_start_def)
  then have t: "0 \<le> rclock calm_redis ?s" "rclock calm_redis s1 \<le> rclock calm_redis ?s + of_int (message_retention_seconds small_buffer)"
    by (simp_all add: calm_redis_def mem_start_def small_buffer_def)
  have fresh: "rkeys (mem_db ?s) k = None" for k by (simp add: mem_db_def mem_start_def)
  have n: "0 \<le> channel_buffer_max_messages small_buffer" "int (length demo_payloads) < 2 ^ 63 - 1"
    "channel_buffer_max_messages small_buffer < int (length demo_payloads)" "\<forall>(mid, p) \<in> set demo_payloads. wf_json p"
    by (simp_all add: small_buffer_def demo_payloads_def)
  from replay_from_zero_hides_loss [OF calm_mem.redis_calm_axioms frac.pyfloat_ok_axioms fresh fresh n(1,2,4) run t n(3)] run
  show ?thesis by blast
qed

end
