(* ===== verification/Handler.thy ===== *)
theory Handler
  imports Fanout Sessions Presence Publish Auth
begin

text \<open>
  \<open>apps/gateway/websocket/handler.py\<close>: the life of one WebSocket connection.  \<open>handshake\<close> authenticates
  the first frame and registers the connection, \<open>handle_frame\<close> is one round of \<open>_frame_loop\<close> with one
  definition per frame type, \<open>cleanup_connection\<close> is the cleanup sequence, and \<open>handle_connection\<close>
  composes them.  What the code reads from outside is the record \<open>deps\<close> (Redis, sockets, Pydantic,
  floats, settings, SHA-256, the rendering of times, of exceptions and of values that are not
  strings); the UUIDs and the contents of the database, or the exception it raises, are arguments.
  The sender and heartbeat tasks are the machines of \<open>Connections\<close> and \<open>Heartbeat\<close>; here they are
  started and cancelled.  The handshake semaphore is in \<open>Admission\<close>; log lines are not modelled.
  The ids a client sends, \<open>session_id\<close> and \<open>user_id\<close>, are kept as their text; the code keeps any JSON value,
  and a list or an object as a user id later cannot be hashed by the metrics endpoint.
\<close>

section \<open>Dependencies\<close>

record ('r, 'w) deps =
  dp_redis :: "'r redis"
  dp_ws :: "'w sockets"
  dp_pydantic :: pydantic
  dp_float :: pyfloat
  dp_cfg :: settings
  dp_sha256 :: "string \<Rightarrow> string"
  dp_strftime :: "time \<Rightarrow> string"
  dp_str :: "json \<Rightarrow> string"
  dp_exn_str :: "exn \<Rightarrow> string"

text \<open>\<open>raw.get(k)\<close>, \<open>str(v)\<close> and the truth value of a value read from JSON.\<close>

definition raw_get :: "(string \<times> json) list \<Rightarrow> string \<Rightarrow> json" where
  "raw_get raw k = (case jget raw k of None \<Rightarrow> JNull | Some v \<Rightarrow> v)"

definition text_of :: "('r, 'w) deps \<Rightarrow> json \<Rightarrow> string" where
  "text_of D v = (case v of JStr s \<Rightarrow> s | _ \<Rightarrow> dp_str D v)"

definition truthy :: "json \<Rightarrow> bool" where
  "truthy v =
     (case v of
        JNull \<Rightarrow> False
      | JBool b \<Rightarrow> b
      | JInt n \<Rightarrow> n \<noteq> 0
      | JFloat t \<Rightarrow> \<not> list_all (\<lambda>c. c \<in> set ''0.-+'') (takeWhile (\<lambda>c. c \<notin> set ''eE'') t)
      | JStr s \<Rightarrow> s \<noteq> []
      | JArr vs \<Rightarrow> vs \<noteq> []
      | JObj kvs \<Rightarrow> kvs \<noteq> [])"

definition the_conn :: "nat \<Rightarrow> (('r, 'w) world, connection) io" where
  "the_conn ws = connE ws (getE (\<lambda>c. c))"

section \<open>The handshake\<close>

definition send_error ::
  "('r, 'w) deps \<Rightarrow> nat \<Rightarrow> ErrorCode \<Rightarrow> string \<Rightarrow> (('r, 'w) world, unit) io" where
  "send_error D ws code message =
     send_frame (dp_ws D) (dp_pydantic D) ws (ErrorFrame (error_code_value code) message)"

text \<open>\<open>receive_json()\<close> with the first \<open>raw.get\<close>, which raises on a value that is not an object.\<close>

definition receive_object :: "('r, 'w) deps \<Rightarrow> nat \<Rightarrow> (('r, 'w) world, (string \<times> json) list) io" where
  "receive_object D ws =
     bindE (wsE (dp_ws D) ws WsReceive) (\<lambda>reply.
       case reply of WsJson (JObj raw) \<Rightarrow> returnE raw | _ \<Rightarrow> raiseE AttributeError)"

text \<open>An error frame and the close of the socket, in a handshake that ends there.\<close>

definition reject ::
  "('r, 'w) deps \<Rightarrow> nat \<Rightarrow> ErrorCode \<Rightarrow> string \<Rightarrow> int option \<Rightarrow> (('r, 'w) world, 'a option) io" where
  "reject D ws code message close_code =
     thenE (send_error D ws code message) (thenE (close_ws (dp_ws D) ws close_code) (returnE None))"

definition authenticate_json ::
  "('r, 'w) deps \<Rightarrow> exn + database \<Rightarrow> json \<Rightarrow> (('r, 'w) world, auth_context) io" where
  "authenticate_json D db token =
     (if \<not> truthy token then raiseE (AuthenticationError ''missing token'')
      else
        (case token of
           JStr t \<Rightarrow>
             (case db of
                Inl e \<Rightarrow> raiseE e
              | Inr d \<Rightarrow> (case authenticate_token (dp_sha256 D) d t of Inl e \<Rightarrow> raiseE e | Inr a \<Rightarrow> returnE a))
         | _ \<Rightarrow> raiseE AttributeError))"

text \<open>Session creation or resumption, in the two awaits of the code: the lookup of the session the client
  asks for, which counts when it is of the tenant, and then \<open>touch_session\<close> or \<open>create_session\<close>.  The
  session id is a JSON value, the one of the client when it is resumed.\<close>

definition resumable_session ::
  "('r, 'w) deps \<Rightarrow> string \<Rightarrow> json \<Rightarrow> (('r, 'w) world, json option) io" where
  "resumable_session D tid requested =
     (if truthy requested then
        bindE (redisE (get_session (dp_redis D) (text_of D requested))) (\<lambda>existing.
          returnE (case existing of
                     None \<Rightarrow> None
                   | Some h \<Rightarrow> if map_of h ''tenant_id'' = Some tid then Some requested else None))
      else returnE None)"

definition start_session ::
  "('r, 'w) deps \<Rightarrow> string \<Rightarrow> string \<Rightarrow> json option \<Rightarrow> (('r, 'w) world, json) io" where
  "start_session D tid uuid sid =
     (case sid of
        None \<Rightarrow>
          bindE (redisE (create_session (dp_redis D) (dp_float D) (dp_cfg D) uuid tid (node_id (dp_cfg D))))
            (\<lambda>s. returnE (JStr s))
      | Some v \<Rightarrow>
          thenE (redisE (touch_session (dp_redis D) (dp_float D) (dp_cfg D) (text_of D v) (node_id (dp_cfg D))))
            (returnE v))"

definition open_session ::
  "('r, 'w) deps \<Rightarrow> string \<Rightarrow> json \<Rightarrow> string \<Rightarrow> (('r, 'w) world, json) io" where
  "open_session D tid requested uuid = bindE (resumable_session D tid requested) (start_session D tid uuid)"

definition register_connection ::
  "nat \<Rightarrow> connection \<Rightarrow> string option \<Rightarrow> (('r, 'w) world, unit) io" where
  "register_connection ws conn user =
     thenE (modifyE (\<lambda>w. w\<lparr>w_heap := (w_heap w)(ws \<mapsto> conn)\<rparr>))
    (thenE (regE (registry_add ws))
           (update_conn ws (\<lambda>c. c\<lparr>user_id := user\<rparr>)))"

definition start_tasks :: "nat \<Rightarrow> (('r, 'w) world, unit) io" where
  "start_tasks ws = modifyE (\<lambda>w. w\<lparr>w_tasks := w_tasks w @ [ws]\<rparr>)"

definition connected_frame ::
  "('r, 'w) deps \<Rightarrow> nat \<Rightarrow> string \<Rightarrow> json \<Rightarrow> (('r, 'w) world, unit) io" where
  "connected_frame D ws cid sid =
     (case py_str (dp_pydantic D) sid of
        None \<Rightarrow> raiseE (ValidationError ''session_id'')
      | Some s \<Rightarrow>
          send_frame (dp_ws D) (dp_pydantic D) ws
            (ConnectedFrame cid s (node_id (dp_cfg D)) (heartbeat_interval_seconds (dp_cfg D))))"

text \<open>The part after authentication: the limit of the tenant, the session, the connection.\<close>

definition announce_online ::
  "('r, 'w) deps \<Rightarrow> string \<Rightarrow> string \<Rightarrow> string option \<Rightarrow> (('r, 'w) world, unit) io" where
  "announce_online D tid cid uid =
     (case uid of
        None \<Rightarrow> returnE ()
      | Some u \<Rightarrow> redisE (connection_online (dp_redis D) (dp_cfg D) tid u cid))"

definition establish ::
  "('r, 'w) deps \<Rightarrow> nat \<Rightarrow> string \<Rightarrow> string \<Rightarrow> json \<Rightarrow> json \<Rightarrow> (('r, 'w) world, string option) io" where
  "establish D ws conn_hex tid user sid =
     bindE (time_now (dp_redis D)) (\<lambda>now.
     let cid = ''conn-'' @ take 12 conn_hex;
         uid = (if truthy user then Some (text_of D user) else None)
     in thenE (register_connection ws (new_connection cid (text_of D sid) tid ACTIVE now) uid)
       (thenE (announce_online D tid cid uid)
       (thenE (start_tasks ws)
       (thenE (connected_frame D ws cid sid)
              (returnE (Some tid))))))"

definition admit ::
  "('r, 'w) deps \<Rightarrow> nat \<Rightarrow> string \<Rightarrow> string \<Rightarrow> string \<Rightarrow> json \<Rightarrow> json \<Rightarrow> (('r, 'w) world, string option) io" where
  "admit D ws session_uuid conn_hex tid requested user =
     bindE (getE (\<lambda>w. tenant_connection_count (w_reg w) tid)) (\<lambda>n.
     if max_connections_per_tenant (dp_cfg D) \<le> n
     then reject D ws RATE_LIMITED ''tenant connection limit reached'' (Some 4429)
     else bindE (open_session D tid requested session_uuid) (establish D ws conn_hex tid user))"

text \<open>The first frame, or \<open>None\<close> when the client sends none in time; and the context of its token, or
  \<open>None\<close> after it was rejected.\<close>

definition first_frame :: "('r, 'w) deps \<Rightarrow> nat \<Rightarrow> (('r, 'w) world, (string \<times> json) list option) io" where
  "first_frame D ws =
     catchE (bindE (receive_object D ws) (\<lambda>raw. returnE (Some raw)))
       (\<lambda>e. if e = AsyncTimeout \<or> e = WebSocketDisconnect then returnE None else raiseE e)"

definition authenticate_connect ::
  "('r, 'w) deps \<Rightarrow> exn + database \<Rightarrow> nat \<Rightarrow> (string \<times> json) list \<Rightarrow> (('r, 'w) world, auth_context option) io" where
  "authenticate_connect D db ws raw =
     catchE
       (bindE (authenticate_json D db (case jget raw ''token'' of None \<Rightarrow> JStr [] | Some v \<Rightarrow> v)) (\<lambda>a. returnE (Some a)))
       (\<lambda>e. case e of
          AuthenticationError m \<Rightarrow> reject D ws AUTH_FAILED m (Some 4401)
        | _ \<Rightarrow> raiseE e)"

definition handshake ::
  "('r, 'w) deps \<Rightarrow> exn + database \<Rightarrow> nat \<Rightarrow> string \<Rightarrow> string \<Rightarrow> (('r, 'w) world, string option) io" where
  "handshake D db ws session_uuid conn_hex =
     bindE (first_frame D ws) (\<lambda>r.
       case r of
         None \<Rightarrow> returnE None
       | Some raw \<Rightarrow>
           if raw_get raw ''type'' \<noteq> JStr (frame_type_value CONNECT)
           then reject D ws INVALID_FRAME ''expected CONNECT frame first'' None
           else
             bindE (authenticate_connect D db ws raw) (\<lambda>a.
               case a of
                 None \<Rightarrow> returnE None
               | Some auth \<Rightarrow>
                   admit D ws session_uuid conn_hex (ac_tenant_id auth)
                     (raw_get raw ''session_id'') (raw_get raw ''user_id'')))"

section \<open>Frames\<close>

definition on_pong :: "('r, 'w) deps \<Rightarrow> nat \<Rightarrow> string \<Rightarrow> (('r, 'w) world, unit) io" where
  "on_pong D ws tid =
     bindE (time_now (dp_redis D)) (\<lambda>now.
     thenE (update_conn ws (\<lambda>c. c\<lparr>last_pong_at := now\<rparr>))
    (bindE (the_conn ws) (\<lambda>c.
     thenE (redisE (touch_session (dp_redis D) (dp_float D) (dp_cfg D) (session_id c) (node_id (dp_cfg D))))
           (case user_id c of
              None \<Rightarrow> returnE ()
            | Some u \<Rightarrow> redisE (refresh (dp_redis D) (dp_cfg D) tid u)))))"

definition on_presence ::
  "('r, 'w) deps \<Rightarrow> nat \<Rightarrow> string \<Rightarrow> (string \<times> json) list \<Rightarrow> (('r, 'w) world, unit) io" where
  "on_presence D ws tid raw =
     bindE (the_conn ws) (\<lambda>c.
       case user_id c of
         None \<Rightarrow> returnE ()
       | Some u \<Rightarrow>
           redisE (set_state (dp_redis D) (dp_cfg D) tid u
             (if raw_get raw ''state'' = JStr ''IDLE'' then IDLE else ONLINE)))"

text \<open>\<open>registry.subscribe\<close> and \<open>sub_mgr.on_local_subscribe\<close>, in this order.\<close>

definition join_channel :: "('r, 'w) deps \<Rightarrow> nat \<Rightarrow> string \<Rightarrow> (('r, 'w) world, unit) io" where
  "join_channel D ws channel =
     bindE (the_conn ws) (\<lambda>c.
     thenE (regE (registry_subscribe (connection_id c) channel))
           (on_local_subscribe (dp_redis D) (dp_cfg D) channel))"

definition on_subscribe ::
  "('r, 'w) deps \<Rightarrow> nat \<Rightarrow> string \<Rightarrow> (string \<times> json) list \<Rightarrow> (('r, 'w) world, unit) io" where
  "on_subscribe D ws tid raw =
     (case parse_subscribe (dp_pydantic D) raw of
        Inl e \<Rightarrow> send_error D ws INVALID_CHANNEL (dp_exn_str D e)
      | Inr (SubscribeFrame channel) \<Rightarrow>
          if \<not> channel_belongs_to_tenant channel tid then send_error D ws CHANNEL_FORBIDDEN channel
          else
            thenE (join_channel D ws channel)
                  (send_frame (dp_ws D) (dp_pydantic D) ws (SubscribedFrame channel))
      | Inr _ \<Rightarrow> returnE ())"

definition on_unsubscribe ::
  "('r, 'w) deps \<Rightarrow> nat \<Rightarrow> (string \<times> json) list \<Rightarrow> (('r, 'w) world, unit) io" where
  "on_unsubscribe D ws raw =
     (case parse_unsubscribe (dp_pydantic D) raw of
        Inl e \<Rightarrow> raiseE e
      | Inr (UnsubscribeFrame channel) \<Rightarrow>
          bindE (the_conn ws) (\<lambda>c.
          thenE (regE (registry_unsubscribe (connection_id c) channel))
         (thenE (on_local_unsubscribe (dp_redis D) channel)
                (send_frame (dp_ws D) (dp_pydantic D) ws (UnsubscribedFrame channel))))
      | Inr _ \<Rightarrow> returnE ())"

definition on_ack_frame ::
  "('r, 'w) deps \<Rightarrow> nat \<Rightarrow> (string \<times> json) list \<Rightarrow> (('r, 'w) world, unit) io" where
  "on_ack_frame D ws raw =
     (case parse_ack (dp_pydantic D) raw of
        Inl e \<Rightarrow> raiseE e
      | Inr (AckFrame channel sequence) \<Rightarrow>
          bindE (the_conn ws) (\<lambda>c.
          thenE (redisE (record_ack (dp_redis D) (dp_cfg D) (session_id c) channel sequence))
         (bindE (connE ws (\<lambda>c. case on_ack (dp_cfg D) channel sequence c of (n, c') \<Rightarrow> (Inr n, c')))
            (metric_add ''relay_messages_acked_total'')))
      | Inr _ \<Rightarrow> returnE ())"

text \<open>The messages of one channel of a RESUME: \<open>MessageFrame\<close> rejects a payload that is not an object.\<close>

definition replay_frame :: "('r, 'w) deps \<Rightarrow> string \<Rightarrow> buffered_message \<Rightarrow> exn + string" where
  "replay_frame D channel m =
     (case bm_payload m of
        JObj _ \<Rightarrow>
          Inr (envelope (dp_pydantic D) (dp_strftime D) (bm_id m) channel (bm_sequence m) (bm_payload m) (bm_created m))
      | _ \<Rightarrow> Inl (ValidationError ''payload''))"

definition queue_replayed ::
  "('r, 'w) deps \<Rightarrow> nat \<Rightarrow> string \<Rightarrow> buffered_message \<Rightarrow> (('r, 'w) world, unit) io" where
  "queue_replayed D ws channel m =
     (case replay_frame D channel m of
        Inl e \<Rightarrow> raiseE e
      | Inr text \<Rightarrow> connE ws (enqueue (dp_cfg D) text NORMAL (Some channel) (Some (bm_sequence m))))"

fun resume_channels ::
  "('r, 'w) deps \<Rightarrow> nat \<Rightarrow> string \<Rightarrow> (string \<times> int) list \<Rightarrow> (string \<times> int) list \<Rightarrow> string list \<Rightarrow>
     (('r, 'w) world, (string \<times> int) list \<times> string list) io" where
  "resume_channels D ws tid [] replayed gaps = returnE (replayed, gaps)"
| "resume_channels D ws tid ((channel, last_ack) # acks) replayed gaps =
     (if \<not> channel_belongs_to_tenant channel tid then resume_channels D ws tid acks replayed gaps
      else
        bindE (redisE (replay_channel (dp_redis D) (dp_float D) channel last_ack)) (\<lambda>result.
          if rr_gap result then
            thenE (send_error D ws RESUME_GAP channel)
                  (resume_channels D ws tid acks replayed (gaps @ [channel]))
          else
            thenE (forE (rr_messages result) (queue_replayed D ws channel))
           (thenE (join_channel D ws channel)
                  (resume_channels D ws tid acks
                     (AList.update channel (int (length (rr_messages result))) replayed) gaps))))"

definition on_resume ::
  "('r, 'w) deps \<Rightarrow> nat \<Rightarrow> string \<Rightarrow> (string \<times> json) list \<Rightarrow> (('r, 'w) world, unit) io" where
  "on_resume D ws tid raw =
     (case parse_resume (dp_pydantic D) raw of
        Inl e \<Rightarrow> raiseE e
      | Inr (ResumeFrame _ acks) \<Rightarrow>
          bindE (resume_channels D ws tid acks [] []) (\<lambda>(replayed, gaps).
          bindE (the_conn ws) (\<lambda>c.
            send_frame (dp_ws D) (dp_pydantic D) ws (ResumedFrame (session_id c) replayed gaps)))
      | Inr _ \<Rightarrow> returnE ())"

text \<open>One round of the frame loop for a frame that was received; the result says whether to go on.\<close>

definition handle_frame ::
  "('r, 'w) deps \<Rightarrow> nat \<Rightarrow> string \<Rightarrow> (string \<times> json) list \<Rightarrow> (('r, 'w) world, bool) io" where
  "handle_frame D ws tid raw =
     (let frame_type = raw_get raw ''type''; go_on = (\<lambda>m. thenE m (returnE True))
      in if frame_type = JStr (frame_type_value PONG) then go_on (on_pong D ws tid)
         else if frame_type = JStr ''PRESENCE'' then go_on (on_presence D ws tid raw)
         else if frame_type = JStr (frame_type_value SUBSCRIBE) then go_on (on_subscribe D ws tid raw)
         else if frame_type = JStr (frame_type_value UNSUBSCRIBE) then go_on (on_unsubscribe D ws raw)
         else if frame_type = JStr (frame_type_value ACK) then go_on (on_ack_frame D ws raw)
         else if frame_type = JStr (frame_type_value RESUME) then go_on (on_resume D ws tid raw)
         else if frame_type = JStr (frame_type_value DISCONNECT) then returnE False
         else go_on (send_error D ws UNKNOWN_MESSAGE (text_of D frame_type)))"

text \<open>\<open>_frame_loop\<close>; \<open>None\<close> when the fuel ends while the connection is still open.\<close>

fun frame_loop ::
  "('r, 'w) deps \<Rightarrow> nat \<Rightarrow> nat \<Rightarrow> string \<Rightarrow> (('r, 'w) world, unit option) io" where
  "frame_loop D 0 ws tid = returnE None"
| "frame_loop D (Suc n) ws tid =
     bindE (the_conn ws) (\<lambda>c.
       if conn_state c \<noteq> ACTIVE then returnE (Some ())
       else
         bindE (receive_object D ws) (\<lambda>raw.
         bindE (handle_frame D ws tid raw) (\<lambda>more.
           if more then frame_loop D n ws tid else returnE (Some ()))))"

section \<open>The end of a connection\<close>

definition on_dead_connection :: "('r, 'w) deps \<Rightarrow> nat \<Rightarrow> string \<Rightarrow> (('r, 'w) world, unit) io" where
  "on_dead_connection D ws reason =
     thenE (update_conn ws (\<lambda>c. c\<lparr>conn_state := DEAD\<rparr>))
           (suppressE (close_ws (dp_ws D) ws (Some (if reason = ''HEARTBEAT_TIMEOUT'' then 4408 else 4409))))"

definition cleanup_connection :: "('r, 'w) deps \<Rightarrow> nat \<Rightarrow> (('r, 'w) world, unit) io" where
  "cleanup_connection D ws =
     thenE (update_conn ws (\<lambda>c. c\<lparr>conn_state := DEAD\<rparr>))
    (thenE (modifyE (\<lambda>w. w\<lparr>w_tasks := removeAll ws (w_tasks w)\<rparr>))
    (bindE (the_conn ws) (\<lambda>c.
     thenE (forE (subscriptions c) (on_local_unsubscribe (dp_redis D)))
    (thenE (case user_id c of
              None \<Rightarrow> returnE ()
            | Some u \<Rightarrow>
                thenE (redisE (connection_offline (dp_redis D) (tenant_id c) u (connection_id c))) (returnE ()))
    (thenE (regE (\<lambda>s. snd (registry_remove (connection_id c) s)))
           (suppressE (close_ws (dp_ws D) ws None)))))))"

text \<open>\<open>try: _frame_loop except WebSocketDisconnect: pass finally: _cleanup_connection\<close>.\<close>

definition run_connection ::
  "('r, 'w) deps \<Rightarrow> nat \<Rightarrow> nat \<Rightarrow> string \<Rightarrow> (('r, 'w) world, unit option) io" where
  "run_connection D fuel ws tid w =
     (case frame_loop D fuel ws tid w of
        (Inr None, w1) \<Rightarrow> (Inr None, w1)
      | (x, w1) \<Rightarrow>
          (case cleanup_connection D ws w1 of
             (Inl e, w2) \<Rightarrow> (Inl e, w2)
           | (Inr _, w2) \<Rightarrow> (case x of Inl e \<Rightarrow> if e = WebSocketDisconnect then (Inr (Some ()), w2) else (Inl e, w2)
                                      | Inr _ \<Rightarrow> (Inr (Some ()), w2))))"

definition handle_connection ::
  "('r, 'w) deps \<Rightarrow> exn + database \<Rightarrow> nat \<Rightarrow> nat \<Rightarrow> string \<Rightarrow> string \<Rightarrow> (('r, 'w) world, unit option) io" where
  "handle_connection D db fuel ws session_uuid conn_hex =
     thenE (wsE (dp_ws D) ws WsAccept)
    (bindE (handshake D db ws session_uuid conn_hex) (\<lambda>r.
       case r of None \<Rightarrow> returnE (Some ()) | Some tid \<Rightarrow> run_connection D fuel ws tid))"

section \<open>Computations that keep an invariant\<close>

definition preserves :: "('s \<Rightarrow> bool) \<Rightarrow> ('s, 'a) io \<Rightarrow> bool" where
  "preserves I m = (\<forall>s. I s \<longrightarrow> I (snd (m s)))"

named_theorems pres
  "computations that keep an invariant"

lemma preservesD: "preserves I m \<Longrightarrow> I s \<Longrightarrow> m s = (x, s') \<Longrightarrow> I s'"
  by (auto simp: preserves_def)

lemma pres_bindE [pres]: "preserves I m \<Longrightarrow> (\<And>a. preserves I (f a)) \<Longrightarrow> preserves I (bindE m f)"
  by (fastforce simp: preserves_def bindE_def split: prod.split sum.split)

lemma pres_thenE [pres]: "preserves I m \<Longrightarrow> preserves I m' \<Longrightarrow> preserves I (thenE m m')"
  by (simp add: thenE_def pres_bindE)

lemma pres_catchE [pres]: "preserves I m \<Longrightarrow> (\<And>e. preserves I (h e)) \<Longrightarrow> preserves I (catchE m h)"
  by (fastforce simp: preserves_def catchE_def split: prod.split sum.split)

lemma pres_suppressE [pres]: "preserves I m \<Longrightarrow> preserves I (suppressE m)"
  unfolding suppressE_def by (rule pres_catchE) (simp_all add: preserves_def)

lemma pres_basic [pres]:
  "preserves I (returnE a)" "preserves I (raiseE e)" "preserves I (getE f)" "preserves I (Pair x)"
  by (simp_all add: preserves_def)

lemma pres_forE [pres]: "(\<And>x. x \<in> set xs \<Longrightarrow> preserves I (f x)) \<Longrightarrow> preserves I (forE xs f)"
  by (induction xs) (auto intro!: pres)

section \<open>The invariant of the gateway\<close>

text \<open>The registry is consistent, ids of connections are unique, and every registered connection subscribes
  to channels of its own tenant only.\<close>

definition gw_inv :: "reg_state \<Rightarrow> bool" where
  "gw_inv s =
     (reg_inv s \<and>
      (\<forall>r r' c c'. fst s r = Some c \<longrightarrow> fst s r' = Some c' \<longrightarrow> connection_id c = connection_id c' \<longrightarrow> r = r') \<and>
      (\<forall>cid a t C ch. reg_view s cid = Some (a, t, C) \<longrightarrow> ch \<in> C \<longrightarrow> channel_belongs_to_tenant ch t))"

definition reg_of :: "('r, 'w) world \<Rightarrow> reg_state" where
  "reg_of w = (w_heap w, w_reg w)"

text \<open>A connection of the tenant lives at the address.\<close>

definition owned :: "nat \<Rightarrow> string \<Rightarrow> ('r, 'w) world \<Rightarrow> bool" where
  "owned ws tid w = (gw_inv (reg_of w) \<and> (\<exists>c. w_heap w ws = Some c \<and> tenant_id c = tid))"

lemma owned_cong: "w_heap w' = w_heap w \<Longrightarrow> w_reg w' = w_reg w \<Longrightarrow> owned ws tid w' = owned ws tid w"
  by (simp add: owned_def reg_of_def)

text \<open>Computations that change neither the connections nor the registry.\<close>

definition off_registry :: "(('r, 'w) world, 'a) io \<Rightarrow> bool" where
  "off_registry m = (\<forall>w. w_heap (snd (m w)) = w_heap w \<and> w_reg (snd (m w)) = w_reg w)"

lemma pres_off: "off_registry m \<Longrightarrow> preserves (owned ws tid) m"
  unfolding off_registry_def preserves_def using owned_cong by blast

lemma off_redisE: "off_registry (redisE m)"
  by (simp add: off_registry_def)

lemma off_wsE: "off_registry (wsE W ws call)"
  by (simp add: off_registry_def wsE_def split: prod.split)

lemma off_subsE: "off_registry (subsE f)"
  by (simp add: off_registry_def subsE_def)

lemma off_metrics: "off_registry (metric_add n k)" "off_registry (metric_set n k)"
  by (simp_all add: off_registry_def metric_add_def metric_set_def)

lemma off_time: "off_registry (time_now X)"
  by (simp add: off_registry_def time_now_def)

lemma off_tasks: "off_registry (modifyE (\<lambda>w. w\<lparr>w_tasks := f w\<rparr>))"
  by (simp add: off_registry_def)

lemma off_subscribe: "off_registry (on_local_subscribe X cfg ch)"
  unfolding off_registry_def
proof
  fix w :: "('a, 'b) world"
  show "w_heap (snd (on_local_subscribe X cfg ch w)) = w_heap w \<and> w_reg (snd (on_local_subscribe X cfg ch w)) = w_reg w"
    using on_local_subscribe_subs [of X cfg ch w] by (cases "on_local_subscribe X cfg ch w") simp
qed

lemma off_unsubscribe: "off_registry (on_local_unsubscribe X ch)"
  unfolding off_registry_def
proof
  fix w :: "('a, 'b) world"
  show "w_heap (snd (on_local_unsubscribe X ch w)) = w_heap w \<and> w_reg (snd (on_local_unsubscribe X ch w)) = w_reg w"
    using on_local_unsubscribe_subs [of X ch w] by (cases "on_local_unsubscribe X ch w") simp
qed

lemma pres_owned [pres]:
  "preserves (owned ws tid) (redisE m)" "preserves (owned ws tid) (wsE W v call)"
  "preserves (owned ws tid) (subsE f)" "preserves (owned ws tid) (metric_add n k)" "preserves (owned ws tid) (metric_set n k)"
  "preserves (owned ws tid) (time_now X)" "preserves (owned ws tid) (modifyE (\<lambda>w. w\<lparr>w_tasks := g w\<rparr>))"
  "preserves (owned ws tid) (on_local_subscribe X cfg ch)" "preserves (owned ws tid) (on_local_unsubscribe X ch)"
  by (simp_all add: pres_off off_redisE off_wsE off_subsE off_metrics off_time off_tasks off_subscribe off_unsubscribe)

lemma pres_sends [pres]:
  "preserves (owned ws tid) (send_frame W P v f)" "preserves (owned ws tid) (close_ws W v code)"
  "preserves (owned ws tid) (send_error D v ec msg)"
  by (simp_all add: send_frame_def close_ws_def send_error_def pres)

lemma gw_inv_heap_update:
  assumes "gw_inv (h, R)" and "h r = Some c" and "same_index c c'"
  shows "gw_inv (h(r \<mapsto> c'), R)"
proof -
  have "reg_inv (h, R)" using assms(1) by (simp add: gw_inv_def)
  from reg_inv_heap_update [OF this assms(2,3)] assms show ?thesis
    by (auto simp: gw_inv_def same_index_def split: if_splits)
qed

lemma pres_connE:
  assumes "\<And>c. same_index c (snd (m c))"
  shows "preserves (owned ws tid) (connE v m :: (('r, 'w) world, 'a) io)"
  unfolding preserves_def
proof (intro allI impI)
  fix w :: "('r, 'w) world"
  assume o: "owned ws tid w"
  show "owned ws tid (snd (connE v m w))"
  proof (cases "w_heap w v")
    case (Some c)
    have "gw_inv ((w_heap w)(v \<mapsto> snd (m c)), w_reg w)"
      using gw_inv_heap_update [of "w_heap w" "w_reg w" v c "snd (m c)"] Some assms o
      by (simp add: owned_def reg_of_def)
    moreover have "\<exists>c'. ((w_heap w)(v \<mapsto> snd (m c))) ws = Some c' \<and> tenant_id c' = tid"
      using o Some assms [of c] by (auto simp: owned_def same_index_def info_def)
    ultimately show ?thesis using Some by (simp add: connE_def owned_def reg_of_def case_prod_beta)
  qed (use o in \<open>simp add: connE_def\<close>)
qed

lemma pres_conns [pres]:
  "preserves (owned ws tid) (the_conn v)"
  "preserves (owned ws tid) (update_conn v (\<lambda>c. c\<lparr>conn_state := st\<rparr>))"
  "preserves (owned ws tid) (update_conn v (\<lambda>c. c\<lparr>last_pong_at := t\<rparr>))"
  "preserves (owned ws tid) (connE v (enqueue cfg p prio chn sq))"
  "preserves (owned ws tid) (connE v (\<lambda>c. case on_ack cfg ch n c of (k, c') \<Rightarrow> (Inr k, c')))"
  by (simp_all add: the_conn_def update_conn_def pres_connE same_index_def info_def enqueue_def Let_def on_ack_def)

text \<open>Subscribing keeps the invariant when the channel is of the tenant; unsubscribing and removing always do.\<close>

lemma reg_view_owner:
  assumes "gw_inv (h, R)" and "h ws = Some c" and "reg_view (h, R) (connection_id c) = Some (a, t, C)"
  shows "t = tenant_id c"
proof -
  from assms(3) obtain c' where c': "conn_of (h, R) (connection_id c) = Some c'" "t = tenant_id c'"
    by (auto simp: reg_view_def info_def)
  then obtain r where r: "map_of (by_id R) (connection_id c) = Some r" "h r = Some c'"
    by (auto simp: conn_of_def split: Option.bind_splits)
  then have "connection_id c' = connection_id c"
    using assms(1) conn_of_ref [of h R] by (fastforce simp: gw_inv_def)
  then have "r = ws" using assms(1,2) r(2) unfolding gw_inv_def by (metis fst_conv)
  with r c' assms(2) show ?thesis by simp
qed

definition ids_of :: "reg_state \<Rightarrow> nat \<Rightarrow> (string \<times> string) option" where
  "ids_of s r = map_option (\<lambda>c. (connection_id c, tenant_id c)) (fst s r)"

lemma ids_of_reg [simp]:
  "ids_of (registry_subscribe cid ch s) = ids_of s" "ids_of (registry_unsubscribe cid ch s) = ids_of s"
  "ids_of (snd (registry_remove cid s)) = ids_of s" "ids_of (registry_add r s) = ids_of s"
  by (cases s; auto simp: ids_of_def registry_subscribe_def registry_unsubscribe_def registry_remove_def
      registry_add_def fun_eq_iff option.map_comp comp_def split: option.split)+

lemma ids_unique_iff:
  "(\<forall>r r' c c'. fst s r = Some c \<longrightarrow> fst s r' = Some c' \<longrightarrow> connection_id c = connection_id c' \<longrightarrow> r = r') \<longleftrightarrow>
     (\<forall>r r' x y y'. ids_of s r = Some (x, y) \<longrightarrow> ids_of s r' = Some (x, y') \<longrightarrow> r = r')"
  unfolding ids_of_def by (auto simp: map_option_eq_Some)

lemma gw_inv_ids:
  "gw_inv s \<longleftrightarrow> reg_inv s \<and>
     (\<forall>r r' x y y'. ids_of s r = Some (x, y) \<longrightarrow> ids_of s r' = Some (x, y') \<longrightarrow> r = r') \<and>
     (\<forall>cid a t C ch. reg_view s cid = Some (a, t, C) \<longrightarrow> ch \<in> C \<longrightarrow> channel_belongs_to_tenant ch t)"
  unfolding gw_inv_def ids_unique_iff ..

lemma gw_inv_unsubscribe: "gw_inv s \<Longrightarrow> gw_inv (registry_unsubscribe cid ch s)"
  unfolding gw_inv_ids by (auto simp: reg_inv_unsubscribe reg.view_unsub split: if_splits)

lemma gw_inv_remove: "gw_inv s \<Longrightarrow> gw_inv (snd (registry_remove cid s))"
  unfolding gw_inv_ids by (auto simp: reg_inv_remove reg.view_rem split: if_splits)

lemma gw_inv_subscribe:
  assumes "gw_inv (h, R)" and "h ws = Some c" and "channel_belongs_to_tenant ch (tenant_id c)"
  shows "gw_inv (registry_subscribe (connection_id c) ch (h, R))"
  using assms reg_view_owner [OF assms(1,2)] unfolding gw_inv_ids
  by (auto simp: reg_inv_subscribe reg.view_sub split: if_splits)

lemma owned_ids: "owned ws tid w \<longleftrightarrow> gw_inv (reg_of w) \<and> (\<exists>x. ids_of (reg_of w) ws = Some (x, tid))"
  by (auto simp: owned_def reg_of_def ids_of_def)

lemma reg_of_regE: "reg_of (snd (regE f w)) = f (reg_of w)"
  by (simp add: regE_def reg_of_def split: prod.split)

lemma pres_reg_unsubscribe [pres]: "preserves (owned ws tid) (regE (registry_unsubscribe cid ch))"
  by (simp add: preserves_def owned_ids reg_of_regE gw_inv_unsubscribe)

lemma pres_reg_remove [pres]: "preserves (owned ws tid) (regE (\<lambda>s. snd (registry_remove cid s)))"
  by (simp add: preserves_def owned_ids reg_of_regE gw_inv_remove)

lemma pres_join [pres]:
  assumes "channel_belongs_to_tenant ch tid"
  shows "preserves (owned ws tid) (join_channel D ws ch)"
proof -
  have "owned ws tid (snd (join_channel D ws ch w))" if o: "owned ws tid w" for w
  proof -
    from o obtain c where c: "w_heap w ws = Some c" "tenant_id c = tid" by (auto simp: owned_def)
    let ?w = "snd (regE (registry_subscribe (connection_id c) ch) w)"
    have "gw_inv (reg_of ?w)"
      unfolding reg_of_regE using gw_inv_subscribe [of "w_heap w" "w_reg w" ws c ch] c o assms
      by (simp add: owned_def reg_of_def)
    then have "owned ws tid ?w" using o by (simp add: owned_ids reg_of_regE)
    moreover have "regE f v = (Inr (), snd (regE f v))" for f and v :: "('a, 'b) world"
      by (simp add: regE_def split: prod.split)
    then have "join_channel D ws ch w = on_local_subscribe (dp_redis D) (dp_cfg D) ch ?w"
      using c by (simp add: join_channel_def the_conn_def connE_def bindE_def thenE_def fun_upd_idem)
        (metis (no_types, lifting) old.prod.case sum.simps(6))
    ultimately show ?thesis using pres_owned(8) by (metis preserves_def)
  qed
  then show ?thesis by (simp add: preserves_def)
qed

lemma pres_resume_channels [pres]: "preserves (owned ws tid) (resume_channels D ws tid acks rep gaps)"
proof (induction acks arbitrary: rep gaps)
  case (Cons a acks)
  obtain ch n where a: "a = (ch, n)" by (cases a)
  show ?case
    unfolding a resume_channels.simps queue_replayed_def
    by (auto intro!: pres Cons.IH split: sum.split)
qed (simp add: pres)

lemma pres_frames [pres]:
  "preserves (owned ws tid) (on_pong D ws tid)" "preserves (owned ws tid) (on_presence D ws tid raw)"
  "preserves (owned ws tid) (on_subscribe D ws tid raw)" "preserves (owned ws tid) (on_unsubscribe D ws raw)"
  "preserves (owned ws tid) (on_ack_frame D ws raw)" "preserves (owned ws tid) (on_resume D ws tid raw)"
  unfolding on_pong_def on_presence_def on_subscribe_def on_unsubscribe_def on_ack_frame_def on_resume_def
  by (auto intro!: pres split: sum.split frame.split option.split prod.split)

lemma pres_handle_frame [pres]: "preserves (owned ws tid) (handle_frame D ws tid raw)"
  unfolding handle_frame_def Let_def by (auto intro!: pres)

lemma pres_cleanup [pres]: "preserves (owned ws tid) (cleanup_connection D v)"
  unfolding cleanup_connection_def by (auto intro!: pres split: option.split)

lemma pres_on_dead [pres]: "preserves (owned ws tid) (on_dead_connection D v reason)"
  unfolding on_dead_connection_def by (auto intro!: pres)

lemma pres_slow [pres]: "preserves (owned ws tid) (terminate_slow_consumer W P v)"
  unfolding terminate_slow_consumer_def by (auto intro!: pres)

lemma pres_receive [pres]: "preserves (owned ws tid) (receive_object D v)"
  unfolding receive_object_def by (auto intro!: pres split: ws_reply.split json.split)

lemma pres_frame_loop [pres]: "preserves (owned ws tid) (frame_loop D n ws tid)"
  by (induction n) (auto intro!: pres)

end
