(* ===== verification/Isolation.thy ===== *)
theory Isolation
  imports Handler
begin

text \<open>
  What the handler guarantees to the rest of the system.  \<open>handshake_effect\<close> describes every outcome of a
  handshake; \<open>gw_task\<close> interleaves frames, fanout, the end of connections, the tasks of a connection and
  everything outside the registry, with any outcome of Redis and the sockets, and \<open>gw_step\<close> adds
  handshakes that nobody interrupts (\<open>Admission\<close> interleaves them at their awaits too).  The invariant of
  the gateway holds in every reachable state, and the properties are what admission requires and what
  cleanup releases.
\<close>

section \<open>Every outcome of a handshake\<close>

text \<open>Computations that touch only Redis, the sockets and the counters.\<close>

definition outside :: "('r, 'w) world \<Rightarrow> ('r, 'w) world \<Rightarrow> bool" where
  "outside w w' \<longleftrightarrow>
     w_heap w' = w_heap w \<and> w_reg w' = w_reg w \<and> w_subs w' = w_subs w \<and> w_tasks w' = w_tasks w"

definition quiet :: "(('r, 'w) world, 'a) io \<Rightarrow> bool" where
  "quiet m = (\<forall>w. outside w (snd (m w)))"

named_theorems quiets
  "computations that touch only Redis, the sockets and the counters"

lemma outside_refl [simp]: "outside w w"
  by (simp add: outside_def)

lemma outside_trans: "outside w w' \<Longrightarrow> outside w' w'' \<Longrightarrow> outside w w''"
  by (simp add: outside_def)

lemma quietD: "quiet m \<Longrightarrow> m w = (x, w') \<Longrightarrow> outside w w'"
  by (metis quiet_def snd_conv)

lemma quiet_bindE [quiets]: "quiet m \<Longrightarrow> (\<And>a. quiet (f a)) \<Longrightarrow> quiet (bindE m f)"
  by (fastforce simp: quiet_def bindE_def split: prod.split sum.split intro: outside_trans)

lemma quiet_thenE [quiets]: "quiet m \<Longrightarrow> quiet m' \<Longrightarrow> quiet (thenE m m')"
  by (simp add: thenE_def quiet_bindE)

lemma quiet_catchE [quiets]: "quiet m \<Longrightarrow> (\<And>e. quiet (h e)) \<Longrightarrow> quiet (catchE m h)"
  by (fastforce simp: quiet_def catchE_def split: prod.split sum.split intro: outside_trans)

lemma quiet_basic [quiets]:
  "quiet (returnE a)" "quiet (raiseE e)" "quiet (getE f)" "quiet (Pair x)"
  by (simp_all add: quiet_def)

lemma quiet_redisE [quiets]: "quiet (redisE m)"
  by (simp add: quiet_def outside_def redisE_run)

lemma quiet_wsE [quiets]: "quiet (wsE W ws call)"
  by (simp add: quiet_def outside_def wsE_def case_prod_beta)

lemma quiet_time [quiets]: "quiet (time_now X)"
  by (simp add: quiet_def time_now_def)

lemma quiet_sends [quiets]:
  "quiet (send_frame W P ws f)" "quiet (close_ws W ws code)" "quiet (send_error D ws ec msg)" "quiet (reject D ws ec msg code)"
  by (simp_all add: send_frame_def close_ws_def send_error_def reject_def quiets)

lemma quiet_receive [quiets]: "quiet (receive_object D ws)"
  unfolding receive_object_def by (auto intro!: quiets split: ws_reply.split json.split)

lemma quiet_authenticate [quiets]: "quiet (authenticate_json D db token)"
  unfolding authenticate_json_def by (auto intro!: quiets split: json.split sum.split)

lemma quiet_session_calls [quiets]: "quiet (resumable_session D tid req)" "quiet (start_session D tid u sid)"
  unfolding resumable_session_def start_session_def by (auto intro!: quiets split: option.split)

lemma quiet_open_session [quiets]: "quiet (open_session D tid req u)"
  unfolding open_session_def by (intro quiets)

lemma quiet_announce [quiets]: "quiet (announce_online D tid cid uid)"
  unfolding announce_online_def by (auto intro!: quiets split: option.split)

lemma quiet_connected [quiets]: "quiet (connected_frame D ws cid sid)"
  unfolding connected_frame_def by (auto intro!: quiets split: option.split)

lemma reject_never_Some: "reject D ws ec msg code w \<noteq> (Inr (Some t), w')"
  by (auto simp: reject_def thenE_run_Inr_iff)

text \<open>The registry after the connection \<open>c\<close> with user \<open>u\<close> is registered at \<open>ws\<close>.\<close>

definition registered :: "nat \<Rightarrow> connection \<Rightarrow> string option \<Rightarrow> reg_state \<Rightarrow> reg_state" where
  "registered ws c u = (\<lambda>(h, R). (h(ws \<mapsto> c\<lparr>user_id := u\<rparr>), snd (registry_add ws (h(ws \<mapsto> c), R))))"

lemma register_connection_run:
  obtains w' where "register_connection ws c u w = (Inr (), w')" "reg_of w' = registered ws c u (reg_of w)"
    "w_subs w' = w_subs w" "w_tasks w' = w_tasks w"
proof -
  let ?w = "w\<lparr>w_heap := (w_heap w)(ws \<mapsto> c\<lparr>user_id := u\<rparr>), w_reg := snd (registry_add ws ((w_heap w)(ws \<mapsto> c), w_reg w))\<rparr>"
  have "register_connection ws c u w = (Inr (), ?w)"
    by (simp add: register_connection_def thenE_def bindE_def regE_def registry_add_def update_conn_def connE_def)
  then show thesis by (rule that) (simp_all add: registered_def reg_of_def)
qed

lemma admit_tail:
  assumes "quiet m"
    and "thenE m (thenE (start_tasks ws) (thenE (connected_frame D ws cid sid) (returnE (Some tid)))) w = (x, w')"
  shows "reg_of w' = reg_of w \<and> w_subs w' = w_subs w \<and> x \<noteq> Inr None \<and>
    (\<forall>t. x = Inr (Some t) \<longrightarrow> t = tid \<and> w_tasks w' = w_tasks w @ [ws])"
proof -
  have q: "quiet (thenE (connected_frame D ws cid sid) (returnE (Some tid)))" by (auto intro!: quiets)
  obtain y w1 where m: "m w = (y, w1)" by fastforce
  have o1: "outside w w1" using quietD [OF assms(1) m] .
  show ?thesis
  proof (cases y)
    case (Inl e)
    with m assms(2) o1 show ?thesis by (auto simp: thenE_def bindE_def outside_def reg_of_def)
  next
    case (Inr u)
    let ?w1 = "w1\<lparr>w_tasks := w_tasks w1 @ [ws]\<rparr>"
    have run: "thenE (connected_frame D ws cid sid) (returnE (Some tid)) ?w1 = (x, w')"
      using assms(2) m Inr by (simp add: thenE_def bindE_def start_tasks_def)
    from quietD [OF q run] have "outside ?w1 w'" .
    moreover have "x \<noteq> Inr None" "\<forall>t. x = Inr (Some t) \<longrightarrow> t = tid"
      using run by (auto simp: thenE_def bindE_def split: prod.splits sum.splits)
    ultimately show ?thesis using o1 by (simp add: outside_def reg_of_def)
  qed
qed

definition admitted :: "('r, 'w) deps \<Rightarrow> nat \<Rightarrow> string \<Rightarrow> string \<Rightarrow> ('r, 'w) world \<Rightarrow> (exn + string option) \<Rightarrow> ('r, 'w) world \<Rightarrow> bool" where
  "admitted D ws conn_hex tid w x w' \<longleftrightarrow>
     tenant_connection_count (w_reg w) tid < max_connections_per_tenant (dp_cfg D) \<and>
     (\<exists>sid now u. reg_of w' = registered ws (new_connection (''conn-'' @ take 12 conn_hex) sid tid ACTIVE now) u (reg_of w)) \<and>
     w_subs w' = w_subs w \<and> x \<noteq> Inr None \<and>
     (\<forall>t. x = Inr (Some t) \<longrightarrow> t = tid \<and> w_tasks w' = w_tasks w @ [ws])"

lemma admit_effect:
  assumes "admit D ws us uc tid req user w = (x, w')"
  shows "outside w w' \<and> (\<forall>t. x \<noteq> Inr (Some t)) \<or> admitted D ws uc tid w x w'"
proof (cases "max_connections_per_tenant (dp_cfg D) \<le> tenant_connection_count (w_reg w) tid")
  case True
  then have r: "reject D ws RATE_LIMITED ''tenant connection limit reached'' (Some 4429) w = (x, w')"
    using assms by (simp add: admit_def bindE_def)
  from quietD [OF quiet_sends(4) r] reject_never_Some r show ?thesis by metis
next
  case False
  obtain y w1 where o: "open_session D tid req us w = (y, w1)" by fastforce
  have o1: "outside w w1" using quietD [OF quiet_open_session o] .
  show ?thesis
  proof (cases y)
    case (Inl e)
    with o assms False o1 show ?thesis by (auto simp: admit_def bindE_def)
  next
    case (Inr sid)
    let ?cid = "''conn-'' @ take 12 uc" and ?u = "if truthy user then Some (text_of D user) else None"
    let ?c = "new_connection ?cid (text_of D sid) tid ACTIVE (rclock (dp_redis D) (w_redis w1))"
    let ?m = "announce_online D tid ?cid ?u"
    obtain w2 where reg: "register_connection ws ?c ?u w1 = (Inr (), w2)" "reg_of w2 = registered ws ?c ?u (reg_of w1)"
      "w_subs w2 = w_subs w1" "w_tasks w2 = w_tasks w1" by (rule register_connection_run)
    have "thenE ?m (thenE (start_tasks ws) (thenE (connected_frame D ws ?cid sid) (returnE (Some tid)))) w2 = (x, w')"
      using assms o Inr False reg(1)
      by (simp add: admit_def establish_def bindE_def thenE_def [of "register_connection _ _ _"] Let_def time_now_def)
    moreover have "quiet ?m" by (rule quiets)
    ultimately have "reg_of w' = reg_of w2 \<and> w_subs w' = w_subs w2 \<and> x \<noteq> Inr None \<and>
        (\<forall>t. x = Inr (Some t) \<longrightarrow> t = tid \<and> w_tasks w' = w_tasks w2 @ [ws])" by (rule admit_tail [rotated])
    moreover have "reg_of w1 = reg_of w" "w_subs w1 = w_subs w" "w_tasks w1 = w_tasks w"
      using o1 by (simp_all add: outside_def reg_of_def)
    ultimately show ?thesis using reg(2-4) False unfolding admitted_def by fastforce
  qed
qed

lemma admitted_outside: "outside w w1 \<Longrightarrow> admitted D ws uc tid w1 x w' \<Longrightarrow> admitted D ws uc tid w x w'"
  by (simp add: admitted_def outside_def reg_of_def)

lemma authenticate_json_Inr:
  "authenticate_json D db token w = (Inr a, w') \<Longrightarrow>
     \<exists>d t. db = Inr d \<and> token = JStr t \<and> authenticate_token (dp_sha256 D) d t = Inr a"
  by (auto simp: authenticate_json_def split: if_splits json.splits sum.splits)

text \<open>A handshake that does not admit changes no connection, no index, no listener and no task; one that
  admits does so for the tenant of an active key.\<close>

lemma quiet_first [quiets]: "quiet (first_frame D ws)"
  unfolding first_frame_def by (auto intro!: quiets)

lemma quiet_authenticate_connect [quiets]: "quiet (authenticate_connect D db ws raw)"
  unfolding authenticate_connect_def by (auto intro!: quiets split: exn.split)

lemma authenticate_connect_Some:
  assumes "authenticate_connect D db ws raw w = (Inr (Some a), w')"
  obtains d t where "db = Inr d" "authenticate_token (dp_sha256 D) d t = Inr a"
proof (cases "authenticate_json D db (case jget raw ''token'' of None \<Rightarrow> JStr [] | Some v \<Rightarrow> v) w")
  case (Pair y w1)
  show thesis
  proof (cases y)
    case (Inl e)
    with assms Pair show thesis
      by (cases e) (auto simp: authenticate_connect_def catchE_def bindE_def reject_never_Some)
  next
    case (Inr b)
    with assms Pair have "b = a" by (simp add: authenticate_connect_def catchE_def bindE_def)
    with Inr Pair authenticate_json_Inr that show thesis by metis
  qed
qed

lemma bindE_cases:
  assumes "bindE m f w = (x, w')"
  obtains e where "m w = (Inl e, w')" "x = Inl e" | a w1 where "m w = (Inr a, w1)" "f a w1 = (x, w')"
  using assms by (auto simp: bindE_def split: prod.splits sum.splits)

lemma handshake_effect:
  assumes "handshake D db ws us uc w = (x, w')"
  shows "outside w w' \<and> (\<forall>t. x \<noteq> Inr (Some t)) \<or>
    (\<exists>d token a. db = Inr d \<and> authenticate_token (dp_sha256 D) d token = Inr a \<and>
       admitted D ws uc (ac_tenant_id a) w x w')"
  using assms unfolding handshake_def
proof (cases rule: bindE_cases)
  case (1 e)
  with quietD [OF quiet_first 1(1)] show ?thesis by simp
next
  case (2 r w1)
  note o1 = quietD [OF quiet_first 2(1)]
  show ?thesis
  proof (cases r)
    case None
    with 2 o1 show ?thesis by auto
  next
    case (Some raw)
    show ?thesis
    proof (cases "raw_get raw ''type'' = JStr (frame_type_value CONNECT)")
      case False
      with 2 Some have r: "reject D ws INVALID_FRAME ''expected CONNECT frame first'' None w1 = (x, w')" by simp
      from outside_trans [OF o1 quietD [OF quiet_sends(4) r]] reject_never_Some r show ?thesis by metis
    next
      case True
      with 2 Some have "bindE (authenticate_connect D db ws raw) (\<lambda>a. case a of None \<Rightarrow> returnE None
          | Some auth \<Rightarrow> admit D ws us uc (ac_tenant_id auth) (raw_get raw ''session_id'') (raw_get raw ''user_id'')) w1 = (x, w')"
        by simp
      then show ?thesis
      proof (cases rule: bindE_cases)
        case (1 e)
        with outside_trans [OF o1 quietD [OF quiet_authenticate_connect 1(1)]] show ?thesis by simp
      next
        case (2 a w2)
        note o2 = outside_trans [OF o1 quietD [OF quiet_authenticate_connect 2(1)]]
        show ?thesis
        proof (cases a)
          case None
          with 2 o2 show ?thesis by auto
        next
          case (Some auth)
          with 2 obtain d t where "db = Inr d" "authenticate_token (dp_sha256 D) d t = Inr auth"
            using authenticate_connect_Some by metis
          moreover from 2 Some have "admit D ws us uc (ac_tenant_id auth) (raw_get raw ''session_id'') (raw_get raw ''user_id'') w2 = (x, w')"
            by simp
          from admit_effect [OF this] have "outside w w' \<and> (\<forall>t. x \<noteq> Inr (Some t)) \<or> admitted D ws uc (ac_tenant_id auth) w x w'"
            using admitted_outside [OF o2] outside_trans [OF o2] by blast
          ultimately show ?thesis by blast
        qed
      qed
    qed
  qed
qed

section \<open>Registering a fresh connection\<close>

definition fresh :: "nat \<Rightarrow> string \<Rightarrow> reg_state \<Rightarrow> bool" where
  "fresh ws cid s \<longleftrightarrow> fst s ws = None \<and> (\<forall>r c. fst s r = Some c \<longrightarrow> connection_id c \<noteq> cid)"

lemma fresh_conn_of:
  assumes "reg_inv (h, R)" and "fresh ws cid (h, R)"
  shows "conn_of (h, R) cid = None"
proof (cases "map_of (by_id R) cid")
  case (Some r)
  with conn_of_ref [OF assms(1) Some] assms(2) show ?thesis by (auto simp: fresh_def)
qed (simp add: conn_of_def)

lemma registered_inv:
  assumes inv: "gw_inv (h, R)" and new: "fresh ws (connection_id c) (h, R)" and sub: "subscriptions c = []"
  shows "gw_inv (registered ws c u (h, R))"
    and "conn_of (registered ws c u (h, R)) = (conn_of (h, R))(connection_id c \<mapsto> c\<lparr>user_id := u\<rparr>)"
proof -
  let ?h = "h(ws \<mapsto> c)" and ?c = "c\<lparr>user_id := u\<rparr>"
  have ws: "h ws = None" using new by (simp add: fresh_def)
  have ri: "reg_inv (h, R)" using inv by (simp add: gw_inv_def)
  note heap = reg_inv_heap_fresh [OF ri ws, of c]
  have none: "conn_of (?h, R) (connection_id c) = None" using heap(2) fresh_conn_of [OF ri new] by simp
  obtain R' where R': "registry_add ws (?h, R) = (?h, R')" by (simp add: registry_add_def)
  have ri': "reg_inv (?h, R')" using reg_inv_add [of ?h R ws c] heap(1) none sub R' by simp
  have co: "conn_of (?h, R') = (conn_of (h, R))(connection_id c \<mapsto> c)"
    using conn_of_add [of ?h ws c R] R' heap(2) by simp
  have st: "registered ws c u (h, R) = (?h(ws \<mapsto> ?c), R')" by (simp add: registered_def R')
  have si: "same_index c ?c" by (simp add: same_index_def info_def)
  have "map_of (by_id R') (connection_id c) = Some ws" using R' by (auto simp: registry_add_def)
  from conn_of_heap_update [OF ri' this, of c ?c] have co': "conn_of (registered ws c u (h, R)) = (conn_of (h, R))(connection_id c \<mapsto> ?c)"
    using co st by simp
  then show "conn_of (registered ws c u (h, R)) = (conn_of (h, R))(connection_id c \<mapsto> ?c)" .
  have "reg_inv (registered ws c u (h, R))" using reg_inv_heap_update(1) [of ?h R' ws c ?c] ri' si st by simp
  moreover have "reg_view (registered ws c u (h, R)) = (reg_view (h, R))(connection_id c \<mapsto> (session_id c, tenant_id c, {}))"
    using co' sub by (auto simp: reg_view_def info_def fun_eq_iff)
  ultimately show "gw_inv (registered ws c u (h, R))"
    using inv new unfolding gw_inv_def st by (auto simp: fresh_def split: if_splits) metis
qed

section \<open>The gateway as a transition system\<close>

text \<open>Every step may have any outcome.  The steps of tasks other than a handshake: frames, fanout, the end of
  connections; the last two are the tasks of a connection (sender, heartbeat, in-flight window) and
  everything outside the registry (Redis and its other clients, the network, listener tasks, counters).\<close>

inductive gw_task :: "('r, 'w) deps \<Rightarrow> ('r, 'w) world \<Rightarrow> ('r, 'w) world \<Rightarrow> bool" for D :: "('r, 'w) deps" where
  gw_frame: "w_heap w ws = Some c \<Longrightarrow> handle_frame D ws (tenant_id c) raw w = (y, w') \<Longrightarrow> gw_task D w w'"
| gw_deliver: "deliver_local (dp_cfg D) ch env sq w = (z, w') \<Longrightarrow> gw_task D w w'"
| gw_dead: "on_dead_connection D ws reason w = (u, w') \<Longrightarrow> gw_task D w w'"
| gw_slow: "terminate_slow_consumer (dp_ws D) (dp_pydantic D) ws w = (u, w') \<Longrightarrow> gw_task D w w'"
| gw_cleanup: "cleanup_connection D ws w = (u, w') \<Longrightarrow> gw_task D w w'"
| gw_local: "w_heap w ws = Some c \<Longrightarrow> same_index c c' \<Longrightarrow> gw_task D w (w\<lparr>w_heap := (w_heap w)(ws \<mapsto> c')\<rparr>)"
| gw_elsewhere: "w_heap w' = w_heap w \<Longrightarrow> w_reg w' = w_reg w \<Longrightarrow> gw_task D w w'"

inductive gw_step :: "('r, 'w) deps \<Rightarrow> ('r, 'w) world \<Rightarrow> ('r, 'w) world \<Rightarrow> bool" for D :: "('r, 'w) deps" where
  gw_connect: "fresh ws (''conn-'' @ take 12 uc) (reg_of w) \<Longrightarrow> handshake D db ws us uc w = (x, w') \<Longrightarrow> gw_step D w w'"
| gw_other: "gw_task D w w' \<Longrightarrow> gw_step D w w'"

definition gw_init :: "('r, 'w) world \<Rightarrow> bool" where
  "gw_init w = (\<exists>nid r v. w = new_world nid r v)"

lemma gw_inv_new: "gw_inv (reg_of (new_world nid r v))"
proof -
  have "reg_of (new_world nid r v) = (Map.empty, empty_registry)" by (simp add: reg_of_def new_world_def)
  moreover have "reg_view (Map.empty, empty_registry) = Map.empty"
    by (simp add: reg_view_def conn_of_def empty_registry_def fun_eq_iff)
  ultimately show ?thesis by (simp add: gw_inv_def reg_inv_empty)
qed

text \<open>What keeps the invariant for the owner of a connection keeps it.\<close>

lemma preserves_gw_inv:
  assumes "\<And>ws tid. preserves (owned ws tid) m" and "gw_inv (reg_of w)" and "m w = (x, w')"
    and "w_heap w ws = Some c"
  shows "gw_inv (reg_of w')"
  using preservesD [OF assms(1) _ assms(3)] assms(2,4) by (auto simp: owned_def)

lemma gw_inv_deliver:
  assumes "gw_inv (reg_of w)" and "deliver_local cfg ch env sq w = (x, w')"
  shows "gw_inv (reg_of w')"
proof -
  have ri: "reg_inv (w_heap w, w_reg w)" using assms(1) by (simp add: gw_inv_def reg_of_def)
  obtain w1 where run: "deliver_local cfg ch env sq w = (Inr (slow_ids cfg env (w_heap w) (local_subscribers (w_reg w) ch)), w1)"
    and d: "delivery cfg ch env sq (local_subscribers (w_reg w) ch) w w1" by (rule deliver_local_run [OF ri])
  have w1: "w1 = w'" using run assms(2) by simp
  have "ids_of (reg_of w') = ids_of (reg_of w)"
    using d by (auto simp: ids_of_def reg_of_def delivery_def w1 option.map_comp comp_def fun_eq_iff)
  with delivery_reg [OF ri d] assms(1) show ?thesis
    unfolding gw_inv_ids by (simp add: reg_of_def w1)
qed

lemma gw_inv_end:
  assumes "gw_inv (reg_of w)"
  shows "on_dead_connection D ws reason w = (u, w') \<Longrightarrow> gw_inv (reg_of w')"
    and "terminate_slow_consumer W P ws w = (u, w') \<Longrightarrow> gw_inv (reg_of w')"
    and "cleanup_connection D ws w = (u, w') \<Longrightarrow> gw_inv (reg_of w')"
proof -
  have none: "thenE (update_conn ws f) m w = (u, w') \<Longrightarrow> w_heap w ws = None \<Longrightarrow> w' = w" for f and m :: "(('a, 'b) world, unit) io"
    by (simp add: thenE_def bindE_def update_conn_def connE_def)
  note keep = preserves_gw_inv [OF _ assms]
  show "gw_inv (reg_of w')" if "on_dead_connection D ws reason w = (u, w')"
    using keep [OF pres_on_dead that] none that assms unfolding on_dead_connection_def by (cases "w_heap w ws") auto
  show "gw_inv (reg_of w')" if "terminate_slow_consumer W P ws w = (u, w')"
    using keep [OF pres_slow that] none that assms unfolding terminate_slow_consumer_def by (cases "w_heap w ws") auto
  show "gw_inv (reg_of w')" if "cleanup_connection D ws w = (u, w')"
    using keep [OF pres_cleanup that] none that assms unfolding cleanup_connection_def by (cases "w_heap w ws") auto
qed

lemma gw_inv_handshake:
  assumes "gw_inv (reg_of w)" and "fresh ws (''conn-'' @ take 12 uc) (reg_of w)" and "handshake D db ws us uc w = (x, w')"
  shows "gw_inv (reg_of w')"
  using handshake_effect [OF assms(3)]
proof (elim disjE conjE exE)
  assume "outside w w'"
  with assms(1) show ?thesis by (simp add: outside_def reg_of_def)
next
  fix a assume "admitted D ws uc (ac_tenant_id a) w x w'"
  then obtain sid now u where w': "reg_of w' = registered ws (new_connection (''conn-'' @ take 12 uc) sid (ac_tenant_id a) ACTIVE now) u (reg_of w)"
    by (auto simp: admitted_def)
  show ?thesis
    unfolding w' using registered_inv(1) [of "w_heap w" "w_reg w" ws "new_connection (''conn-'' @ take 12 uc) sid (ac_tenant_id a) ACTIVE now"]
      assms(1,2) by (simp add: reg_of_def)
qed

lemma gw_inv_task:
  assumes "gw_inv (reg_of w)" and "gw_task D w w'"
  shows "gw_inv (reg_of w')"
  using assms(2)
proof (cases rule: gw_task.cases)
  case (gw_frame ws c raw y)
  then show ?thesis
    using preservesD [OF pres_handle_frame [of ws "tenant_id c" D raw], of w] assms(1) by (auto simp: owned_def)
next
  case (gw_deliver ch env sq z)
  then show ?thesis using gw_inv_deliver [OF assms(1)] by blast
next
  case (gw_local ws c c')
  then show ?thesis using gw_inv_heap_update [of "w_heap w" "w_reg w" ws c c'] assms(1) by (simp add: reg_of_def)
next
  case gw_elsewhere
  then show ?thesis using assms(1) by (simp add: reg_of_def)
qed (use gw_inv_end [OF assms(1)] in blast)+

lemma gw_inv_step: "gw_inv (reg_of w) \<Longrightarrow> gw_step D w w' \<Longrightarrow> gw_inv (reg_of w')"
  by (erule gw_step.cases) (use gw_inv_handshake gw_inv_task in blast)+

interpretation gateway_sys: invariant_system gw_init "gw_step D" "\<lambda>w. gw_inv (reg_of w)" for D :: "('r, 'w) deps"
proof
  show "gw_inv (reg_of w)" if "gw_init w" for w :: "('r, 'w) world" using that gw_inv_new by (auto simp: gw_init_def)
  show "gw_inv (reg_of w')" if "gw_inv (reg_of w)" "gw_step D w w'" for w w' using gw_inv_step [OF that] .
qed

section \<open>Subscriptions and deliveries in a consistent state\<close>

lemma gw_inv_channels:
  "gw_inv s \<Longrightarrow> conn_of s cid = Some c \<Longrightarrow> ch \<in> set (subscriptions c) \<Longrightarrow> channel_belongs_to_tenant ch (tenant_id c)"
proof -
  assume "gw_inv s" "conn_of s cid = Some c" "ch \<in> set (subscriptions c)"
  moreover from this(2) have "reg_view s cid = Some (session_id c, tenant_id c, set (subscriptions c))"
    by (simp add: reg_view_def info_def)
  ultimately show ?thesis unfolding gw_inv_def by blast
qed

lemma deliver_changes:
  assumes "reg_inv (reg_of w)" and "deliver_local cfg ch env sq w = (x, w')" and "conn_of (reg_of w) cid = Some c"
    and "conn_of (reg_of w') cid \<noteq> Some c"
  shows "ch \<in> set (subscriptions c)"
proof -
  have ri: "reg_inv (w_heap w, w_reg w)" using assms(1) by (simp add: reg_of_def)
  obtain w1 where "deliver_local cfg ch env sq w = (Inr (slow_ids cfg env (w_heap w) (local_subscribers (w_reg w) ch)), w1)"
    and "delivery cfg ch env sq (local_subscribers (w_reg w) ch) w w1" by (rule deliver_local_run [OF ri])
  with delivery_conn [OF ri, of cfg ch env sq w1 cid c] assms(2-4) show ?thesis by (auto simp: reg_of_def split: if_splits)
qed

section \<open>A concrete client\<close>

definition demo_deps :: "(mem, wire) deps" where
  "demo_deps = \<lparr>dp_redis = mem_redis, dp_ws = wire_sockets, dp_pydantic = strict_pydantic, dp_float = frac_float,
     dp_cfg = default_settings, dp_sha256 = id, dp_strftime = (\<lambda>_. ''now''), dp_str = (\<lambda>_. ''?''),
     dp_exn_str = (\<lambda>_. ''invalid'')\<rparr>"

definition connect_json :: json where
  "connect_json = JObj [(''type'', JStr ''CONNECT''), (''token'', JStr ''relay_b'')]"

definition subscribe_raw :: "(string \<times> json) list" where
  "subscribe_raw = [(''type'', JStr ''SUBSCRIBE''), (''channel'', JStr ''t-1:chat'')]"

definition demo_world :: "json list \<Rightarrow> (mem, wire) world" where
  "demo_world js = new_world ''n1'' (mem_start 0 []) \<lparr>wire_calls = [], wire_input = js\<rparr>"

text \<open>After the handshake, and after a SUBSCRIBE frame.\<close>

definition connected_world :: "(mem, wire) world" where
  "connected_world = snd (handshake demo_deps (Inr demo_db) 0 ''u1'' ''abc'' (demo_world [connect_json]))"

definition subscribed_world :: "(mem, wire) world" where
  "subscribed_world = snd (handle_frame demo_deps 0 ''1'' subscribe_raw connected_world)"

lemma demo_world_ok:
  "gw_inv (reg_of (demo_world js))" "fresh 0 cid (reg_of (demo_world js))" "w_tasks (demo_world js) = []"
  "gw_init (demo_world js)"
  by (simp_all add: demo_world_def gw_inv_new gw_init_def) (auto simp: reg_of_def new_world_def fresh_def)

lemma connected_reachable: "reachable gw_init (gw_step demo_deps) connected_world"
proof (rule reach_step)
  show "reachable gw_init (gw_step demo_deps) (demo_world [connect_json])" by (rule reach_init) (rule demo_world_ok)
  show "gw_step demo_deps (demo_world [connect_json]) connected_world"
    by (rule gw_connect [where db = "Inr demo_db" and ws = 0 and us = "''u1''" and uc = "''abc''"])
      (rule demo_world_ok, simp add: connected_world_def prod_eq_iff)
qed

lemma subscribed_reachable: "reachable gw_init (gw_step demo_deps) subscribed_world"
proof (rule reach_step [OF connected_reachable])
  have "map_option tenant_id (w_heap connected_world 0) = Some ''1''" by code_simp
  then obtain c where "w_heap connected_world 0 = Some c" "tenant_id c = ''1''" by auto
  then show "gw_step demo_deps connected_world subscribed_world"
    using gw_frame [of connected_world 0 c demo_deps subscribe_raw "fst (handle_frame demo_deps 0 ''1'' subscribe_raw connected_world)" subscribed_world]
    by (simp add: subscribed_world_def gw_other)
qed

section \<open>The end of a connection\<close>

lemma forE_unsubscribe:
  assumes "forE chs (on_local_unsubscribe X) w = (x, w')"
  shows "w_heap w' = w_heap w \<and> w_reg w' = w_reg w \<and> w_tasks w' = w_tasks w \<and>
    (x = Inr () \<longrightarrow> w_subs w' = foldl (\<lambda>m ch. sub_exec m (Unsubscribed ch)) (w_subs w) chs)"
  using assms
proof (induction chs arbitrary: w)
  case (Cons ch chs)
  obtain y w1 where one: "on_local_unsubscribe X ch w = (y, w1)" by fastforce
  have "w_tasks w1 = w_tasks w"
    using one by (auto simp: on_local_unsubscribe_def thenE_def bindE_def subsE_def redisE_run Let_def split: sum.splits if_splits)
  with on_local_unsubscribe_subs [OF one] Cons one show ?case
    by (cases y) (auto simp: thenE_def bindE_def)
qed auto

lemma suppress_close:
  obtains w' where "suppressE (close_ws W ws code) w = (Inr (), w')" "outside w w'"
proof -
  obtain x w1 where r: "close_ws W ws code w = (x, w1)" by fastforce
  have "outside w w1" using quietD [OF quiet_sends(2) r] .
  moreover have "suppressE (close_ws W ws code) w = (Inr (), w1)"
    using r by (cases x) (auto simp: suppressE_def catchE_def)
  ultimately show thesis by (intro that)
qed

text \<open>The sequence up to the removal from the registry, and the rest of it.\<close>

lemma cleanup_run:
  assumes h: "w_heap w ws = Some c" and run: "cleanup_connection D ws w = (x, w')"
  obtains (failed) e where "x = Inl e" "w_heap w' = (w_heap w)(ws \<mapsto> c\<lparr>conn_state := DEAD\<rparr>)" "w_reg w' = w_reg w"
      "w_tasks w' = removeAll ws (w_tasks w)"
    | (removed) "x = Inr ()" "w_tasks w' = removeAll ws (w_tasks w)"
      "w_subs w' = foldl (\<lambda>m ch. sub_exec m (Unsubscribed ch)) (w_subs w) (subscriptions c)"
      "reg_of w' = snd (registry_remove (connection_id c) ((w_heap w)(ws \<mapsto> c\<lparr>conn_state := DEAD\<rparr>), w_reg w))"
proof -
  let ?c = "c\<lparr>conn_state := DEAD\<rparr>"
  let ?w1 = "w\<lparr>w_heap := (w_heap w)(ws \<mapsto> ?c), w_tasks := removeAll ws (w_tasks w)\<rparr>"
  let ?pres = "case user_id c of None \<Rightarrow> returnE ()
    | Some u \<Rightarrow> thenE (redisE (connection_offline (dp_redis D) (tenant_id c) u (connection_id c))) (returnE ())"
  let ?finish = "thenE (regE (\<lambda>s. snd (registry_remove (connection_id c) s))) (suppressE (close_ws (dp_ws D) ws None))"
  have r1: "thenE (forE (subscriptions c) (on_local_unsubscribe (dp_redis D))) (thenE ?pres ?finish) ?w1 = (x, w')"
  proof -
    have u: "update_conn ws (\<lambda>c. c\<lparr>conn_state := DEAD\<rparr>) w = (Inr (), w\<lparr>w_heap := (w_heap w)(ws \<mapsto> ?c)\<rparr>)"
      using h by (simp add: update_conn_def connE_def)
    have t: "modifyE (\<lambda>w. w\<lparr>w_tasks := removeAll ws (w_tasks w)\<rparr>) (w\<lparr>w_heap := (w_heap w)(ws \<mapsto> ?c)\<rparr>) = (Inr (), ?w1)" by simp
    have g: "the_conn ws ?w1 = (Inr ?c, ?w1)" by (simp add: the_conn_def connE_def fun_upd_idem)
    show ?thesis using run unfolding cleanup_connection_def
        thenE_Inr [where m = "update_conn ws (\<lambda>c. c\<lparr>conn_state := DEAD\<rparr>)", OF u]
        thenE_Inr [where m = "modifyE (\<lambda>w. w\<lparr>w_tasks := removeAll ws (w_tasks w)\<rparr>)", OF t]
        bindE_Inr [where m = "the_conn ws", OF g] by (cases "user_id c") simp_all
  qed
  obtain y2 w2 where f: "forE (subscriptions c) (on_local_unsubscribe (dp_redis D)) ?w1 = (y2, w2)" by fastforce
  obtain y3 w3 where p: "?pres w2 = (y3, w3)" by fastforce
  have q: "quiet ?pres" by (auto intro!: quiets split: option.split)
  note f' = forE_unsubscribe [OF f] and o3 = quietD [OF q p]
  obtain w4 where cl: "suppressE (close_ws (dp_ws D) ws None) (snd (regE (\<lambda>s. snd (registry_remove (connection_id c) s)) w3)) = (Inr (), w4)"
    "outside (snd (regE (\<lambda>s. snd (registry_remove (connection_id c) s)) w3)) w4" by (rule suppress_close)
  have e: "?finish w3 = (Inr (), w4)"
    using cl(1) by (simp add: thenE_def bindE_def regE_def case_prod_beta)
  show thesis
  proof (cases "\<exists>e. x = Inl e")
    case True
    then obtain e' where x: "x = Inl e'" ..
    have "w' = w2 \<or> w' = w3"
      using r1 f p e x by (cases y2; cases y3) (auto simp: thenE_def bindE_def)
    with failed [OF x] f' o3 show thesis by (auto simp: outside_def)
  next
    case False
    have "y2 = Inr ()" "x = Inr ()" "w' = w4"
      using r1 f p e False by (cases y2; cases y3; auto simp: thenE_def bindE_def)+
    moreover from this(1) f' o3 have s3: "reg_of w3 = ((w_heap w)(ws \<mapsto> ?c), w_reg w)" "w_tasks w3 = removeAll ws (w_tasks w)"
      "w_subs w3 = foldl (\<lambda>m ch. sub_exec m (Unsubscribed ch)) (w_subs w) (subscriptions c)"
      by (simp_all add: outside_def reg_of_def)
    moreover have "reg_of w4 = snd (registry_remove (connection_id c) (reg_of w3))"
      "w_tasks w4 = w_tasks w3" "w_subs w4 = w_subs w3"
      using cl(2) reg_of_regE [of "\<lambda>s. snd (registry_remove (connection_id c) s)" w3]
      by (simp_all add: outside_def reg_of_def regE_def case_prod_beta)
    ultimately show thesis by (intro removed) simp_all
  qed
qed

text \<open>C14: Admission.  A handshake that returns without a connection has registered nothing, started no task
  and joined no channel.  A handshake that admits does so for the tenant of an active key whose token
  authenticated, below the connection limit of that tenant, and registers exactly one connection of
  that tenant, active and without subscriptions, with its tasks started; every other connection is
  untouched.  A handshake that raises has changed no listener, but what it raises after the
  registration, in \<open>connection_online\<close> or while CONNECTED is sent, leaves an active connection of the
  tenant in the registry that no cleanup will remove.\<close>

theorem handshake_admission:
  assumes "gw_inv (reg_of w)" and "fresh ws (''conn-'' @ take 12 uc) (reg_of w)"
    and "handshake D db ws us uc w = (x, w')"
  shows "(x = Inr None \<longrightarrow> reg_of w' = reg_of w \<and> w_subs w' = w_subs w \<and> w_tasks w' = w_tasks w) \<and>
    (\<forall>tid. x = Inr (Some tid) \<longrightarrow>
       (\<exists>d token a. db = Inr d \<and> authenticate_token (dp_sha256 D) d token = Inr a \<and> ac_tenant_id a = tid) \<and>
       tenant_connection_count (w_reg w) tid < max_connections_per_tenant (dp_cfg D) \<and>
       (\<exists>c. conn_of (reg_of w') = (conn_of (reg_of w))(''conn-'' @ take 12 uc \<mapsto> c) \<and> tenant_id c = tid \<and>
          conn_state c = ACTIVE \<and> subscriptions c = []) \<and>
       w_subs w' = w_subs w \<and> w_tasks w' = w_tasks w @ [ws]) \<and>
    (\<forall>e. x = Inl e \<longrightarrow> w_subs w' = w_subs w \<and>
       (reg_of w' = reg_of w \<or>
        (\<exists>c. conn_of (reg_of w') = (conn_of (reg_of w))(''conn-'' @ take 12 uc \<mapsto> c) \<and> conn_state c = ACTIVE \<and>
           tenant_connection_count (w_reg w) (tenant_id c) < max_connections_per_tenant (dp_cfg D))))"
  using handshake_effect [OF assms(3)]
proof (elim disjE conjE exE)
  assume "outside w w'" "\<forall>t. x \<noteq> Inr (Some t)"
  then show ?thesis by (simp add: outside_def reg_of_def)
next
  fix d token a
  assume auth: "db = Inr d" "authenticate_token (dp_sha256 D) d token = Inr a" and adm: "admitted D ws uc (ac_tenant_id a) w x w'"
  from adm obtain sid now u where
    w': "reg_of w' = registered ws (new_connection (''conn-'' @ take 12 uc) sid (ac_tenant_id a) ACTIVE now) u (reg_of w)"
    by (auto simp: admitted_def)
  let ?c = "new_connection (''conn-'' @ take 12 uc) sid (ac_tenant_id a) ACTIVE now"
  have "conn_of (reg_of w') = (conn_of (reg_of w))(''conn-'' @ take 12 uc \<mapsto> ?c\<lparr>user_id := u\<rparr>)"
    unfolding w' using registered_inv(2) [of "w_heap w" "w_reg w" ws ?c u] assms(1,2) by (simp add: reg_of_def)
  moreover have "tenant_id (?c\<lparr>user_id := u\<rparr>) = ac_tenant_id a" "conn_state (?c\<lparr>user_id := u\<rparr>) = ACTIVE"
    "subscriptions (?c\<lparr>user_id := u\<rparr>) = []" by simp_all
  ultimately obtain c where c: "conn_of (reg_of w') = (conn_of (reg_of w))(''conn-'' @ take 12 uc \<mapsto> c)"
    "tenant_id c = ac_tenant_id a" "conn_state c = ACTIVE" "subscriptions c = []" by blast
  then have "tenant_connection_count (w_reg w) (tenant_id c) < max_connections_per_tenant (dp_cfg D)"
    using adm by (simp add: admitted_def)
  with auth adm c show ?thesis unfolding admitted_def by blast
qed

text \<open>A client that is admitted, and one that names a user while Redis refuses \<open>connection_online\<close>.\<close>

definition connect_user_json :: json where
  "connect_user_json = JObj [(''type'', JStr ''CONNECT''), (''token'', JStr ''relay_b''), (''user_id'', JStr ''ann'')]"

definition refused_world :: "(mem, wire) world" where
  "refused_world = (demo_world [connect_user_json])\<lparr>w_redis := mem_start 0 [Served, Served, Refused]\<rparr>"

theorem handshake_admission_witness:
  "(\<exists>w'. handshake demo_deps (Inr demo_db) 0 ''u1'' ''abc'' (demo_world [connect_json]) = (Inr (Some ''1''), w') \<and>
     (\<exists>c. conn_of (reg_of w') ''conn-abc'' = Some c \<and> tenant_id c = ''1'' \<and> conn_state c = ACTIVE)) \<and>
   (\<exists>w'. handshake demo_deps (Inr demo_db) 0 ''u1'' ''abc'' refused_world = (Inl RedisConnectionError, w') \<and>
     (\<exists>c. conn_of (reg_of w') ''conn-abc'' = Some c \<and> conn_state c = ACTIVE) \<and> w_tasks w' = [])"
proof
  obtain x w' where h: "handshake demo_deps (Inr demo_db) 0 ''u1'' ''abc'' (demo_world [connect_json]) = (x, w')" by fastforce
  have "fst (handshake demo_deps (Inr demo_db) 0 ''u1'' ''abc'' (demo_world [connect_json])) = Inr (Some ''1'')" by code_simp
  with h have x: "x = Inr (Some ''1'')" by simp
  from handshake_admission [OF demo_world_ok(1) demo_world_ok(2) h] x
  have "\<exists>c. conn_of (reg_of w') = (conn_of (reg_of (demo_world [connect_json])))(''conn-'' @ take 12 ''abc'' \<mapsto> c) \<and>
      tenant_id c = ''1'' \<and> conn_state c = ACTIVE" by blast
  then show "\<exists>w'. handshake demo_deps (Inr demo_db) 0 ''u1'' ''abc'' (demo_world [connect_json]) = (Inr (Some ''1''), w') \<and>
     (\<exists>c. conn_of (reg_of w') ''conn-abc'' = Some c \<and> tenant_id c = ''1'' \<and> conn_state c = ACTIVE)" using h x by auto
next
  let ?h = "handshake demo_deps (Inr demo_db) 0 ''u1'' ''abc'' refused_world"
  obtain x w' where h: "?h = (x, w')" by fastforce
  have run: "fst ?h = Inl RedisConnectionError" "w_tasks (snd ?h) = []" "conn_of (reg_of (snd ?h)) ''conn-abc'' \<noteq> None" by code_simp+
  have same: "reg_of refused_world = reg_of (demo_world [connect_user_json])" by (simp add: refused_world_def reg_of_def)
  have "conn_of (reg_of refused_world) ''conn-abc'' = None" by code_simp
  with run h have "reg_of w' \<noteq> reg_of refused_world" by auto
  with handshake_admission [OF _ _ h] demo_world_ok same run(1) h
  obtain c where "conn_of (reg_of w') = (conn_of (reg_of refused_world))(''conn-'' @ take 12 ''abc'' \<mapsto> c)" "conn_state c = ACTIVE"
    by auto
  with h run show "\<exists>w'. ?h = (Inl RedisConnectionError, w') \<and>
     (\<exists>c. conn_of (reg_of w') ''conn-abc'' = Some c \<and> conn_state c = ACTIVE) \<and> w_tasks w' = []" by auto
qed

text \<open>C17: What cleanup releases, and what a Redis failure leaves behind.  Cleanup of a registered
  connection marks it dead and cancels its tasks.  When it returns, the connection is gone from every
  index, the counts of its channels are released, and every other connection keeps its entry.  When a
  Redis call raises, the exception leaves cleanup before the registry is touched, and the dead
  connection stays registered.\<close>

theorem cleanup_outcomes:
  assumes "gw_inv (reg_of w)" and "w_heap w ws = Some c" and "conn_of (reg_of w) (connection_id c) = Some c"
    and "cleanup_connection D ws w = (x, w')"
  shows "w_tasks w' = removeAll ws (w_tasks w) \<and> (\<exists>c'. w_heap w' ws = Some c' \<and> conn_state c' = DEAD) \<and>
    (x = Inr () \<longrightarrow>
       reg_view (reg_of w') = (reg_view (reg_of w))(connection_id c := None) \<and>
       (\<forall>ch. connection_id c \<notin> set (get_set (by_channel (w_reg w')) ch)) \<and>
       w_subs w' = foldl (\<lambda>m ch. sub_exec m (Unsubscribed ch)) (w_subs w) (subscriptions c)) \<and>
    (\<forall>e. x = Inl e \<longrightarrow> conn_of (reg_of w') (connection_id c) = Some (c\<lparr>conn_state := DEAD\<rparr>))"
proof -
  let ?c = "c\<lparr>conn_state := DEAD\<rparr>"
  let ?s = "((w_heap w)(ws \<mapsto> ?c), w_reg w)"
  have si: "same_index c ?c" by (simp add: same_index_def info_def)
  have ri: "reg_inv (w_heap w, w_reg w)" using assms(1) by (simp add: gw_inv_def reg_of_def)
  note upd = reg_inv_heap_update [OF ri assms(2) si]
  from assms(3) obtain r where r: "map_of (by_id (w_reg w)) (connection_id c) = Some r" "w_heap w r = Some c"
    by (auto simp: conn_of_def reg_of_def split: Option.bind_splits)
  then have "r = ws" using assms(1,2) unfolding gw_inv_def reg_of_def by (metis fst_conv)
  then have co: "conn_of ?s (connection_id c) = Some ?c" using r by (simp add: conn_of_def)
  from assms(2,4) show ?thesis
  proof (cases rule: cleanup_run)
    case (failed e)
    then show ?thesis using co by (simp add: reg_of_def)
  next
    case removed
    have inv': "reg_inv (reg_of w')" unfolding removed(4) by (rule reg_inv_remove [OF upd(1)])
    have view: "reg_view (reg_of w') = (reg_view (reg_of w))(connection_id c := None)"
      unfolding removed(4) reg.view_rem [OF upd(1)] upd(2) by (simp add: reg_of_def)
    then have none: "conn_of (reg_of w') (connection_id c) = None"
      by (metis fun_upd_same map_option_is_None reg_view_def)
    have "connection_id c \<notin> set (get_set (by_channel (w_reg w')) ch)" for ch
      using reg_invD(8) [of "w_heap w'" "w_reg w'" "connection_id c" ch] inv' none by (simp add: reg_of_def)
    moreover have "fst (snd (registry_remove (connection_id c) ?s)) ws = Some ?c"
      by (simp add: registry_remove_def split: option.split)
    then have "w_heap w' ws = Some ?c" using removed(4) by (metis fst_conv reg_of_def)
    ultimately show ?thesis using removed(1-3) view by simp
  qed
qed

text \<open>The same client when Redis refuses the first call of the cleanup.\<close>

theorem cleanup_outcomes_witness:
  "\<exists>w c e w'. reachable gw_init (gw_step demo_deps) w \<and> w_heap w 0 = Some c \<and>
     cleanup_connection demo_deps 0 w = (Inl e, w') \<and>
     conn_of (reg_of w') (connection_id c) = Some (c\<lparr>conn_state := DEAD\<rparr>)"
proof -
  define w where "w = subscribed_world\<lparr>w_redis := (w_redis subscribed_world)\<lparr>mem_faults := [Refused]\<rparr>\<rparr>"
  have r: "reachable gw_init (gw_step demo_deps) w"
    unfolding w_def by (rule reach_step [OF subscribed_reachable]) (rule gw_other, rule gw_elsewhere, simp_all)
  have ok: "case w_heap w 0 of None \<Rightarrow> False | Some c \<Rightarrow> conn_of (reg_of w) (connection_id c) = Some c"
    "fst (cleanup_connection demo_deps 0 w) = Inl RedisConnectionError" unfolding w_def by code_simp+
  from ok(1) obtain c where c: "w_heap w 0 = Some c" "conn_of (reg_of w) (connection_id c) = Some c"
    by (cases "w_heap w 0") auto
  from ok(2) obtain w' where run: "cleanup_connection demo_deps 0 w = (Inl RedisConnectionError, w')"
    by (cases "cleanup_connection demo_deps 0 w") auto
  from cleanup_outcomes [OF gateway_sys.reachable_inv [OF r] c run]
  have "conn_of (reg_of w') (connection_id c) = Some (c\<lparr>conn_state := DEAD\<rparr>)" by blast
  with r c(1) run show ?thesis by blast
qed

lemma run_connection_ends:
  assumes inv: "owned ws tid w" and run: "run_connection D fuel ws tid w = (Inr (Some ()), w')"
  shows "gw_inv (reg_of w') \<and> (\<forall>cid. map_of (by_id (w_reg w')) cid \<noteq> Some ws) \<and> ws \<notin> set (w_tasks w')"
proof -
  obtain x w1 where loop: "frame_loop D fuel ws tid w = (x, w1)" by fastforce
  have o1: "owned ws tid w1" using preservesD [OF pres_frame_loop inv loop] .
  then obtain c where c: "w_heap w1 ws = Some c" and g1: "gw_inv (reg_of w1)" by (auto simp: owned_def)
  have cl: "cleanup_connection D ws w1 = (Inr (), w')"
    using run loop by (auto simp: run_connection_def split: sum.splits option.splits prod.splits if_splits)
  have g: "gw_inv (reg_of w')" by (rule gw_inv_end(3) [OF g1 cl])
  from c cl show ?thesis
  proof (cases rule: cleanup_run)
    case removed
    let ?s = "((w_heap w1)(ws \<mapsto> c\<lparr>conn_state := DEAD\<rparr>), w_reg w1)"
    have "reg_inv ?s"
      using reg_inv_heap_update(1) [of "w_heap w1" "w_reg w1" ws c "c\<lparr>conn_state := DEAD\<rparr>"] g1 c
      by (simp add: gw_inv_def reg_of_def same_index_def info_def)
    then have "reg_view (reg_of w') (connection_id c) = None"
      unfolding removed(4) by (simp add: reg.view_rem)
    then have none: "conn_of (reg_of w') (connection_id c) = None" by (simp add: reg_view_def)
    have "w_heap w' ws = Some (c\<lparr>conn_state := DEAD\<rparr>)"
    proof -
      have "fst (snd (registry_remove (connection_id c) ?s)) ws = Some (c\<lparr>conn_state := DEAD\<rparr>)"
        by (simp add: registry_remove_def split: option.split)
      then show ?thesis using removed(4) by (metis fst_conv reg_of_def)
    qed
    moreover have "reg_inv (w_heap w', w_reg w')" using g by (simp add: gw_inv_def reg_of_def)
    ultimately have "map_of (by_id (w_reg w')) cid \<noteq> Some ws" for cid
      using conn_of_ref [of "w_heap w'" "w_reg w'" cid ws] none by (auto simp: reg_of_def)
    with g removed(2) show ?thesis by simp
  qed simp
qed

text \<open>C15: A finished connection is gone.  When \<open>handle_connection\<close> on a new socket returns, after any number
  of frames and however the client left, no index refers to the connection any more, no task of it
  runs, and the registry is consistent.\<close>

theorem finished_connection_gone:
  assumes "gw_inv (reg_of w)" and "fresh ws (''conn-'' @ take 12 uc) (reg_of w)" and "ws \<notin> set (w_tasks w)"
    and "handle_connection D db fuel ws us uc w = (Inr (Some ()), w')"
  shows "gw_inv (reg_of w') \<and> (\<forall>cid. map_of (by_id (w_reg w')) cid \<noteq> Some ws) \<and> ws \<notin> set (w_tasks w')"
proof -
  from assms(4) obtain y w0 x w1 where acc: "wsE (dp_ws D) ws WsAccept w = (y, w0)"
    and hs: "handshake D db ws us uc w0 = (Inr x, w1)"
    and rest: "(case x of None \<Rightarrow> returnE (Some ()) | Some tid \<Rightarrow> run_connection D fuel ws tid) w1 = (Inr (Some ()), w')"
    by (auto simp: handle_connection_def io_run_iffs)
  have o0: "outside w w0" using quietD [OF quiet_wsE acc] .
  then have s0: "reg_of w0 = reg_of w" "w_tasks w0 = w_tasks w" by (simp_all add: outside_def reg_of_def)
  have pre: "gw_inv (reg_of w0)" "fresh ws (''conn-'' @ take 12 uc) (reg_of w0)" using assms(1,2) s0 by simp_all
  have g1: "gw_inv (reg_of w1)" by (rule gw_inv_handshake [OF pre hs])
  show ?thesis
  proof (cases x)
    case None
    have "reg_of w1 = reg_of w \<and> w_tasks w1 = w_tasks w"
      using handshake_effect [OF hs] None s0 by (auto simp: outside_def reg_of_def admitted_def)
    moreover have "map_of (by_id (w_reg w)) cid \<noteq> Some ws" for cid
      using assms(1,2) conn_of_ref [of "w_heap w" "w_reg w" cid ws] by (auto simp: gw_inv_def reg_of_def fresh_def)
    ultimately show ?thesis using rest None g1 assms(3) by (auto simp: reg_of_def)
  next
    case (Some tid)
    have "\<exists>c. w_heap w1 ws = Some c \<and> tenant_id c = tid"
      using handshake_effect [OF hs] Some by (auto simp: admitted_def registered_def reg_of_def)
    with g1 have "owned ws tid w1" by (simp add: owned_def)
    from run_connection_ends [OF this] rest Some show ?thesis by simp
  qed
qed

theorem finished_connection_gone_witness:
  "\<exists>w'. handle_connection demo_deps (Inr demo_db) 5 0 ''u1'' ''abc'' (demo_world [connect_json, JObj subscribe_raw]) = (Inr (Some ()), w') \<and>
     map_of (by_id (w_reg w')) ''conn-abc'' \<noteq> Some 0"
proof -
  let ?m = "handle_connection demo_deps (Inr demo_db) 5 0 ''u1'' ''abc'' (demo_world [connect_json, JObj subscribe_raw])"
  obtain x w' where h: "?m = (x, w')" by fastforce
  have "fst ?m = Inr (Some ())" by code_simp
  with h have x: "?m = (Inr (Some ()), w')" by simp
  from finished_connection_gone [OF demo_world_ok(1) demo_world_ok(2) _ x] demo_world_ok(3) x show ?thesis by simp
qed

end
