(* ===== verification/Gateway.thy ===== *)
theory Gateway
  imports Isolation Nodes
begin

text \<open>
  \<open>apps/gateway/main.py\<close>: the gateway application.  The publish and presence endpoints are computations
  over the world, with the tables of the database (or the exception it raises) and the HTTP headers as
  arguments; an \<open>HTTPException\<close> is the response FastAPI makes of it, any other exception a response
  500.  \<open>app\<close> adds the state of the application: whether it is draining, and the Redis client object.
  Request parsing and routing are FastAPI's: a request reaches an endpoint with its typed body.
\<close>

section \<open>Publish API\<close>

record publish_request =
  rq_channel :: string
  rq_payload :: "(string \<times> json) list"

record publish_response =
  rs_message_id :: string
  rs_sequence :: int

definition auth_http ::
  "('r, 'w) deps \<Rightarrow> exn + database \<Rightarrow> string option \<Rightarrow> (('r, 'w) world, auth_context) io" where
  "auth_http D db authorization =
     (case authorization of
        None \<Rightarrow> raiseE (HTTPException 401 ''missing bearer token'')
      | Some a \<Rightarrow>
          if a = [] \<or> \<not> startswith a ''Bearer '' then raiseE (HTTPException 401 ''missing bearer token'')
          else
            catchE (authenticate_json D db (JStr (removeprefix ''Bearer '' a)))
              (\<lambda>e. case e of AuthenticationError m \<Rightarrow> raiseE (HTTPException 401 m) | _ \<Rightarrow> raiseE e))"

text \<open>\<open>except RedisConnectionError: raise HTTPException(503)\<close>.\<close>

definition unavailable :: "('s, 'a) io \<Rightarrow> ('s, 'a) io" where
  "unavailable m =
     catchE m (\<lambda>e. if e = RedisConnectionError then raiseE (HTTPException 503 ''REDIS_UNAVAILABLE'') else raiseE e)"

text \<open>\<open>PublishResponse(**json.loads(cached))\<close>, and the text that is cached.\<close>

definition cached_response :: "pydantic \<Rightarrow> string \<Rightarrow> exn + publish_response" where
  "cached_response P cached =
     (case json_loads cached of
        None \<Rightarrow> Inl (ValueError cached)
      | Some (JObj data) \<Rightarrow>
          (case field_str P data ''message_id'' of
             Inl e \<Rightarrow> Inl e
           | Inr m \<Rightarrow>
               (case field_int P data ''sequence'' of
                  Inl e \<Rightarrow> Inl e
                | Inr n \<Rightarrow> Inr \<lparr>rs_message_id = m, rs_sequence = n\<rparr>))
      | Some _ \<Rightarrow> Inl TypeError)"

definition response_text :: "publish_result \<Rightarrow> string" where
  "response_text res = json_dumps (JObj [(''message_id'', JStr (pr_message_id res)), (''sequence'', JInt (pr_sequence res))])"

text \<open>The guards of the endpoint before it reaches Redis.\<close>

definition check_publish :: "settings \<Rightarrow> string \<Rightarrow> publish_request \<Rightarrow> exn option" where
  "check_publish cfg tid body =
     (case validate_channel_name (rq_channel body) of
        Inl (ValueError m) \<Rightarrow> Some (HTTPException 400 m)
      | Inl e \<Rightarrow> Some e
      | Inr _ \<Rightarrow>
          if \<not> channel_belongs_to_tenant (rq_channel body) tid then Some (HTTPException 403 ''CHANNEL_FORBIDDEN'')
          else if int (utf8_size (json_dumps (JObj (rq_payload body)))) > max_message_size_bytes cfg
          then Some (HTTPException 413 ''MESSAGE_TOO_LARGE'')
          else None)"

text \<open>The result cached under the idempotency key of the request, and the call that creates the message;
  \<open>key\<close> is \<open>None\<close> when the header is missing or empty.\<close>

definition read_cached :: "('r, 'w) deps \<Rightarrow> string \<Rightarrow> string option \<Rightarrow> (('r, 'w) world, string option) io" where
  "read_cached D tid key =
     (case key of
        None \<Rightarrow> returnE None
      | Some k \<Rightarrow>
          bindE (unavailable (redisE (bindE (rcall (dp_redis D) (GET (idempotency_redis_key tid k))) string_reply)))
            (\<lambda>cached. returnE (if cached = Some [] then None else cached)))"

definition publish_call :: "('r, 'w) deps \<Rightarrow> string \<Rightarrow> publish_request \<Rightarrow> ('r, publish_result) io" where
  "publish_call D u body =
     publish_message (dp_redis D) (dp_float D) (dp_pydantic D) (dp_cfg D) (dp_strftime D) u (rq_channel body)
       (JObj (rq_payload body))"

definition publish_new ::
  "('r, 'w) deps \<Rightarrow> string \<Rightarrow> string \<Rightarrow> publish_request \<Rightarrow> string option \<Rightarrow> (('r, 'w) world, publish_response) io" where
  "publish_new D uuid tid body key =
     bindE (unavailable (redisE (publish_call D uuid body))) (\<lambda>res.
     thenE (metric_add ''relay_messages_received_total'' 1)
    (thenE (case key of
              None \<Rightarrow> returnE ()
            | Some k \<Rightarrow>
                thenE (redisE (rcall (dp_redis D) (SET (idempotency_redis_key tid k) (response_text res)
                                                     (Some (idempotency_ttl_seconds (dp_cfg D))))))
                      (returnE ()))
           (returnE \<lparr>rs_message_id = pr_message_id res, rs_sequence = pr_sequence res\<rparr>)))"

definition publish ::
  "('r, 'w) deps \<Rightarrow> exn + database \<Rightarrow> string \<Rightarrow> publish_request \<Rightarrow> string option \<Rightarrow> string option \<Rightarrow>
     (('r, 'w) world, publish_response) io" where
  "publish D db uuid body authorization idempotency_key =
     bindE (auth_http D db authorization) (\<lambda>auth.
       case check_publish (dp_cfg D) (ac_tenant_id auth) body of
         Some e \<Rightarrow> raiseE e
       | None \<Rightarrow>
           (let key = (if idempotency_key = Some [] then None else idempotency_key)
            in bindE (read_cached D (ac_tenant_id auth) key) (\<lambda>cached.
                 case cached of
                   Some data \<Rightarrow>
                     (case cached_response (dp_pydantic D) data of Inl e \<Rightarrow> raiseE e | Inr res \<Rightarrow> returnE res)
                 | None \<Rightarrow> publish_new D uuid (ac_tenant_id auth) body key)))"

definition http_get_presence ::
  "('r, 'w) deps \<Rightarrow> exn + database \<Rightarrow> string \<Rightarrow> string option \<Rightarrow> (('r, 'w) world, presence_info) io" where
  "http_get_presence D db uid authorization =
     bindE (auth_http D db authorization) (\<lambda>auth.
       redisE (get_presence (dp_redis D) (ac_tenant_id auth) uid))"

definition http_list_presence ::
  "('r, 'w) deps \<Rightarrow> exn + database \<Rightarrow> string option \<Rightarrow> (('r, 'w) world, presence_info list) io" where
  "http_list_presence D db authorization =
     bindE (auth_http D db authorization) (\<lambda>auth. redisE (list_online (dp_redis D) (ac_tenant_id auth)))"

section \<open>Application state, start and shutdown\<close>

record ('r, 'w) app =
  ap_world :: "('r, 'w) world"
  ap_draining :: bool
  ap_client :: "redis_options option"
  ap_log :: log_root

definition worldE :: "(('r, 'w) world, 'a) io \<Rightarrow> (('r, 'w) app, 'a) io" where
  "worldE m a = (case m (ap_world a) of (x, w) \<Rightarrow> (x, a\<lparr>ap_world := w\<rparr>))"

definition logE :: "(log_root, 'a) io \<Rightarrow> (('r, 'w) app, 'a) io" where
  "logE m a = (case m (ap_log a) of (x, l) \<Rightarrow> (x, a\<lparr>ap_log := l\<rparr>))"

text \<open>A call of the registrar, whose Redis errors it suppresses itself.\<close>

definition registrarE ::
  "('r, 'w) deps \<Rightarrow> ('r \<Rightarrow> node_registrar \<times> 'r) \<Rightarrow> (('r, 'w) app, node_registrar) io" where
  "registrarE D f = worldE (redisE (\<lambda>r. case f r of (n, r') \<Rightarrow> (Inr n, r')))"

definition drain_connections :: "('r, 'w) deps \<Rightarrow> (('r, 'w) world, unit) io" where
  "drain_connections D =
     bindE (getE (\<lambda>w. all_connections (w_reg w))) (\<lambda>conns.
       forE conns (\<lambda>ws.
         thenE (suppressE (send_frame (dp_ws D) (dp_pydantic D) ws (DisconnectFrame ''NODE_DRAINING'')))
               (suppressE (close_ws (dp_ws D) ws (Some 4503)))))"

text \<open>The part of \<open>lifespan\<close> before \<open>yield\<close>, which returns the registrar, and the part after it.  The
  channels of all tasks ever started contain the keys of the listener dict.\<close>

definition lifespan_start :: "('r, 'w) deps \<Rightarrow> (('r, 'w) app, node_registrar) io" where
  "lifespan_start D =
     thenE (logE (configure_logging ''INFO''))
    (thenE (modifyE (\<lambda>a. a\<lparr>ap_client := snd (get_redis (dp_cfg D) (ap_client a))\<rparr>))
    (bindE (getE (\<lambda>a. active_count (w_reg (ap_world a)))) (\<lambda>active.
     bindE (registrarE D (node_start (dp_redis D) (dp_float D) (dp_cfg D) active (new_registrar (node_id (dp_cfg D))))) (\<lambda>n.
     thenE (modifyE (\<lambda>a. a\<lparr>ap_draining := False\<rparr>)) (returnE n)))))"

definition lifespan_stop :: "('r, 'w) deps \<Rightarrow> node_registrar \<Rightarrow> (('r, 'w) app, node_registrar) io" where
  "lifespan_stop D registrar =
     thenE (modifyE (\<lambda>a. a\<lparr>ap_draining := True\<rparr>))
    (bindE (getE (\<lambda>a. active_count (w_reg (ap_world a)))) (\<lambda>active.
     bindE (registrarE D (mark_draining (dp_redis D) (dp_float D) (dp_cfg D) active registrar)) (\<lambda>n.
     thenE (worldE (drain_connections D))
    (thenE (worldE (subsE (\<lambda>m. sub_shutdown (remdups (map lt_channel (sm_tasks m))) m)))
    (bindE (registrarE D (node_stop (dp_redis D) n)) (\<lambda>n'.
     thenE (modifyE (\<lambda>a. a\<lparr>ap_client := close_redis (ap_client a)\<rparr>)) (returnE n')))))))"

definition websocket_endpoint ::
  "('r, 'w) deps \<Rightarrow> exn + database \<Rightarrow> nat \<Rightarrow> nat \<Rightarrow> string \<Rightarrow> string \<Rightarrow> (('r, 'w) app, unit option) io" where
  "websocket_endpoint D db fuel ws session_uuid conn_hex =
     bindE (getE ap_draining) (\<lambda>draining.
       if draining then thenE (worldE (close_ws (dp_ws D) ws (Some 4503))) (returnE (Some ()))
       else worldE (handle_connection D db fuel ws session_uuid conn_hex))"

section \<open>Operational API\<close>

definition health_live :: "settings \<Rightarrow> json" where
  "health_live cfg = JObj [(''status'', JStr ''alive''), (''node_id'', JStr (node_id cfg))]"

text \<open>\<open>type(e).__name__\<close>.\<close>

fun exn_name :: "exn \<Rightarrow> string" where
  "exn_name RedisConnectionError = ''ConnectionError''"
| "exn_name RedisTimeoutError = ''TimeoutError''"
| "exn_name ResponseError = ''ResponseError''"
| "exn_name (ValidationError _) = ''ValidationError''"
| "exn_name WebSocketDisconnect = ''WebSocketDisconnect''"
| "exn_name RuntimeError = ''RuntimeError''"
| "exn_name AttributeError = ''AttributeError''"
| "exn_name TypeError = ''TypeError''"
| "exn_name (KeyError _) = ''KeyError''"
| "exn_name (ValueError _) = ''ValueError''"
| "exn_name (SlowConsumerError _) = ''SlowConsumerError''"
| "exn_name (AuthenticationError _) = ''AuthenticationError''"
| "exn_name (HTTPException _ _) = ''HTTPException''"
| "exn_name IntegrityError = ''IntegrityError''"
| "exn_name DataError = ''DataError''"
| "exn_name AsyncTimeout = ''TimeoutError''"

text \<open>The status code and the body.\<close>

definition health_ready :: "('r, 'w) deps \<Rightarrow> (('r, 'w) app, int \<times> json) io" where
  "health_ready D =
     bindE (catchE (thenE (worldE (redisE (rcall (dp_redis D) RPING))) (returnE ''ok''))
                   (\<lambda>e. returnE (''error: '' @ exn_name e))) (\<lambda>check.
     bindE (getE ap_draining) (\<lambda>draining.
       let ready = (check = ''ok'' \<and> \<not> draining)
       in returnE (if ready then 200 else 503,
            JObj [(''ready'', JBool ready), (''checks'', JObj [(''redis'', JStr check)]), (''draining'', JBool draining)])))"

definition live_conns :: "('r, 'w) world \<Rightarrow> connection list" where
  "live_conns w = List.map_filter (w_heap w) (all_connections (w_reg w))"

definition metrics_endpoint :: "(('r, 'w) world, string) io" where
  "metrics_endpoint =
     bindE (getE (\<lambda>w. active_count (w_reg w))) (\<lambda>active.
     bindE (getE live_conns) (\<lambda>conns.
     thenE (metric_set ''relay_connections_active'' active)
    (thenE (metric_set ''relay_queue_depth'' (\<Sum>c \<leftarrow> conns. queue_depth c))
    (thenE (metric_set ''relay_queue_bytes'' (\<Sum>c \<leftarrow> conns. queue_bytes c))
    (thenE (metric_set ''relay_presence_users'' (int (length (remdups (List.map_filter user_id conns)))))
           (getE (\<lambda>w. render_metrics (w_metrics w))))))))"

section \<open>Redis calls of the endpoints\<close>

text \<open>Other clients never take a publication back.\<close>

definition published_rely :: "(rdb \<Rightarrow> rdb \<Rightarrow> bool) \<Rightarrow> bool" where
  "published_rely rely = (\<forall>d d'. rely d d' \<longrightarrow> set (rpublished d) \<subseteq> set (rpublished d'))"

lemma published_rely_eq [simp]: "published_rely (=)"
  by (simp add: published_rely_def)

context redis_service
begin

text \<open>A read leaves everything to the other clients.\<close>

lemma get_steps:
  assumes "rcall X (GET k) s = (x, s')"
  shows "rely\<^sup>*\<^sup>* (db s) (db s')"
proof -
  have "rely\<^sup>*\<^sup>* (db s) (db (snd (rcall X (GET k) s)))"
    by (rule rcall_inv [where I = "rely\<^sup>*\<^sup>* (db s)"]) auto
  then show ?thesis by (simp add: assms)
qed

lemma get_reply:
  assumes "key_rely rely k" and "rcall X (GET k) s = (Inr r, s')"
  obtains t where "rclock X s \<le> t" "t \<le> rclock X s'"
    "r = (case lookup_at t (db s) k of None \<Rightarrow> RNil | Some (RString v, _) \<Rightarrow> RBulk v | Some _ \<Rightarrow> RErr)"
proof -
  have "written (GET k) = {}" by simp
  from rcall_read [OF assms(1) this assms(2)] obtain t d d' where "rclock X s \<le> t" "t \<le> rclock X s'"
    "rkeys d k = rkeys (db s) k" "redis_ok t (GET k) d r d'" by metis
  with lookup_frame [of d k "db s" t] show thesis by (intro that) simp_all
qed

lemma get_error:
  assumes "key_rely rely k" and "rcall X (GET k) s = (Inl e, s')" and "rkeys (db s) k = Some (RString v, dl)"
  shows "e \<in> {RedisConnectionError, RedisTimeoutError}"
proof -
  have "rexec X [GET k] s = (Inl e, s') \<or> (\<exists>rs. rexec X [GET k] s = (Inr rs, s') \<and> RErr \<in> set rs)"
    using assms(2) by (auto simp: rcall_def io_run_iffs pipeline_Inl_iff)
  moreover have "RErr \<notin> set rs" if run: "rexec X [GET k] s = (Inr rs, s')" for rs
  proof -
    from exec_ok [OF run] obtain t d d' where d: "(attempt rely (rclock X s) (rclock X s') [GET k])\<^sup>*\<^sup>* (db s) d"
      and ok: "redis_txn t [GET k] d rs d'" by blast
    have "rkeys d k = rkeys (db s) k"
      by (rule attempts_inv [OF d, where I = "\<lambda>d. rkeys d k = rkeys (db s) k"])
        (use assms(1) in \<open>auto simp: key_rely_def\<close>)
    with ok assms(3) show ?thesis by (auto simp: lookup_at_def)
  qed
  ultimately show ?thesis using exec_error by blast
qed

lemma set_slot:
  assumes "key_rely rely k" and "rcall X (SET k v (Some n)) s = (Inr r, s')"
  obtains t where "rclock X s \<le> t" "rkeys (db s') k = Some (RString v, Some (t + of_int n))"
proof -
  from assms(2) obtain t d d' where "rclock X s \<le> t" "redis_ok t (SET k v (Some n)) d r d'" "rely d' (db s')" "r \<noteq> RErr"
    by (metis rcall_ok)
  with assms(1) show thesis by (intro that [of t]) (auto simp: key_rely_def split: if_splits)
qed

lemma publish_announced:
  assumes "published_rely rely" and "publish_message X F P cfg stf mid ch p s = (Inr res, s')"
  shows "pr_message_id res = mid \<and>
    (\<exists>t. (pubsub_channel_key ch, envelope P stf mid ch (pr_sequence res) p t) \<in> set (rpublished (db s')))"
proof -
  from assms(2) obtain q t r s2 where c: "rcall X (PUBLISH (pubsub_channel_key ch) (envelope P stf mid ch q p t)) s2 = (Inr r, s')"
    and res: "res = \<lparr>pr_message_id = mid, pr_sequence = q\<rparr>"
    by (auto simp: publish_message_def io_run_iffs)
  from c obtain u d d' where "redis_ok u (PUBLISH (pubsub_channel_key ch) (envelope P stf mid ch q p t)) d r d'" "rely d' (db s')"
    by (metis rcall_ok)
  with assms(1) res show ?thesis by (force simp: published_rely_def)
qed

lemma publish_error:
  assumes "publish_message X F P cfg stf mid ch p s = (Inl e, s')"
  shows "e \<in> {RedisConnectionError, RedisTimeoutError, ResponseError}"
proof -
  have int: "e = ResponseError" if "int_reply r s = (Inl e, s')" for r s s' using that by (cases r) (simp_all add: int_reply_def)
  from assms show ?thesis
    by (auto simp: publish_message_def allocate_sequence_def append_to_channel_buffer_def Let_def io_run_iffs
        dest!: rcall_error int)
qed

end

section \<open>Outcomes of a publish request\<close>

definition http_of :: "exn \<Rightarrow> exn" where
  "http_of e = (if e = RedisConnectionError then HTTPException 503 ''REDIS_UNAVAILABLE'' else e)"

lemma unavailable_run:
  "unavailable (redisE m) w = (map_sum http_of id (fst (m (w_redis w))), w\<lparr>w_redis := snd (m (w_redis w))\<rparr>)"
  by (cases "m (w_redis w)") (auto simp: unavailable_def catchE_def redisE_run http_of_def split: sum.split)

lemma auth_http_state: "snd (auth_http D tbl h w) = w"
  by (auto simp: auth_http_def authenticate_json_def catchE_def split: option.split sum.split exn.split)

lemma auth_http_Inr:
  assumes "auth_http D tbl h w = (Inr a, w')"
  obtains d token where "tbl = Inr d" "h = Some (''Bearer '' @ token)" "authenticate_token (dp_sha256 D) d token = Inr a"
proof -
  from assms obtain b where b: "h = Some b" "startswith b ''Bearer ''"
    and r: "catchE (authenticate_json D tbl (JStr (removeprefix ''Bearer '' b)))
        (\<lambda>e. case e of AuthenticationError m \<Rightarrow> raiseE (HTTPException 401 m) | _ \<Rightarrow> raiseE e) w = (Inr a, w')"
    by (auto simp: auth_http_def split: option.splits if_splits)
  from b(2) obtain token where t: "b = ''Bearer '' @ token" by (auto simp: startswith_iff)
  have "authenticate_json D tbl (JStr token) w = (Inr a, w')"
    using r removeprefix_append [of "''Bearer ''" token]
    by (auto simp: t catchE_def split: prod.splits sum.splits exn.splits)
  from authenticate_json_Inr [OF this] b(1) t that show thesis by auto
qed

lemma auth_http_error:
  assumes "auth_http D tbl h w = (Inl (HTTPException c m), w')" and "\<forall>c m. tbl \<noteq> Inl (HTTPException c m)"
  shows "c = 401"
  using assms
  by (auto simp: auth_http_def authenticate_json_def authenticate_token_def catchE_def
      split: option.splits if_splits sum.splits exn.splits list.splits)

lemma check_publish_None_iff:
  "check_publish cfg tid body = None \<longleftrightarrow>
     validate_channel_name (rq_channel body) = Inr (rq_channel body) \<and> channel_belongs_to_tenant (rq_channel body) tid \<and>
     int (utf8_size (json_dumps (JObj (rq_payload body)))) \<le> max_message_size_bytes cfg"
  by (auto simp: check_publish_def split: sum.splits exn.splits if_splits dest: validate_channel_name_same)

lemma check_publish_Some:
  assumes "check_publish cfg tid body = Some e"
  obtains m where "e = HTTPException 400 m" | "e = HTTPException 403 ''CHANNEL_FORBIDDEN''" | "e = HTTPException 413 ''MESSAGE_TOO_LARGE''"
  using assms validate_channel_name_error [of "rq_channel body"]
  by (auto simp: check_publish_def split: sum.splits exn.splits if_splits)

lemma cached_response_text:
  assumes "pydantic_lib P"
  shows "cached_response P (response_text res) = Inr \<lparr>rs_message_id = pr_message_id res, rs_sequence = pr_sequence res\<rparr>"
    and "response_text res \<noteq> []"
proof -
  let ?j = "JObj [(''message_id'', JStr (pr_message_id res)), (''sequence'', JInt (pr_sequence res))]"
  have wf: "wf_json ?j" by simp
  show "response_text res \<noteq> []" unfolding response_text_def by (rule json_dumps_not_Nil [OF wf])
  show "cached_response P (response_text res) = Inr \<lparr>rs_message_id = pr_message_id res, rs_sequence = pr_sequence res\<rparr>"
    using loads_json_dumps [OF wf]
    by (simp add: cached_response_def response_text_def field_str_def field_int_def jget_def
        pydantic_lib.str_ok [OF assms] pydantic_lib.int_ok [OF assms])
qed

text \<open>The branches of the endpoint; \<open>k\<close> is the key when the header is there and not empty.\<close>

lemma publish_cases:
  assumes "publish D tbl u body h key w = (x, w')" and "k = (if key = Some [] then None else key)"
  obtains (unauthorized) e where "auth_http D tbl h w = (Inl e, w)" "x = Inl e" "w' = w"
  | (rejected) a e where "auth_http D tbl h w = (Inr a, w)" "check_publish (dp_cfg D) (ac_tenant_id a) body = Some e" "x = Inl e" "w' = w"
  | (unread) a e where "auth_http D tbl h w = (Inr a, w)" "check_publish (dp_cfg D) (ac_tenant_id a) body = None"
      "read_cached D (ac_tenant_id a) k w = (Inl e, w')" "x = Inl e"
  | (cached) a data where "auth_http D tbl h w = (Inr a, w)" "check_publish (dp_cfg D) (ac_tenant_id a) body = None"
      "read_cached D (ac_tenant_id a) k w = (Inr (Some data), w')" "x = cached_response (dp_pydantic D) data"
  | (new) a w1 where "auth_http D tbl h w = (Inr a, w)" "check_publish (dp_cfg D) (ac_tenant_id a) body = None"
      "read_cached D (ac_tenant_id a) k w = (Inr None, w1)" "publish_new D u (ac_tenant_id a) body k w1 = (x, w')"
proof -
  obtain y where y: "auth_http D tbl h w = (y, w)" using auth_http_state [of D tbl h w] by (metis prod.collapse)
  show thesis
  proof (cases y)
    case (Inl e)
    with y assms(1) show thesis by (intro unauthorized) (auto simp: publish_def bindE_def)
  next
    case (Inr a)
    note au = y [unfolded Inr]
    show thesis
    proof (cases "check_publish (dp_cfg D) (ac_tenant_id a) body")
      case (Some e)
      with au assms(1) show thesis by (intro rejected [of a e]) (auto simp: publish_def bindE_def)
    next
      case None
      let ?rest = "\<lambda>cached. case cached of
          Some data \<Rightarrow> (case cached_response (dp_pydantic D) data of Inl e \<Rightarrow> raiseE e | Inr res \<Rightarrow> returnE res)
        | None \<Rightarrow> publish_new D u (ac_tenant_id a) body k"
      have "bindE (read_cached D (ac_tenant_id a) k) ?rest w = (x, w')"
        using au assms(1) None unfolding assms(2) by (simp add: publish_def bindE_Inr Let_def split del: if_split)
      then show thesis
      proof (cases rule: bindE_cases)
        case (1 e)
        with au None show thesis by (intro unread)
      next
        case (2 c w1)
        show thesis
        proof (cases c)
          case (Some data)
          with 2 au None show thesis by (intro cached [of a data]) (auto split: sum.splits)
        qed (use 2 au None in \<open>intro new [of a w1], auto\<close>)
      qed
    qed
  qed
qed

lemma read_cached_run:
  assumes "read_cached D tid (Some k) w = (y, w1)"
  obtains z s1 where "rcall (dp_redis D) (GET (idempotency_redis_key tid k)) (w_redis w) = (z, s1)" "w1 = w\<lparr>w_redis := s1\<rparr>"
    "y = (case z of
            Inl e \<Rightarrow> Inl (http_of e)
          | Inr RNil \<Rightarrow> Inr None
          | Inr (RBulk v) \<Rightarrow> Inr (if v = [] then None else Some v)
          | Inr _ \<Rightarrow> Inl ResponseError)"
proof -
  obtain z s1 where "rcall (dp_redis D) (GET (idempotency_redis_key tid k)) (w_redis w) = (z, s1)" by fastforce
  with assms show thesis
    by (intro that [of z s1])
      (auto simp: read_cached_def unavailable_run bindE_def string_reply_def http_of_def split: sum.splits rreply.splits)
qed

lemma publish_new_Inr:
  assumes "publish_new D u tid body key w = (Inr r, w')"
  obtains res s1 where "publish_call D u body (w_redis w) = (Inr res, s1)"
    "r = \<lparr>rs_message_id = pr_message_id res, rs_sequence = pr_sequence res\<rparr>"
    "w_metrics w' = (w_metrics w)(''relay_messages_received_total'' := metric_plus (w_metrics w ''relay_messages_received_total'') 1)"
    "case key of
       None \<Rightarrow> w_redis w' = s1
     | Some k \<Rightarrow> \<exists>y. rcall (dp_redis D) (SET (idempotency_redis_key tid k) (response_text res)
                                         (Some (idempotency_ttl_seconds (dp_cfg D)))) s1 = (Inr y, w_redis w')"
proof -
  obtain x s1 where p: "publish_call D u body (w_redis w) = (x, s1)" by fastforce
  with assms obtain res where res: "x = Inr res" by (cases x) (auto simp: publish_new_def unavailable_run bindE_def)
  show thesis by (rule that [OF p [unfolded res]])
    (use assms p res in \<open>auto simp: publish_new_def unavailable_run bindE_def thenE_def metric_add_def redisE_def
       split: option.splits sum.splits prod.splits\<close>)
qed

lemma publish_new_Inl:
  assumes "redis_service (dp_redis D) db rely" and "publish_new D u tid body key w = (Inl (HTTPException c m), w')"
  shows "c = 503"
proof -
  obtain x s1 where p: "publish_call D u body (w_redis w) = (x, s1)" by fastforce
  show ?thesis
  proof (cases x)
    case (Inl e)
    with p redis_service.publish_error [OF assms(1)] have "e \<in> {RedisConnectionError, RedisTimeoutError, ResponseError}"
      unfolding publish_call_def by metis
    with assms(2) p Inl show ?thesis by (auto simp: publish_new_def unavailable_run bindE_def http_of_def)
  next
    case (Inr res)
    with assms(2) p obtain k where "rcall (dp_redis D) (SET (idempotency_redis_key tid k) (response_text res)
        (Some (idempotency_ttl_seconds (dp_cfg D)))) s1 = (Inl (HTTPException c m), w_redis w')"
      by (auto simp: publish_new_def unavailable_run bindE_def thenE_def metric_add_def redisE_def
          split: option.splits sum.splits prod.splits)
    with redis_service.rcall_error [OF assms(1)] show ?thesis by blast
  qed
qed

lemma publish_new_slot:
  assumes "redis_service (dp_redis D) db rely" and "key_rely rely (idempotency_redis_key tid k)"
    and "publish_new D u tid body (Some k) w = (Inr r, w')"
  obtains t res where "rclock (dp_redis D) (w_redis w) \<le> t"
    "rkeys (db (w_redis w')) (idempotency_redis_key tid k) =
       Some (RString (response_text res), Some (t + of_int (idempotency_ttl_seconds (dp_cfg D))))"
    "r = \<lparr>rs_message_id = pr_message_id res, rs_sequence = pr_sequence res\<rparr>"
proof -
  obtain res s1 where pub: "publish_call D u body (w_redis w) = (Inr res, s1)"
    and r: "r = \<lparr>rs_message_id = pr_message_id res, rs_sequence = pr_sequence res\<rparr>"
    and "case Some k of None \<Rightarrow> w_redis w' = s1
       | Some k \<Rightarrow> \<exists>y. rcall (dp_redis D) (SET (idempotency_redis_key tid k) (response_text res)
                                         (Some (idempotency_ttl_seconds (dp_cfg D)))) s1 = (Inr y, w_redis w')"
    by (rule publish_new_Inr [OF assms(3)])
  then obtain y where set: "rcall (dp_redis D) (SET (idempotency_redis_key tid k) (response_text res)
        (Some (idempotency_ttl_seconds (dp_cfg D)))) s1 = (Inr y, w_redis w')" by auto
  have "rclock (dp_redis D) (w_redis w) \<le> rclock (dp_redis D) s1"
    using clockedD [OF redis_service.publish_message_clock [OF assms(1)]] pub unfolding publish_call_def by blast
  moreover obtain t where "rclock (dp_redis D) s1 \<le> t"
    "rkeys (db (w_redis w')) (idempotency_redis_key tid k) =
       Some (RString (response_text res), Some (t + of_int (idempotency_ttl_seconds (dp_cfg D))))"
    by (rule redis_service.set_slot [OF assms(1,2) set])
  ultimately show thesis using that r by (metis order_trans)
qed

lemma publish_new_clock:
  assumes "redis_service (dp_redis D) db rely" and "publish_new D u tid body key w = (x, w')"
  shows "rclock (dp_redis D) (w_redis w) \<le> rclock (dp_redis D) (w_redis w')"
proof -
  obtain y s1 where p: "publish_call D u body (w_redis w) = (y, s1)" by fastforce
  have c1: "rclock (dp_redis D) (w_redis w) \<le> rclock (dp_redis D) s1"
    using clockedD [OF redis_service.publish_message_clock [OF assms(1)]] p unfolding publish_call_def by blast
  have c2: "rclock (dp_redis D) s1 \<le> rclock (dp_redis D) s2" if "rcall (dp_redis D) c s1 = (z, s2)" for c z s2
    using redis_service.rcall_clock [OF assms(1), of s1 c] that by simp
  show ?thesis
  proof (cases y)
    case (Inl e)
    with assms(2) p c1 show ?thesis by (auto simp: publish_new_def unavailable_run bindE_def)
  next
    case (Inr res)
    with assms(2) p c1 order_trans [OF c1 c2] show ?thesis
      by (auto simp: publish_new_def unavailable_run bindE_def thenE_def metric_add_def redisE_def
          split: option.splits sum.splits prod.splits)
  qed
qed

text \<open>A key that is not there is not read.\<close>

lemma read_cached_none:
  assumes "redis_service (dp_redis D) db rely" and "key_rely rely (idempotency_redis_key tid k)"
    and "lookup_at (rclock (dp_redis D) (w_redis w)) (db (w_redis w)) (idempotency_redis_key tid k) = None"
    and "read_cached D tid (Some k) w = (Inr c, w1)"
  shows "c = None \<and> rclock (dp_redis D) (w_redis w) \<le> rclock (dp_redis D) (w_redis w1)"
proof -
  obtain z s1 where get: "rcall (dp_redis D) (GET (idempotency_redis_key tid k)) (w_redis w) = (z, s1)"
    and w1: "w1 = w\<lparr>w_redis := s1\<rparr>"
    and c: "Inr c = (case z of Inl e \<Rightarrow> Inl (http_of e) | Inr RNil \<Rightarrow> Inr None
        | Inr (RBulk v) \<Rightarrow> Inr (if v = [] then None else Some v) | Inr _ \<Rightarrow> Inl ResponseError)"
    by (rule read_cached_run [OF assms(4)])
  from c obtain x where z: "z = Inr x" by (cases z) auto
  obtain t where t: "rclock (dp_redis D) (w_redis w) \<le> t" "t \<le> rclock (dp_redis D) s1"
    and x: "x = (case lookup_at t (db (w_redis w)) (idempotency_redis_key tid k) of
        None \<Rightarrow> RNil | Some (RString v, _) \<Rightarrow> RBulk v | Some _ \<Rightarrow> RErr)"
    by (rule redis_service.get_reply [OF assms(1,2) get [unfolded z]])
  have "x = RNil" using x lookup_None_mono [OF assms(3) t(1)] by simp
  with c z t w1 show ?thesis by simp
qed

text \<open>A live result is read as it was written, or the call fails as Redis did.\<close>

lemma read_cached_live:
  assumes "redis_service (dp_redis D) db rely" and "key_rely rely (idempotency_redis_key tid k)"
    and "rkeys (db (w_redis w)) (idempotency_redis_key tid k) = Some (RString v, Some dl)" and "v \<noteq> []"
    and "read_cached D tid (Some k) w = (y, w1)" and "rclock (dp_redis D) (w_redis w1) < dl"
  shows "y \<in> {Inr (Some v), Inl (HTTPException 503 ''REDIS_UNAVAILABLE''), Inl RedisTimeoutError} \<and>
    rely\<^sup>*\<^sup>* (db (w_redis w)) (db (w_redis w1)) \<and> w_metrics w1 = w_metrics w"
proof -
  obtain z s1 where get: "rcall (dp_redis D) (GET (idempotency_redis_key tid k)) (w_redis w) = (z, s1)"
    and w1: "w1 = w\<lparr>w_redis := s1\<rparr>"
    and y: "y = (case z of Inl e \<Rightarrow> Inl (http_of e) | Inr RNil \<Rightarrow> Inr None
        | Inr (RBulk v) \<Rightarrow> Inr (if v = [] then None else Some v) | Inr _ \<Rightarrow> Inl ResponseError)"
    by (rule read_cached_run [OF assms(5)])
  have "y \<in> {Inr (Some v), Inl (HTTPException 503 ''REDIS_UNAVAILABLE''), Inl RedisTimeoutError}"
  proof (cases z)
    case (Inl e)
    from redis_service.get_error [OF assms(1,2) get [unfolded Inl] assms(3)] y Inl show ?thesis by (auto simp: http_of_def)
  next
    case (Inr x)
    obtain t where t: "t \<le> rclock (dp_redis D) s1"
      and x: "x = (case lookup_at t (db (w_redis w)) (idempotency_redis_key tid k) of
          None \<Rightarrow> RNil | Some (RString v, _) \<Rightarrow> RBulk v | Some _ \<Rightarrow> RErr)"
      by (rule redis_service.get_reply [OF assms(1,2) get [unfolded Inr]])
    have "x = RBulk v" using x t assms(3,6) w1 by (simp add: lookup_at_def)
    with y Inr assms(4) show ?thesis by simp
  qed
  moreover have "rely\<^sup>*\<^sup>* (db (w_redis w)) (db (w_redis w1))"
    using redis_service.get_steps [OF assms(1) get] w1 by simp
  ultimately show ?thesis using w1 by simp
qed

section \<open>Properties\<close>

text \<open>C9: Idempotent publish.  A publish request with a new idempotency key that was answered with \<open>r\<close> can
  be repeated, on this node or another, until the time to live of the key has passed since the first
  request began: whatever happened to the rest of Redis in between, whatever other clients do meanwhile
  and however the calls fail, the second request is answered with the same \<open>r\<close>, or with an error,
  and it publishes nothing: it changes neither Redis nor the metrics.\<close>

theorem publish_idempotent:
  assumes "redis_service (dp_redis D) db rely" and "pydantic_lib (dp_pydantic D)"
    and "key_rely rely (idempotency_redis_key tid k)" and "k \<noteq> []"
    and "fst (auth_http D tbl h w) = Inr a" and "ac_tenant_id a = tid"
    and "lookup_at (rclock (dp_redis D) (w_redis w)) (db (w_redis w)) (idempotency_redis_key tid k) = None"
    and "publish D tbl u body h (Some k) w = (Inr r, w1)"
    and "rkeys (db (w_redis w2)) (idempotency_redis_key tid k) = rkeys (db (w_redis w1)) (idempotency_redis_key tid k)"
    and "fst (auth_http D tbl' h' w2) = Inr a'" and "ac_tenant_id a' = tid"
    and "publish D tbl' u' body h' (Some k) w2 = (x, w3)"
    and "rclock (dp_redis D) (w_redis w3) < rclock (dp_redis D) (w_redis w) + of_int (idempotency_ttl_seconds (dp_cfg D))"
  shows "x \<in> {Inr r, Inl (HTTPException 503 ''REDIS_UNAVAILABLE''), Inl RedisTimeoutError} \<and>
    rely\<^sup>*\<^sup>* (db (w_redis w2)) (db (w_redis w3)) \<and> w_metrics w3 = w_metrics w2"
proof -
  let ?K = "idempotency_redis_key tid k"
  have key: "Some k = (if Some k = Some [] then None else Some k)" using assms(4) by simp
  obtain w0 where chk: "check_publish (dp_cfg D) tid body = None"
    and w0: "rclock (dp_redis D) (w_redis w) \<le> rclock (dp_redis D) (w_redis w0)"
    "publish_new D u tid body (Some k) w0 = (Inr r, w1)"
    using assms(8) key
  proof (cases rule: publish_cases)
    case (cached b data)
    with assms(5,6) read_cached_none [OF assms(1,3,7), of "Some data" w1] show thesis by auto
  next
    case (new b w0)
    with assms(5,6) read_cached_none [OF assms(1,3,7), of None w0] show thesis by (intro that [of w0]) auto
  qed (use assms(5,6) in auto)
  obtain t res where t: "rclock (dp_redis D) (w_redis w0) \<le> t"
    and slot: "rkeys (db (w_redis w1)) ?K = Some (RString (response_text res), Some (t + of_int (idempotency_ttl_seconds (dp_cfg D))))"
    and r: "r = \<lparr>rs_message_id = pr_message_id res, rs_sequence = pr_sequence res\<rparr>"
    by (rule publish_new_slot [OF assms(1,3) w0(2)])
  note resp = cached_response_text [OF assms(2), of res]
  have slot2: "rkeys (db (w_redis w2)) ?K = Some (RString (response_text res), Some (t + of_int (idempotency_ttl_seconds (dp_cfg D))))"
    using slot assms(9) by simp
  note live = read_cached_live [OF assms(1,3) slot2 resp(2)]
  from assms(12) key show ?thesis
  proof (cases rule: publish_cases)
    case (unauthorized e)
    then show ?thesis using assms(10) by simp
  next
    case (rejected b e)
    then show ?thesis using assms(10,11) chk by simp
  next
    case (unread b e)
    then show ?thesis using live [of "Inl e" w3] assms(10,11,13) w0(1) t by auto
  next
    case (cached b data)
    then show ?thesis using live [of "Inr (Some data)" w3] assms(10,11,13) w0(1) t resp r by auto
  next
    case (new b w4)
    have "rclock (dp_redis D) (w_redis w4) \<le> rclock (dp_redis D) (w_redis w3)" by (rule publish_new_clock [OF assms(1) new(4)])
    then show ?thesis using new live [of "Inr None" w4] assms(10,11,13) w0(1) t by auto
  qed
qed

lemma publish_Inr_announced:
  assumes "redis_service (dp_redis D) db rely" and "published_rely rely" and "publish_new D u tid body k w = (Inr r, w')"
  shows "rs_message_id r = u \<and>
    metric_value (w_metrics w' ''relay_messages_received_total'') = metric_value (w_metrics w ''relay_messages_received_total'') + 1 \<and>
    (\<exists>t. (pubsub_channel_key (rq_channel body),
          envelope (dp_pydantic D) (dp_strftime D) u (rq_channel body) (rs_sequence r) (JObj (rq_payload body)) t)
         \<in> set (rpublished (db (w_redis w'))))"
proof -
  obtain res s1 where pub: "publish_call D u body (w_redis w) = (Inr res, s1)"
    and r: "r = \<lparr>rs_message_id = pr_message_id res, rs_sequence = pr_sequence res\<rparr>"
    and m: "w_metrics w' = (w_metrics w)(''relay_messages_received_total'' := metric_plus (w_metrics w ''relay_messages_received_total'') 1)"
    and fin: "case k of None \<Rightarrow> w_redis w' = s1
       | Some k \<Rightarrow> \<exists>y. rcall (dp_redis D) (SET (idempotency_redis_key tid k) (response_text res)
                                         (Some (idempotency_ttl_seconds (dp_cfg D)))) s1 = (Inr y, w_redis w')"
    by (rule publish_new_Inr [OF assms(3)])
  have "set (rpublished (db s1)) \<subseteq> set (rpublished (db (w_redis w')))"
  proof (cases k)
    case (Some k')
    with fin obtain c y where c: "rcall (dp_redis D) c s1 = (y, w_redis w')" and np: "\<And>ch m. c \<noteq> PUBLISH ch m" by auto
    have "set (rpublished (db s1)) \<subseteq> set (rpublished (db (snd (rcall (dp_redis D) c s1))))"
      by (rule redis_service.rcall_inv [OF assms(1), where I = "\<lambda>d. set (rpublished (db s1)) \<subseteq> set (rpublished d)"])
        (use assms(2) redis_ok_published [OF _ np] in \<open>auto simp: published_rely_def\<close>)
    then show ?thesis by (simp add: c)
  qed (use fin in simp)
  moreover note redis_service.publish_announced [OF assms(1,2) pub [unfolded publish_call_def]]
  moreover have "metric_value (metric_plus y n) = metric_value y + n" for y n by (cases y) simp_all
  ultimately show ?thesis using r m by auto
qed

lemma read_cached_key: "read_cached D tid k w = (y, w1) \<Longrightarrow> y \<noteq> Inr None \<Longrightarrow> \<exists>k'. k = Some k'"
  by (cases k) (auto simp: read_cached_def)

lemma read_cached_error:
  assumes "redis_service (dp_redis D) db rely" and "read_cached D tid k w = (Inl e, w')"
  shows "e \<in> {HTTPException 503 ''REDIS_UNAVAILABLE'', RedisTimeoutError, ResponseError}"
proof -
  from read_cached_key [OF assms(2)] obtain k' where k: "k = Some k'" by blast
  obtain z s1 where "rcall (dp_redis D) (GET (idempotency_redis_key tid k')) (w_redis w) = (z, s1)"
    and "Inl e = (case z of Inl e \<Rightarrow> Inl (http_of e) | Inr RNil \<Rightarrow> Inr None
      | Inr (RBulk v) \<Rightarrow> Inr (if v = [] then None else Some v) | Inr _ \<Rightarrow> Inl ResponseError)"
    by (rule read_cached_run [OF assms(2) [unfolded k]])
  then show ?thesis using redis_service.rcall_error [OF assms(1), of _ "w_redis w" _ s1]
    by (cases z) (auto simp: http_of_def split: rreply.splits if_splits)
qed

text \<open>C13: Outcomes of a publish request.  A request that is answered with a result carried the token of an
  active key, a valid channel name in the namespace of the tenant of that key, and a payload within the
  size limit; and the message is really announced on Redis, under the id and the number in the answer,
  or the answer is the stored one of an earlier request with the same idempotency key.  Every other
  answer is an error: 400, 401, 403 or 413 before anything was changed, or 503 when Redis is
  unavailable.\<close>

theorem publish_outcomes:
  assumes "redis_service (dp_redis D) db rely" and "published_rely rely" and "\<forall>c m. tbl \<noteq> Inl (HTTPException c m)"
    and "publish D tbl u body h key w = (x, w')"
  shows "(\<forall>r. x = Inr r \<longrightarrow>
      (\<exists>d token a. tbl = Inr d \<and> h = Some (''Bearer '' @ token) \<and> authenticate_token (dp_sha256 D) d token = Inr a \<and>
         channel_belongs_to_tenant (rq_channel body) (ac_tenant_id a) \<and>
         validate_channel_name (rq_channel body) = Inr (rq_channel body) \<and>
         int (utf8_size (json_dumps (JObj (rq_payload body)))) \<le> max_message_size_bytes (dp_cfg D) \<and>
         (rs_message_id r = u \<and>
          (\<exists>t. (pubsub_channel_key (rq_channel body),
                envelope (dp_pydantic D) (dp_strftime D) u (rq_channel body) (rs_sequence r) (JObj (rq_payload body)) t)
               \<in> set (rpublished (db (w_redis w')))) \<or>
          (\<exists>k data. key = Some k \<and> k \<noteq> [] \<and> read_cached D (ac_tenant_id a) key w = (Inr (Some data), w') \<and>
             cached_response (dp_pydantic D) data = Inr r)))) \<and>
    (\<forall>c m. x = Inl (HTTPException c m) \<longrightarrow> c = 503 \<or> c \<in> {400, 401, 403, 413} \<and> w' = w)"
proof -
  let ?k = "if key = Some [] then None else key"
  have "?k = (if key = Some [] then None else key)" ..
  with assms(4) show ?thesis
  proof (cases rule: publish_cases)
    case (unauthorized e)
    then have "e = HTTPException c m \<Longrightarrow> c = 401" for c m using auth_http_error [OF _ assms(3)] by blast
    with unauthorized show ?thesis by auto
  next
    case (rejected a e)
    then show ?thesis by (auto elim!: check_publish_Some)
  next
    case (unread a e)
    with read_cached_error [OF assms(1) unread(3)] show ?thesis by auto
  next
    case (cached a data)
    from read_cached_key [OF cached(3)] obtain k where k: "key = Some k" "k \<noteq> []" by (auto split: if_splits)
    obtain d token where "tbl = Inr d" "h = Some (''Bearer '' @ token)" "authenticate_token (dp_sha256 D) d token = Inr a"
      by (rule auth_http_Inr [OF cached(1)])
    moreover have "cached_response (dp_pydantic D) data \<noteq> Inl (HTTPException c m)" for c m
      by (auto simp: cached_response_def field_str_def field_int_def split: option.splits json.splits)
    ultimately show ?thesis using cached k by (auto simp: check_publish_None_iff)
  next
    case (new a w1)
    obtain d token where au: "tbl = Inr d" "h = Some (''Bearer '' @ token)" "authenticate_token (dp_sha256 D) d token = Inr a"
      by (rule auth_http_Inr [OF new(1)])
    show ?thesis
    proof (cases x)
      case (Inl e)
      with new publish_new_Inl [OF assms(1)] show ?thesis by auto
    next
      case (Inr r)
      with new au publish_Inr_announced [OF assms(1,2) new(4) [unfolded Inr]]
      show ?thesis by (auto simp: check_publish_None_iff)
    qed
  qed
qed

text \<open>A request of tenant \<open>1\<close>.\<close>

definition demo_request :: publish_request where
  "demo_request = \<lparr>rq_channel = ''t-1:chat'', rq_payload = [(''n'', JInt 1)]\<rparr>"

definition demo_publish :: "string \<Rightarrow> (mem, wire) world \<Rightarrow> (exn + publish_response) \<times> (mem, wire) world" where
  "demo_publish u = publish demo_deps (Inr demo_db) u demo_request (Some ''Bearer relay_b'') (Some ''key-1'')"

lemma demo_publish_first:
  "fst (demo_publish ''m1'' (demo_world [])) = Inr \<lparr>rs_message_id = ''m1'', rs_sequence = 1\<rparr>"
  by code_simp

lemma demo_publish_second:
  "rclock mem_redis (w_redis (snd (demo_publish ''m2'' (snd (demo_publish ''m1'' (demo_world [])))))) = 0"
  by code_simp

lemma demo_auth: "fst (auth_http demo_deps (Inr demo_db) (Some ''Bearer relay_b'') w) = Inr \<lparr>ac_tenant_id = ''1'', ac_api_key_id = ''k2''\<rparr>"
  by (simp add: auth_http_def demo_deps_def startswith_def removeprefix_def authenticate_json_def truthy_def catchE_def
      authenticate_token_def auth_rows_def demo_db_def hash_api_key_def)

lemma demo_deps_ok:
  "redis_service (dp_redis demo_deps) mem_db (=)" "pydantic_lib (dp_pydantic demo_deps)"
  using faulty_mem.redis_service_axioms strict.pydantic_lib_axioms by (simp_all add: demo_deps_def)

theorem publish_idempotent_witness:
  "\<exists>x w1 w3. demo_publish ''m1'' (demo_world []) = (Inr \<lparr>rs_message_id = ''m1'', rs_sequence = 1\<rparr>, w1) \<and>
     demo_publish ''m2'' w1 = (x, w3) \<and> mem_db (w_redis w3) = mem_db (w_redis w1) \<and>
     (\<forall>r. x = Inr r \<longrightarrow> r = \<lparr>rs_message_id = ''m1'', rs_sequence = 1\<rparr>)"
proof -
  obtain w1 where w1: "demo_publish ''m1'' (demo_world []) = (Inr \<lparr>rs_message_id = ''m1'', rs_sequence = 1\<rparr>, w1)"
    using demo_publish_first by (metis prod.collapse)
  obtain x w3 where w3: "demo_publish ''m2'' w1 = (x, w3)" by fastforce
  have t: "rclock (dp_redis demo_deps) (w_redis w3) <
      rclock (dp_redis demo_deps) (w_redis (demo_world [])) + of_int (idempotency_ttl_seconds (dp_cfg demo_deps))"
    using demo_publish_second w1 w3 by (simp add: demo_deps_def demo_world_def new_world_def mem_start_def mem_redis_def)
  have new: "lookup_at (rclock (dp_redis demo_deps) (w_redis (demo_world []))) (mem_db (w_redis (demo_world [])))
      (idempotency_redis_key ''1'' ''key-1'') = None"
    by (simp add: demo_world_def new_world_def mem_start_def mem_db_def lookup_at_def)
  from publish_idempotent [OF demo_deps_ok key_rely_eq _ demo_auth _ new w1 [unfolded demo_publish_def] refl demo_auth _
      w3 [unfolded demo_publish_def] t]
  have "x \<in> {Inr \<lparr>rs_message_id = ''m1'', rs_sequence = 1\<rparr>, Inl (HTTPException 503 ''REDIS_UNAVAILABLE''), Inl RedisTimeoutError}"
    "(=)\<^sup>*\<^sup>* (mem_db (w_redis w1)) (mem_db (w_redis w3))" by simp_all
  moreover have "(=)\<^sup>*\<^sup>* = ((=) :: rdb \<Rightarrow> rdb \<Rightarrow> bool)" by (auto simp: fun_eq_iff elim: rtranclp_induct)
  ultimately show ?thesis using w1 w3 by auto
qed

theorem publish_outcomes_witness:
  "\<exists>w' t. demo_publish ''m1'' (demo_world []) = (Inr \<lparr>rs_message_id = ''m1'', rs_sequence = 1\<rparr>, w') \<and>
     (pubsub_channel_key ''t-1:chat'', envelope strict_pydantic (\<lambda>_. ''now'') ''m1'' ''t-1:chat'' 1 (JObj [(''n'', JInt 1)]) t)
       \<in> set (rpublished (mem_db (w_redis w')))"
proof -
  obtain w' where w': "demo_publish ''m1'' (demo_world []) = (Inr \<lparr>rs_message_id = ''m1'', rs_sequence = 1\<rparr>, w')"
    using demo_publish_first by (metis prod.collapse)
  have "fst (read_cached demo_deps ''1'' (Some ''key-1'') (demo_world [])) = Inr None" by code_simp
  moreover have "tenant = ''1''" if "authenticate_token (dp_sha256 demo_deps) demo_db token = Inr a" "token = ''relay_b''" "ac_tenant_id a = tenant"
    for token a tenant
    using that by (auto simp: demo_deps_def authenticate_token_def auth_rows_def demo_db_def hash_api_key_def)
  moreover note publish_outcomes [OF demo_deps_ok(1) published_rely_eq _ w' [unfolded demo_publish_def]]
  ultimately show ?thesis using w' by (force simp: demo_request_def demo_deps_def)
qed

end
