(* ===== verification/Lifecycle.thy ===== *)
theory Lifecycle
  imports Gateway
begin

text \<open>
  The life of the gateway process and its operational endpoints: what the start and the shutdown half of
  \<open>lifespan\<close> reach when nothing else runs, whatever Redis and the sockets do, what a draining gateway
  answers, and what the metrics endpoint reports about the registry.  The shutdown beside the other tasks is
  in \<open>Draining\<close>.
\<close>

section \<open>Draining the connections\<close>

text \<open>The calls a drained connection receives, on any socket library.\<close>

definition drain_socket :: "('r, 'w) deps \<Rightarrow> 'w \<Rightarrow> nat \<Rightarrow> 'w" where
  "drain_socket D v ws =
     snd (ws_exec (dp_ws D) ws (WsClose (Some 4503))
       (snd (ws_exec (dp_ws D) ws (WsSend (dump_json (dp_pydantic D) (DisconnectFrame ''NODE_DRAINING''))) v)))"

lemma suppress_ws:
  "suppressE (send_frame W P ws f) w = (Inr (), w\<lparr>w_ws := snd (ws_exec W ws (WsSend (dump_json P f)) (w_ws w))\<rparr>)"
  "suppressE (close_ws W ws code) w = (Inr (), w\<lparr>w_ws := snd (ws_exec W ws (WsClose code) (w_ws w))\<rparr>)"
  by (auto simp: suppressE_def send_frame_def close_ws_def catchE_def thenE_def bindE_def wsE_def split: prod.split sum.split)

lemma drain_connections_run:
  "drain_connections D w = (Inr (), w\<lparr>w_ws := foldl (drain_socket D) (w_ws w) (all_connections (w_reg w))\<rparr>)"
proof -
  let ?step = "\<lambda>ws. thenE (suppressE (send_frame (dp_ws D) (dp_pydantic D) ws (DisconnectFrame ''NODE_DRAINING'')))
               (suppressE (close_ws (dp_ws D) ws (Some 4503)))"
  have "forE rs ?step w = (Inr (), w\<lparr>w_ws := foldl (drain_socket D) (w_ws w) rs\<rparr>)" for rs and w :: "('a, 'b) world"
    by (induction rs arbitrary: w) (simp_all add: thenE_def bindE_def suppress_ws drain_socket_def)
  then show ?thesis by (simp add: drain_connections_def bindE_def)
qed

section \<open>Stopping the listeners\<close>

lemma nth_stop_task:
  "stop_task i ts ! j = (if j = i \<and> i < length ts then (ts ! j)\<lparr>lt_stop := True, lt_cancelled := True\<rparr> else ts ! j)"
  by (cases "i < length ts") (auto simp: stop_task_def nth_list_update list_update_beyond)

definition stop_all :: "(string \<rightharpoonup> nat) \<Rightarrow> listener_task list \<Rightarrow> string list \<Rightarrow> listener_task list" where
  "stop_all l = foldl (\<lambda>ts ch. case l ch of None \<Rightarrow> ts | Some i \<Rightarrow> stop_task i ts)"

lemma stop_all_effect:
  "length (stop_all l ts chs) = length ts \<and>
   lt_channel (stop_all l ts chs ! j) = lt_channel (ts ! j) \<and> lt_done (stop_all l ts chs ! j) = lt_done (ts ! j) \<and>
   (lt_cancelled (stop_all l ts chs ! j) \<longleftrightarrow> lt_cancelled (ts ! j) \<or> j < length ts \<and> (\<exists>c \<in> set chs. l c = Some j))"
proof (induction chs arbitrary: ts)
  case (Cons c chs)
  show ?case
  proof (cases "l c")
    case None
    then have "stop_all l ts (c # chs) = stop_all l ts chs" by (simp add: stop_all_def)
    with Cons.IH [of ts] None show ?thesis by auto
  next
    case (Some i)
    then have "stop_all l ts (c # chs) = stop_all l (stop_task i ts) chs" by (simp add: stop_all_def)
    moreover have "length (stop_task i ts) = length ts" by (simp add: stop_task_def)
    ultimately show ?thesis using Cons.IH [of "stop_task i ts"] Some by (auto simp: nth_stop_task)
  qed
qed (simp add: stop_all_def)

text \<open>After shutdown no listener runs: every running one was in the dict, under its channel.\<close>

lemma shutdown_stops_all:
  assumes "listener_inv m"
  shows "\<not> running (sub_shutdown (remdups (map lt_channel (sm_tasks m))) m) ch j"
proof
  let ?chs = "remdups (map lt_channel (sm_tasks m))"
  note eff = stop_all_effect [of "sm_listeners m" "sm_tasks m" ?chs j]
  have sh: "sm_tasks (sub_shutdown ?chs m) = stop_all (sm_listeners m) (sm_tasks m) ?chs"
    by (simp add: sub_shutdown_def stop_all_def)
  assume "running (sub_shutdown ?chs m) ch j"
  then have r: "running m ch j" and nc: "\<not> (j < length (sm_tasks m) \<and> (\<exists>c \<in> set ?chs. sm_listeners m c = Some j))"
    unfolding running_def sh using eff by simp_all
  from r assms have "sm_listeners m ch = Some j" unfolding listener_inv_def by blast
  with r nc show False by (auto simp: running_def)
qed

section \<open>Shutdown\<close>

text \<open>The state the shutdown reaches, with the two Redis calls of the registrar.\<close>

lemma registrarE_run:
  "registrarE D f a = (Inr (fst (f (w_redis (ap_world a)))), a\<lparr>ap_world := (ap_world a)\<lparr>w_redis := snd (f (w_redis (ap_world a)))\<rparr>\<rparr>)"
  by (simp add: registrarE_def worldE_def redisE_def split: prod.split)

lemma lifespan_stop_run:
  assumes "w = ap_world a"
    and "mark_draining (dp_redis D) (dp_float D) (dp_cfg D) (active_count (w_reg w)) n (w_redis w) = (n1, r1)"
    and "node_stop (dp_redis D) n1 r1 = (n2, r2)"
  shows "lifespan_stop D n a =
    (Inr n2, a\<lparr>ap_draining := True, ap_client := None,
               ap_world := w\<lparr>w_ws := foldl (drain_socket D) (w_ws w) (all_connections (w_reg w)),
                             w_subs := sub_shutdown (remdups (map lt_channel (sm_tasks (w_subs w)))) (w_subs w),
                             w_redis := r2\<rparr>\<rparr>)"
  using assms(2,3) unfolding assms(1)
  by (simp add: lifespan_stop_def thenE_def bindE_def registrarE_run worldE_def drain_connections_run subsE_def close_redis_def)

text \<open>The start always completes, whatever Redis does: the log lines are JSON from the level INFO, the pool and
  the task of the registrar exist, the gateway is not draining, and nothing else of the process changes.\<close>

lemma lifespan_start_run:
  assumes "lifespan_start D a = (x, a')"
  shows "\<exists>n. x = Inr n \<and> nr_task n \<and> nr_node_id n = node_id (dp_cfg D) \<and> \<not> ap_draining a' \<and> ap_client a' \<noteq> None \<and>
    root_handlers (ap_log a') = [format_record] \<and> root_level (ap_log a') = 20 \<and>
    (\<exists>r. ap_world a' = (ap_world a)\<lparr>w_redis := r\<rparr>)"
  using assms
  by (auto simp: lifespan_start_def logE_def configure_logging_def LEVELS_def thenE_def bindE_def registrarE_run node_start_def
      new_registrar_def get_redis_def Let_def)

context redis_calm
begin

lemma calm_node_stop: "rkeys (db (snd (node_stop X n s))) (node_key (nr_node_id n)) = None"
proof -
  obtain r s' t where "redis_ok t (DEL [node_key (nr_node_id n)]) (db s) r (db s')"
    "rcall X (DEL [node_key (nr_node_id n)]) s = (if r = RErr then Inl ResponseError else Inr r, s')" by (rule calm_call)
  then show ?thesis by (auto simp: node_stop_def suppressE_def catchE_def thenE_def bindE_def)
qed

end

text \<open>What a draining gateway answers: it closes the socket, and nothing else of the process changes.\<close>

lemma draining_refuses:
  assumes "ap_draining a"
  shows "snd (websocket_endpoint D tbl fuel ws us uc a) =
      a\<lparr>ap_world := (ap_world a)\<lparr>w_ws := snd (ws_exec (dp_ws D) ws (WsClose (Some 4503)) (w_ws (ap_world a)))\<rparr>\<rparr>"
    and "\<exists>j a'. health_ready D a = (Inr (503, j), a')"
  using assms
  by (auto simp: websocket_endpoint_def health_ready_def worldE_def close_ws_def wsE_def thenE_def bindE_def catchE_def
      Let_def split: prod.split sum.split)

section \<open>Metrics of the registry\<close>

text \<open>The endpoint reports the connections of the registry, whatever was stored before.\<close>

lemma metrics_report:
  assumes "metrics_endpoint w = (x, w')"
  shows "\<exists>text. x = Inr text \<and> scrape text ''relay_connections_active'' = [active_count (w_reg w)] \<and>
    scrape text ''relay_queue_depth'' = [\<Sum>c \<leftarrow> live_conns w. queue_depth c] \<and>
    scrape text ''relay_queue_bytes'' = [\<Sum>c \<leftarrow> live_conns w. queue_bytes c] \<and>
    (\<forall>n \<in> set COUNTERS. scrape text n = [metric_value (w_metrics w n)])"
proof -
  have "set GAUGES \<inter> set COUNTERS = {}" by (auto simp: COUNTERS_def GAUGES_def)
  moreover have "{''relay_connections_active'', ''relay_queue_depth'', ''relay_queue_bytes'', ''relay_presence_users''} \<subseteq> set GAUGES"
    by (simp add: GAUGES_def)
  ultimately have c: "n \<notin> {''relay_connections_active'', ''relay_queue_depth'', ''relay_queue_bytes'', ''relay_presence_users''}"
    if "n \<in> set COUNTERS" for n using that by blast
  have x: "x = Inr (render_metrics (w_metrics w'))" and m: "w_metrics w' = (w_metrics w)
      (''relay_connections_active'' := MInt (active_count (w_reg w)),
       ''relay_queue_depth'' := MInt (\<Sum>c \<leftarrow> live_conns w. queue_depth c),
       ''relay_queue_bytes'' := MInt (\<Sum>c \<leftarrow> live_conns w. queue_bytes c),
       ''relay_presence_users'' := MInt (int (length (remdups (List.map_filter user_id (live_conns w))))))"
    using assms by (auto simp: metrics_endpoint_def metric_set_def thenE_def bindE_def)
  have "\<forall>n \<in> set COUNTERS. scrape (render_metrics (w_metrics w')) n = [metric_value (w_metrics w n)]"
    using c m by (auto simp: scrape_rendered)
  moreover have "''relay_connections_active'' \<in> set (COUNTERS @ GAUGES)" "''relay_queue_depth'' \<in> set (COUNTERS @ GAUGES)"
    "''relay_queue_bytes'' \<in> set (COUNTERS @ GAUGES)" by (simp_all add: GAUGES_def)
  ultimately show ?thesis using x m by (auto simp: scrape_rendered)
qed

end
