(* ===== verification/Admission.thy ===== *)
theory Admission
  imports Isolation
begin

text \<open>
  Handshakes that overlap.  \<open>handle_connection\<close> is a coroutine: at each await of the handshake the event
  loop may run other tasks.  \<open>hs_segment\<close> cuts the handshake of \<open>Handler\<close> there, one phase per await, and
  \<open>hs_step\<close> interleaves any number of handshakes, at most \<open>max_handshakes_in_flight\<close> of them inside
  \<open>_handshake_semaphore\<close>, with the other tasks of the gateway.  \<open>handshake_uncut\<close> shows that a handshake
  nobody interrupts is the one of \<open>Handler\<close>; the invariant of the gateway holds in the interleaved system
  too, and the connections of a tenant can exceed the configured limit, but only by the handshakes the
  semaphore lets in beyond the first.
\<close>

section \<open>A handshake cut at its awaits\<close>

text \<open>Where a handshake is suspended: at the semaphore; before the first frame; before the database; before
  the lookup of the session; before the session is created or touched; when its Redis call has
  returned; registered, before \<open>connection_online\<close>; before CONNECTED is sent; and ended, with what
  \<open>handshake\<close> returns or raises.\<close>

datatype hs_phase =
  HsWaiting
| HsEntered
| HsReceived "(string \<times> json) list"
| HsChecked string json json
| HsResolved string "json option" json
| HsOpened string json json
| HsRegistered string string json "string option"
| HsAnnounced string string json
| HsEnded "exn + string option"

definition hs_check ::
  "('r, 'w) deps \<Rightarrow> nat \<Rightarrow> string \<Rightarrow> json \<Rightarrow> json \<Rightarrow> (('r, 'w) world, hs_phase) io" where
  "hs_check D ws tid requested user =
     bindE (getE (\<lambda>w. tenant_connection_count (w_reg w) tid)) (\<lambda>n.
       if max_connections_per_tenant (dp_cfg D) \<le> n
       then bindE (reject D ws RATE_LIMITED ''tenant connection limit reached'' (Some 4429)) (\<lambda>r. returnE (HsEnded (Inr r)))
       else returnE (HsChecked tid requested user))"

definition hs_register ::
  "('r, 'w) deps \<Rightarrow> nat \<Rightarrow> string \<Rightarrow> string \<Rightarrow> json \<Rightarrow> json \<Rightarrow> (('r, 'w) world, hs_phase) io" where
  "hs_register D ws conn_hex tid user sid =
     bindE (time_now (dp_redis D)) (\<lambda>now.
     let cid = ''conn-'' @ take 12 conn_hex;
         uid = (if truthy user then Some (text_of D user) else None)
     in thenE (register_connection ws (new_connection cid (text_of D sid) tid ACTIVE now) uid)
              (returnE (HsRegistered tid cid sid uid)))"

fun hs_segment ::
  "('r, 'w) deps \<Rightarrow> exn + database \<Rightarrow> nat \<Rightarrow> string \<Rightarrow> string \<Rightarrow> hs_phase \<Rightarrow> (('r, 'w) world, hs_phase) io" where
  "hs_segment D db ws us uc HsWaiting = returnE HsEntered"
| "hs_segment D db ws us uc HsEntered =
     bindE (first_frame D ws) (\<lambda>r.
       case r of
         None \<Rightarrow> returnE (HsEnded (Inr None))
       | Some raw \<Rightarrow>
           if raw_get raw ''type'' \<noteq> JStr (frame_type_value CONNECT)
           then bindE (reject D ws INVALID_FRAME ''expected CONNECT frame first'' None) (\<lambda>r. returnE (HsEnded (Inr r)))
           else returnE (HsReceived raw))"
| "hs_segment D db ws us uc (HsReceived raw) =
     bindE (authenticate_connect D db ws raw) (\<lambda>a.
       case a of
         None \<Rightarrow> returnE (HsEnded (Inr None))
       | Some auth \<Rightarrow> hs_check D ws (ac_tenant_id auth) (raw_get raw ''session_id'') (raw_get raw ''user_id''))"
| "hs_segment D db ws us uc (HsChecked tid requested user) =
     bindE (resumable_session D tid requested) (\<lambda>sid. returnE (HsResolved tid sid user))"
| "hs_segment D db ws us uc (HsResolved tid found user) =
     bindE (start_session D tid us found) (\<lambda>sid. returnE (HsOpened tid sid user))"
| "hs_segment D db ws us uc (HsOpened tid sid user) = hs_register D ws uc tid user sid"
| "hs_segment D db ws us uc (HsRegistered tid cid sid uid) =
     thenE (announce_online D tid cid uid) (returnE (HsAnnounced tid cid sid))"
| "hs_segment D db ws us uc (HsAnnounced tid cid sid) =
     thenE (start_tasks ws) (thenE (connected_frame D ws cid sid) (returnE (HsEnded (Inr (Some tid)))))"
| "hs_segment D db ws us uc (HsEnded x) = returnE (HsEnded x)"

text \<open>One segment; an exception ends the handshake.\<close>

definition hs_advance ::
  "('r, 'w) deps \<Rightarrow> exn + database \<Rightarrow> nat \<Rightarrow> string \<Rightarrow> string \<Rightarrow> hs_phase \<times> ('r, 'w) world \<Rightarrow> hs_phase \<times> ('r, 'w) world" where
  "hs_advance D db ws us uc = (\<lambda>(ph, w).
     case hs_segment D db ws us uc ph w of
       (Inl e, w') \<Rightarrow> (HsEnded (Inl e), w')
     | (Inr ph', w') \<Rightarrow> (ph', w'))"

section \<open>An uninterrupted handshake\<close>

text \<open>The state in which a computation ends a handshake, and \<open>n\<close> segments after a computation of a phase.\<close>

definition hs_ended :: "(('r, 'w) world, string option) io \<Rightarrow> ('r, 'w) world \<Rightarrow> hs_phase \<times> ('r, 'w) world" where
  "hs_ended m w = (case m w of (x, w') \<Rightarrow> (HsEnded x, w'))"

definition hs_after ::
  "('r, 'w) deps \<Rightarrow> exn + database \<Rightarrow> nat \<Rightarrow> string \<Rightarrow> string \<Rightarrow> nat \<Rightarrow> (('r, 'w) world, hs_phase) io \<Rightarrow> ('r, 'w) world \<Rightarrow>
     hs_phase \<times> ('r, 'w) world" where
  "hs_after D db ws us uc n m w =
     (case m w of
        (Inl e, w') \<Rightarrow> (HsEnded (Inl e), w')
      | (Inr ph, w') \<Rightarrow> (hs_advance D db ws us uc ^^ n) (ph, w'))"

named_theorems hs_seq
  "a sequence of segments is the computation they were cut from"

lemma hs_advance_ended [simp]: "(hs_advance D db ws us uc ^^ n) (HsEnded x, w) = (HsEnded x, w)"
  by (induction n) (simp_all add: hs_advance_def)

lemma hs_advance_Suc: "(hs_advance D db ws us uc ^^ Suc n) (ph, w) = hs_after D db ws us uc n (hs_segment D db ws us uc ph) w"
proof -
  have "hs_advance D db ws us uc (ph, w) =
      (case hs_segment D db ws us uc ph w of (Inl e, w') \<Rightarrow> (HsEnded (Inl e), w') | (Inr ph', w') \<Rightarrow> (ph', w'))"
    by (simp add: hs_advance_def)
  then show ?thesis unfolding hs_after_def funpow_Suc_right comp_def by (auto split: prod.split sum.split)
qed

lemma hs_after_bindE [hs_seq]:
  assumes "\<And>a w'. hs_after D db ws us uc n (f a) w' = hs_ended (g a) w'"
  shows "hs_after D db ws us uc n (bindE m f) w = hs_ended (bindE m g) w"
proof (cases "m w")
  case (Pair y w1)
  then show ?thesis
    using assms [of "projr y" w1] by (cases y) (simp_all add: hs_after_def hs_ended_def bindE_def)
qed

lemma hs_after_thenE [hs_seq]:
  "(\<And>w'. hs_after D db ws us uc n m' w' = hs_ended g w') \<Longrightarrow>
     hs_after D db ws us uc n (thenE m m') w = hs_ended (thenE m g) w"
  unfolding thenE_def by (rule hs_after_bindE)

lemma hs_after_phase:
  "hs_after D db ws us uc (Suc n) (returnE ph) w = hs_after D db ws us uc n (hs_segment D db ws us uc ph) w"
  by (simp only: hs_advance_Suc hs_after_def [of _ _ _ _ _ "Suc n"] returnE_run prod.case sum.case)

lemma hs_after_ended [hs_seq]: "hs_after D db ws us uc n (returnE (HsEnded (Inr x))) w = hs_ended (returnE x) w"
  by (simp add: hs_after_def hs_ended_def)

lemma hs_after_reject [hs_seq]:
  "hs_after D db ws us uc n (bindE (reject D ws ec msg code) (\<lambda>r. returnE (HsEnded (Inr r)))) w = hs_ended (reject D ws ec msg code) w"
  by (simp add: hs_after_def hs_ended_def bindE_def split: prod.split sum.split)

lemma hs_after_register [hs_seq]:
  "hs_after D db ws us uc 2 (hs_register D ws uc tid user sid) w = hs_ended (establish D ws uc tid user sid) w"
  unfolding hs_register_def establish_def Let_def numeral_2_eq_2
  by (rule hs_seq | simp only: hs_after_phase hs_segment.simps)+

lemma hs_after_check [hs_seq]:
  "hs_after D db ws us uc 5 (hs_check D ws tid requested user) w = hs_ended (admit D ws us uc tid requested user) w"
proof -
  have "hs_after D db ws us uc 5 (returnE (HsChecked tid requested user)) w' =
      hs_ended (bindE (open_session D tid requested us) (establish D ws uc tid user)) w'" for w'
  proof -
    have 5: "5 = Suc (Suc (Suc 2))" by simp
    show ?thesis
      unfolding 5 open_session_def bindE_assoc hs_after_phase hs_segment.simps
      by (rule hs_seq | simp only: hs_after_phase hs_segment.simps)+
  qed
  then show ?thesis
    unfolding hs_check_def admit_def by (intro hs_after_bindE) (simp add: hs_after_reject)
qed

text \<open>Seven segments of a handshake that nobody interrupts are the handshake of \<open>Handler\<close>.\<close>

theorem handshake_uncut:
  "(hs_advance D db ws us uc ^^ 7) (HsEntered, w) =
     (HsEnded (fst (handshake D db ws us uc w)), snd (handshake D db ws us uc w))"
proof -
  have 67: "6 = Suc 5" "7 = Suc 6" by simp_all
  have auth: "hs_after D db ws us uc 6 (returnE (HsReceived raw)) w' = hs_ended (bindE (authenticate_connect D db ws raw)
      (\<lambda>a. case a of None \<Rightarrow> returnE None
        | Some auth \<Rightarrow> admit D ws us uc (ac_tenant_id auth) (raw_get raw ''session_id'') (raw_get raw ''user_id''))) w'" for raw w'
    unfolding 67(1) hs_after_phase hs_segment.simps
    by (intro hs_after_bindE) (auto simp: hs_after_ended hs_after_check split: option.split)
  have "hs_after D db ws us uc 6 (hs_segment D db ws us uc HsEntered) w = hs_ended (handshake D db ws us uc) w"
    unfolding handshake_def hs_segment.simps
    by (intro hs_after_bindE) (auto simp: hs_after_ended hs_after_reject auth split: option.split)
  then show ?thesis unfolding 67(2) hs_advance_Suc by (simp add: hs_ended_def case_prod_beta)
qed

section \<open>Overlapping handshakes\<close>

record hs_task =
  ht_ws :: nat
  ht_db :: "exn + database"
  ht_session :: string
  ht_conn :: string
  ht_phase :: hs_phase

text \<open>Inside the semaphore; not registered yet; past the limit check and not registered yet.\<close>

fun inside :: "hs_phase \<Rightarrow> bool" where
  "inside HsWaiting = False"
| "inside (HsEnded _) = False"
| "inside _ = True"

fun early :: "hs_phase \<Rightarrow> bool" where
  "early (HsRegistered _ _ _ _) = False"
| "early (HsAnnounced _ _ _) = False"
| "early (HsEnded _) = False"
| "early _ = True"

fun cleared :: "string \<Rightarrow> hs_phase \<Rightarrow> bool" where
  "cleared tid (HsChecked tid' _ _) = (tid' = tid)"
| "cleared tid (HsResolved tid' _ _) = (tid' = tid)"
| "cleared tid (HsOpened tid' _ _) = (tid' = tid)"
| "cleared tid _ = False"

definition holders :: "hs_task list \<Rightarrow> int" where
  "holders ts = int (length (filter (\<lambda>t. inside (ht_phase t)) ts))"

definition pending :: "string \<Rightarrow> hs_task list \<Rightarrow> int" where
  "pending tid ts = int (length (filter (\<lambda>t. cleared tid (ht_phase t)) ts))"

text \<open>A socket is accepted; a handshake enters the semaphore while it has room; a handshake inside runs to
  its next await, with a new UUID when it registers; any other task takes a step.\<close>

inductive hs_step ::
  "('r, 'w) deps \<Rightarrow> ('r, 'w) world \<times> hs_task list \<Rightarrow> ('r, 'w) world \<times> hs_task list \<Rightarrow> bool" for D :: "('r, 'w) deps" where
  hs_accept: "wsE (dp_ws D) ws WsAccept w = (Inr r, w') \<Longrightarrow>
     hs_step D (w, ts)
       (w', ts @ [\<lparr>ht_ws = ws, ht_db = db, ht_session = us, ht_conn = uc, ht_phase = HsWaiting\<rparr>])"
| hs_enter: "i < length ts \<Longrightarrow> ts ! i = t \<Longrightarrow> ht_phase t = HsWaiting \<Longrightarrow>
     holders ts < max_handshakes_in_flight (dp_cfg D) \<Longrightarrow>
     hs_step D (w, ts) (w, ts[i := t\<lparr>ht_phase := HsEntered\<rparr>])"
| hs_run: "i < length ts \<Longrightarrow> ts ! i = t \<Longrightarrow> inside (ht_phase t) \<Longrightarrow>
     (\<forall>tid sid user. ht_phase t = HsOpened tid sid user \<longrightarrow> fresh (ht_ws t) (''conn-'' @ take 12 (ht_conn t)) (reg_of w)) \<Longrightarrow>
     hs_advance D (ht_db t) (ht_ws t) (ht_session t) (ht_conn t) (ht_phase t, w) = (ph, w') \<Longrightarrow>
     hs_step D (w, ts) (w', ts[i := t\<lparr>ht_phase := ph\<rparr>])"
| hs_other: "gw_task D w w' \<Longrightarrow> hs_step D (w, ts) (w', ts)"

definition hs_init :: "('r, 'w) world \<times> hs_task list \<Rightarrow> bool" where
  "hs_init = (\<lambda>(w, ts). gw_init w \<and> ts = [])"

section \<open>What the tasks keep of the registry and the manager\<close>

text \<open>A property of the registry and the subscription manager that the operations the tasks call on them keep:
  no operation registers a connection.\<close>

definition part :: "(conn_registry \<Rightarrow> sub_mgr \<Rightarrow> bool) \<Rightarrow> ('r, 'w) world \<Rightarrow> bool" where
  "part P w = P (w_reg w) (w_subs w)"

lemma part_off:
  "preserves (part P) (redisE m)" "preserves (part P) (wsE W v call)" "preserves (part P) (metric_add nm k)"
  "preserves (part P) (metric_set nm k)" "preserves (part P) (time_now X)" "preserves (part P) (modifyE (\<lambda>w. w\<lparr>w_tasks := g w\<rparr>))"
  "preserves (part P) (connE v n)"
  by (simp_all add: preserves_def part_def redisE_run wsE_def metric_add_def metric_set_def time_now_def connE_def
      split: option.split prod.split)

locale kept_part =
  fixes P :: "conn_registry \<Rightarrow> sub_mgr \<Rightarrow> bool"
  assumes keep_subscribe: "P R m \<Longrightarrow> P (snd (registry_subscribe cid ch (h, R))) m"
    and keep_unsubscribe: "P R m \<Longrightarrow> P (snd (registry_unsubscribe cid ch (h, R))) m"
    and keep_remove: "P R m \<Longrightarrow> P (snd (snd (registry_remove cid (h, R)))) m"
    and keep_up: "P R m \<Longrightarrow> P R (count_up ch m)"
    and keep_down: "P R m \<Longrightarrow> P R (count_down ch m)"
    and keep_listen: "P R m \<Longrightarrow> P R (ensure_listener ch m)"
begin

lemma kept_registry:
  "preserves (part P) (regE (registry_subscribe cid ch))" "preserves (part P) (regE (registry_unsubscribe cid ch))"
  "preserves (part P) (regE (\<lambda>s. snd (registry_remove cid s)))"
  using keep_subscribe keep_unsubscribe keep_remove
  by (auto simp: preserves_def part_def regE_def split: prod.split) (metis snd_conv)+

lemma kept_manager:
  fixes X :: "'r redis"
  shows "preserves (part P) (on_local_subscribe X cfg ch :: (('r, 'w) world, unit) io)"
    and "preserves (part P) (on_local_unsubscribe X ch :: (('r, 'w) world, unit) io)"
proof -
  have "part P w'" if "part P w" "on_local_subscribe X cfg ch w = (x, w')" for x and w w' :: "('r, 'w) world"
    using on_local_subscribe_subs [OF that(2)] that(1) keep_up keep_listen by (auto simp: part_def)
  then show "preserves (part P) (on_local_subscribe X cfg ch :: (('r, 'w) world, unit) io)"
    unfolding preserves_def by (metis prod.collapse)
  have "part P w'" if "part P w" "on_local_unsubscribe X ch w = (x, w')" for x and w w' :: "('r, 'w) world"
    using on_local_unsubscribe_subs [OF that(2)] that(1) keep_down by (auto simp: part_def)
  then show "preserves (part P) (on_local_unsubscribe X ch :: (('r, 'w) world, unit) io)"
    unfolding preserves_def by (metis prod.collapse)
qed

lemmas kept_parts = part_off [of P] kept_registry kept_manager

lemma kept_sends:
  "preserves (part P) (send_frame W S v f)" "preserves (part P) (close_ws W v code)"
  "preserves (part P) (send_error D v ec msg)" "preserves (part P) (the_conn v)" "preserves (part P) (update_conn v g)"
  by (simp_all add: send_frame_def close_ws_def send_error_def the_conn_def update_conn_def pres part_off)

lemma kept_join: "preserves (part P) (join_channel D ws ch)"
  unfolding join_channel_def by (intro pres kept_parts kept_sends)

lemma kept_resume: "preserves (part P) (resume_channels D ws tid acks rep gaps)"
  by (induction D ws tid acks rep gaps rule: resume_channels.induct)
    (auto intro!: pres kept_parts kept_sends kept_join simp: queue_replayed_def split: sum.split)

lemma kept_frames:
  "preserves (part P) (on_pong D ws tid)" "preserves (part P) (on_presence D ws tid raw)"
  "preserves (part P) (on_subscribe D ws tid raw)" "preserves (part P) (on_unsubscribe D ws raw)"
  "preserves (part P) (on_ack_frame D ws raw)" "preserves (part P) (on_resume D ws tid raw)"
  unfolding on_pong_def on_presence_def on_subscribe_def on_unsubscribe_def on_ack_frame_def on_resume_def
  by (auto intro!: pres kept_parts kept_sends kept_join kept_resume split: sum.split frame.split option.split prod.split)

lemma kept_handle_frame: "preserves (part P) (handle_frame D ws tid raw)"
  unfolding handle_frame_def Let_def by (auto intro!: pres kept_parts kept_sends kept_frames)

lemma kept_end:
  "preserves (part P) (cleanup_connection D v)" "preserves (part P) (on_dead_connection D v reason)"
  "preserves (part P) (terminate_slow_consumer W S v)"
  unfolding cleanup_connection_def on_dead_connection_def terminate_slow_consumer_def
  by (auto intro!: pres kept_parts kept_sends split: option.split)

end

lemma deliver_keeps_registry:
  assumes "gw_inv (reg_of w)" and "deliver_local cfg ch env sq w = (x, w')"
  shows "w_reg w' = w_reg w"
proof -
  have ri: "reg_inv (w_heap w, w_reg w)" using assms(1) by (simp add: gw_inv_def reg_of_def)
  obtain w1 where "deliver_local cfg ch env sq w = (Inr (slow_ids cfg env (w_heap w) (local_subscribers (w_reg w) ch)), w1)"
    and "delivery cfg ch env sq (local_subscribers (w_reg w) ch) w w1" by (rule deliver_local_run [OF ri])
  with assms(2) show ?thesis by (simp add: delivery_def)
qed

text \<open>A property of the registry alone is kept by every task but a handshake.\<close>

locale kept_registry_part = kept_part "\<lambda>R m. Q R" for Q :: "conn_registry \<Rightarrow> bool"
begin

lemma kept_task:
  assumes "gw_inv (reg_of w)" and "gw_task D w w'" and "Q (w_reg w)"
  shows "Q (w_reg w')"
  using assms(2)
proof (cases rule: gw_task.cases)
  case (gw_frame ws c raw y)
  show ?thesis by (rule preservesD [OF kept_handle_frame _ gw_frame(2), unfolded part_def]) (rule assms(3))
next
  case (gw_deliver ch env sq z)
  then show ?thesis using deliver_keeps_registry [OF assms(1)] assms(3) by metis
next
  case (gw_dead ws reason u)
  show ?thesis by (rule preservesD [OF kept_end(2) _ gw_dead, unfolded part_def]) (rule assms(3))
next
  case (gw_slow ws u)
  show ?thesis by (rule preservesD [OF kept_end(3) _ gw_slow, unfolded part_def]) (rule assms(3))
next
  case (gw_cleanup ws u)
  show ?thesis by (rule preservesD [OF kept_end(1) _ gw_cleanup, unfolded part_def]) (rule assms(3))
qed (simp_all add: assms(3))

end

interpretation crowd: kept_registry_part "\<lambda>R. tenant_connection_count R t \<le> n" for t n
proof unfold_locales
  fix R :: conn_registry and cid ch h
  assume le: "tenant_connection_count R t \<le> n"
  then show "tenant_connection_count (snd (registry_subscribe cid ch (h, R))) t \<le> n"
    "tenant_connection_count (snd (registry_unsubscribe cid ch (h, R))) t \<le> n"
    by (auto simp: registry_subscribe_def registry_unsubscribe_def tenant_connection_count_def split: option.split)
  show "tenant_connection_count (snd (snd (registry_remove cid (h, R)))) t \<le> n"
    using le length_set_discard [of cid]
    by (auto simp: registry_remove_def tenant_connection_count_def split: option.split intro: order_trans [rotated])
qed

interpretation listed: kept_registry_part "\<lambda>R. set (all_connections R) \<subseteq> S" for S
proof unfold_locales
  fix R :: conn_registry and cid ch h
  assume le: "set (all_connections R) \<subseteq> S"
  then show "set (all_connections (snd (registry_subscribe cid ch (h, R)))) \<subseteq> S"
    "set (all_connections (snd (registry_unsubscribe cid ch (h, R)))) \<subseteq> S"
    by (auto simp: registry_subscribe_def registry_unsubscribe_def all_connections_def split: option.split)
  show "set (all_connections (snd (snd (registry_remove cid (h, R))))) \<subseteq> S"
    using le by (auto simp: registry_remove_def all_connections_def AList.delete_eq split: option.split)
qed

text \<open>The manager changes by its own operations only.\<close>

interpretation managed: kept_part "\<lambda>R m. mgr_step\<^sup>*\<^sup>* m0 m" for m0
  by unfold_locales (auto intro: rtranclp.rtrancl_into_rtrancl mgr_step.intros)

lemma frame_manages: "handle_frame D ws tid raw w = (x, w') \<Longrightarrow> mgr_step\<^sup>*\<^sup>* (w_subs w) (w_subs w')"
  using preservesD [OF managed.kept_handle_frame [of "w_subs w"], of w] by (simp add: part_def)

lemma count_task:
  "gw_inv (reg_of w) \<Longrightarrow> gw_task D w w' \<Longrightarrow> tenant_connection_count (w_reg w') t \<le> tenant_connection_count (w_reg w) t"
  using crowd.kept_task by blast

text \<open>A registration adds one connection to its tenant.\<close>

lemma count_registered:
  "tenant_connection_count (snd (registered ws c u (h, R))) t \<le>
     tenant_connection_count R t + (if t = tenant_id c then 1 else 0)"
  by (auto simp: length_set_add registered_def registry_add_def tenant_connection_count_def)

section \<open>What a segment does\<close>

lemma quiet_segment [quiets]:
  "(\<And>tid sid user. ph \<noteq> HsOpened tid sid user) \<Longrightarrow> (\<And>tid cid sid. ph \<noteq> HsAnnounced tid cid sid) \<Longrightarrow>
     quiet (hs_segment D db ws us uc ph)"
  by (cases ph) (auto intro!: quiets simp: hs_check_def split: option.split)

lemma hs_segment_reg:
  assumes "hs_segment D db ws us uc ph w = (x, w')"
  shows "reg_of w' = reg_of w \<or>
    (\<exists>tid sid user cid uid c. ph = HsOpened tid sid user \<and> x = Inr (HsRegistered tid cid sid uid) \<and>
       connection_id c = ''conn-'' @ take 12 uc \<and> tenant_id c = tid \<and> subscriptions c = [] \<and>
       reg_of w' = registered ws c uid (reg_of w))"
proof (cases ph)
  case (HsOpened tid sid user)
  let ?uid = "if truthy user then Some (text_of D user) else None"
  let ?c = "new_connection (''conn-'' @ take 12 uc) (text_of D sid) tid ACTIVE (rclock (dp_redis D) (w_redis w))"
  obtain w1 where r: "register_connection ws ?c ?uid w = (Inr (), w1)" "reg_of w1 = registered ws ?c ?uid (reg_of w)"
    by (rule register_connection_run)
  then have "x = Inr (HsRegistered tid (''conn-'' @ take 12 uc) sid ?uid)" "w' = w1"
    using assms HsOpened by (simp_all add: hs_register_def time_now_def bindE_def thenE_def Let_def)
  moreover have "connection_id ?c = ''conn-'' @ take 12 uc" "tenant_id ?c = tid" "subscriptions ?c = []" by simp_all
  ultimately show ?thesis using HsOpened r(2) by blast
next
  case (HsAnnounced tid cid sid)
  have q: "quiet (thenE (connected_frame D ws cid sid) (returnE (HsEnded (Inr (Some tid)))))" by (auto intro!: quiets)
  have "thenE (connected_frame D ws cid sid) (returnE (HsEnded (Inr (Some tid)))) (w\<lparr>w_tasks := w_tasks w @ [ws]\<rparr>) = (x, w')"
    using assms HsAnnounced by (simp add: start_tasks_def thenE_def bindE_def)
  from quietD [OF q this] show ?thesis by (simp add: outside_def reg_of_def)
qed (use quietD [where m = "hs_segment D db ws us uc ph", OF quiet_segment assms] in \<open>auto simp: outside_def reg_of_def\<close>)

lemma hs_segment_subs:
  assumes "hs_segment D db ws us uc ph w = (x, w')"
  shows "w_subs w' = w_subs w"
proof (cases ph)
  case (HsOpened tid sid user)
  let ?uid = "if truthy user then Some (text_of D user) else None"
  let ?c = "new_connection (''conn-'' @ take 12 uc) (text_of D sid) tid ACTIVE (rclock (dp_redis D) (w_redis w))"
  obtain w1 where "register_connection ws ?c ?uid w = (Inr (), w1)" "w_subs w1 = w_subs w" by (rule register_connection_run)
  with assms HsOpened show ?thesis by (simp add: hs_register_def time_now_def bindE_def thenE_def Let_def)
next
  case (HsAnnounced tid cid sid)
  have q: "quiet (thenE (connected_frame D ws cid sid) (returnE (HsEnded (Inr (Some tid)))))" by (auto intro!: quiets)
  have "thenE (connected_frame D ws cid sid) (returnE (HsEnded (Inr (Some tid)))) (w\<lparr>w_tasks := w_tasks w @ [ws]\<rparr>) = (x, w')"
    using assms HsAnnounced by (simp add: start_tasks_def thenE_def bindE_def)
  from quietD [OF q this] show ?thesis by (simp add: outside_def)
qed (use quietD [where m = "hs_segment D db ws us uc ph", OF quiet_segment assms] in \<open>auto simp: outside_def\<close>)

lemma hs_advance_subs: "hs_advance D db ws us uc (ph, w) = (ph', w') \<Longrightarrow> w_subs w' = w_subs w"
  using hs_segment_subs [of D db ws us uc ph w "fst (hs_segment D db ws us uc ph w)" "snd (hs_segment D db ws us uc ph w)"]
  by (auto simp: hs_advance_def split: prod.splits sum.splits)

lemma hs_segment_cleared:
  assumes "hs_segment D db ws us uc ph w = (Inr ph', w')" and "cleared t ph'"
  shows "cleared t ph \<or> tenant_connection_count (w_reg w) t < max_connections_per_tenant (dp_cfg D)"
proof (cases ph)
  case (HsReceived raw)
  then obtain a w1 where a: "authenticate_connect D db ws raw w = (Inr (Some a), w1)"
    and check: "hs_check D ws (ac_tenant_id a) (raw_get raw ''session_id'') (raw_get raw ''user_id'') w1 = (Inr ph', w')"
    using assms by (auto simp: io_run_iffs split: option.splits)
  have "w_reg w1 = w_reg w" using quietD [OF quiet_authenticate_connect a] by (simp add: outside_def)
  with check assms(2) show ?thesis
    by (auto simp: hs_check_def io_run_iffs split: if_splits)
qed (use assms in \<open>auto simp: io_run_iffs hs_register_def Let_def split: option.splits if_splits\<close>)

text \<open>The same for a whole step, with an exception as an ended handshake.\<close>

lemma hs_advance_effect:
  assumes "hs_advance D db ws us uc (ph, w) = (ph', w')"
  obtains (quiet_step) "reg_of w' = reg_of w"
      "\<And>t. cleared t ph' \<Longrightarrow> cleared t ph \<or> tenant_connection_count (w_reg w) t < max_connections_per_tenant (dp_cfg D)"
  | (registers) tid c u where "\<And>t. cleared t ph \<longleftrightarrow> t = tid" "\<And>t. \<not> cleared t ph'"
      "\<exists>sid user. ph = HsOpened tid sid user" "\<not> early ph'"
      "connection_id c = ''conn-'' @ take 12 uc" "tenant_id c = tid" "subscriptions c = []"
      "reg_of w' = registered ws c u (reg_of w)"
proof (cases "hs_segment D db ws us uc ph w")
  case (Pair x w1)
  then have w1: "w1 = w'" and ph': "ph' = (case x of Inl e \<Rightarrow> HsEnded (Inl e) | Inr ph' \<Rightarrow> ph')"
    using assms by (auto simp: hs_advance_def split: sum.splits)
  from hs_segment_reg [OF Pair] show thesis
  proof (elim disjE exE conjE)
    assume "reg_of w1 = reg_of w"
    moreover have "cleared t ph \<or> tenant_connection_count (w_reg w) t < max_connections_per_tenant (dp_cfg D)" if "cleared t ph'" for t
      using that hs_segment_cleared [of D db ws us uc ph w "projr x" w1 t] Pair ph' by (cases x) simp_all
    ultimately show thesis using quiet_step w1 by blast
  next
    fix tid sid user cid uid c
    assume "ph = HsOpened tid sid user" "x = Inr (HsRegistered tid cid sid uid)" "connection_id c = ''conn-'' @ take 12 uc"
      "tenant_id c = tid" "subscriptions c = []" "reg_of w1 = registered ws c uid (reg_of w)"
    then show thesis using registers [of tid c uid] w1 ph' by auto
  qed
qed

section \<open>The invariant of overlapping handshakes\<close>

lemma holders_update:
  "i < length ts \<Longrightarrow> holders (ts[i := (ts ! i)\<lparr>ht_phase := ph\<rparr>]) =
     holders ts - (if inside (ht_phase (ts ! i)) then 1 else 0) + (if inside ph then 1 else 0)"
  by (simp add: holders_def length_filter_update)

lemma pending_update:
  "i < length ts \<Longrightarrow> pending t (ts[i := (ts ! i)\<lparr>ht_phase := ph\<rparr>]) =
     pending t ts - (if cleared t (ht_phase (ts ! i)) then 1 else 0) + (if cleared t ph then 1 else 0)"
  by (simp add: pending_def length_filter_update)

lemma cleared_inside: "cleared t ph \<Longrightarrow> inside ph"
  by (cases ph) auto

lemma pending_le_holders: "pending t ts \<le> holders ts"
  unfolding pending_def holders_def by (induction ts) (auto dest: cleared_inside)

lemma pending_nonneg: "0 \<le> pending t ts" "0 \<le> tenant_connection_count R t"
  by (simp_all add: pending_def tenant_connection_count_def)

lemma holders_pos: "i < length ts \<Longrightarrow> inside (ht_phase (ts ! i)) \<Longrightarrow> 0 < holders ts"
  unfolding holders_def by (auto simp: filter_empty_conv)

definition tenant_bound :: "settings \<Rightarrow> int" where
  "tenant_bound cfg = max 0 (max_connections_per_tenant cfg + max_handshakes_in_flight cfg - 1)"

definition hs_inv :: "('r, 'w) deps \<Rightarrow> ('r, 'w) world \<times> hs_task list \<Rightarrow> bool" where
  "hs_inv D = (\<lambda>(w, ts).
     gw_inv (reg_of w) \<and> holders ts \<le> max 0 (max_handshakes_in_flight (dp_cfg D)) \<and>
     (\<forall>t. tenant_connection_count (w_reg w) t + pending t ts \<le> tenant_bound (dp_cfg D)))"

lemma hs_inv_run:
  assumes inv: "hs_inv D (w, ts)" and i: "i < length ts" and ins: "inside (ht_phase (ts ! i))"
    and new: "\<forall>tid sid user. ht_phase (ts ! i) = HsOpened tid sid user \<longrightarrow>
        fresh (ht_ws (ts ! i)) (''conn-'' @ take 12 (ht_conn (ts ! i))) (reg_of w)"
    and run: "hs_advance D db (ht_ws (ts ! i)) us (ht_conn (ts ! i)) (ht_phase (ts ! i), w) = (ph, w')"
  shows "hs_inv D (w', ts[i := (ts ! i)\<lparr>ht_phase := ph\<rparr>])"
proof -
  let ?ts = "ts[i := (ts ! i)\<lparr>ht_phase := ph\<rparr>]"
  have gi: "gw_inv (reg_of w)" and hold: "holders ts \<le> max 0 (max_handshakes_in_flight (dp_cfg D))"
    and sum: "tenant_connection_count (w_reg w) t + pending t ts \<le> tenant_bound (dp_cfg D)" for t
    using inv by (auto simp: hs_inv_def)
  have hold': "holders ?ts \<le> holders ts" using holders_update [OF i, of ph] ins by simp
  from run show ?thesis
  proof (cases rule: hs_advance_effect)
    case quiet_step
    have "tenant_connection_count (w_reg w) t + pending t ?ts \<le> tenant_bound (dp_cfg D)" for t
    proof (cases "cleared t ph \<longrightarrow> cleared t (ht_phase (ts ! i))")
      case True
      then have "pending t ?ts \<le> pending t ts" using pending_update [OF i, of t ph] by auto
      with sum [of t] show ?thesis by linarith
    next
      case False
      then have "tenant_connection_count (w_reg w) t < max_connections_per_tenant (dp_cfg D)" using quiet_step(2) by blast
      moreover have "pending t ?ts \<le> max_handshakes_in_flight (dp_cfg D)"
        using pending_le_holders [of t ?ts] hold hold' holders_pos [OF i ins] by linarith
      ultimately show ?thesis by (simp add: tenant_bound_def)
    qed
    moreover have "w_reg w' = w_reg w" using quiet_step(1) by (simp add: reg_of_def)
    ultimately show ?thesis using gi hold hold' quiet_step(1) by (simp add: hs_inv_def) 
  next
    case (registers tid c u)
    have fr: "fresh (ht_ws (ts ! i)) (connection_id c) (w_heap w, w_reg w)" using new registers(3,5) by (auto simp: reg_of_def)
    have "gw_inv (reg_of w')"
      unfolding registers(8) using registered_inv(1) [OF _ fr registers(7)] gi by (simp add: reg_of_def)
    moreover have "tenant_connection_count (w_reg w') t + pending t ?ts \<le> tenant_bound (dp_cfg D)" for t
    proof -
      have "w_reg w' = snd (registered (ht_ws (ts ! i)) c u (w_heap w, w_reg w))" using registers(8) by (metis reg_of_def snd_conv)
      then have "tenant_connection_count (w_reg w') t \<le> tenant_connection_count (w_reg w) t + (if t = tid then 1 else 0)"
        using count_registered [of "ht_ws (ts ! i)" c u "w_heap w" "w_reg w" t] registers(6) by simp
      moreover have "pending t ?ts = pending t ts - (if t = tid then 1 else 0)"
        using pending_update [OF i, of t ph] registers(1,2) by simp
      ultimately show ?thesis using sum [of t] by linarith
    qed
    ultimately show ?thesis using hold hold' by (simp add: hs_inv_def)
  qed
qed

lemma hs_inv_step:
  assumes "hs_inv D s" and "hs_step D s s'"
  shows "hs_inv D s'"
  using assms(2,1)
proof (cases rule: hs_step.cases)
  case (hs_accept ws w r w' ts db us uc)
  have "reg_of w' = reg_of w" using quietD [OF quiet_wsE hs_accept(3)] by (simp add: outside_def reg_of_def)
  then show ?thesis using assms(1) hs_accept by (simp add: hs_inv_def reg_of_def holders_def pending_def)
next
  case (hs_enter i ts t w)
  then show ?thesis
    using assms(1) holders_update [of i ts HsEntered] pending_update [of i ts _ HsEntered] by (simp add: hs_inv_def)
next
  case (hs_run i ts t w ph w')
  then show ?thesis using hs_inv_run [of D w ts i "ht_db t" "ht_session t" ph w'] assms(1) by simp
next
  case (hs_other w w' ts)
  then show ?thesis
    using assms(1) gw_inv_task [of w D w'] count_task [of w D w'] by (auto simp: hs_inv_def intro: order_trans [OF add_right_mono])
qed

interpretation admission_sys: invariant_system hs_init "hs_step D" "hs_inv D" for D :: "('r, 'w) deps"
proof
  show "hs_inv D s" if "hs_init s" for s
  proof -
    obtain nid r v where s: "s = (new_world nid r v, [])" using \<open>hs_init s\<close> by (auto simp: hs_init_def gw_init_def)
    then show ?thesis
      using gw_inv_new [of nid r v]
      by (simp add: hs_inv_def holders_def pending_def tenant_bound_def new_world_def tenant_connection_count_def
          empty_registry_def get_set_def)
  qed
qed (rule hs_inv_step)

section \<open>Uninterrupted handshakes are among the interleavings\<close>

lemma hs_advance_phase:
  assumes "hs_advance D db ws us uc (ph, w) = (ph', w')" and "inside ph"
  shows "ph' \<noteq> HsWaiting" and "early ph' \<Longrightarrow> early ph \<and> reg_of w' = reg_of w"
proof -
  obtain x where seg: "hs_segment D db ws us uc ph w = (x, w')" and ph': "ph' = (case x of Inl e \<Rightarrow> HsEnded (Inl e) | Inr ph' \<Rightarrow> ph')"
    using assms(1) by (cases "hs_segment D db ws us uc ph w") (auto simp: hs_advance_def split: sum.splits)
  show "ph' \<noteq> HsWaiting"
    using seg ph' assms(2) by (cases ph; cases x)
      (auto simp: io_run_iffs hs_register_def hs_check_def Let_def split: option.splits if_splits)
  assume e: "early ph'"
  have "early ph"
    using seg ph' e by (cases ph; cases x) (auto simp: io_run_iffs split: option.splits if_splits)
  moreover have "reg_of w' = reg_of w"
    using hs_segment_reg [OF seg] ph' e by auto
  ultimately show "early ph \<and> reg_of w' = reg_of w" ..
qed

lemma reach_segments:
  assumes "reachable hs_init (hs_step D) (w, ts @ [t\<lparr>ht_phase := ph\<rparr>])" and "ph \<noteq> HsWaiting"
    and "early ph \<Longrightarrow> fresh (ht_ws t) (''conn-'' @ take 12 (ht_conn t)) (reg_of w)"
    and "(hs_advance D (ht_db t) (ht_ws t) (ht_session t) (ht_conn t) ^^ n) (ph, w) = (ph', w')"
  shows "reachable hs_init (hs_step D) (w', ts @ [t\<lparr>ht_phase := ph'\<rparr>])"
  using assms
proof (induction n arbitrary: ph w)
  case (Suc n)
  let ?adv = "hs_advance D (ht_db t) (ht_ws t) (ht_session t) (ht_conn t)"
  obtain ph1 w1 where one: "?adv (ph, w) = (ph1, w1)" by fastforce
  then have rest: "(?adv ^^ n) (ph1, w1) = (ph', w')"
    using Suc.prems(4) by (simp add: funpow_Suc_right del: funpow.simps)
  show ?case
  proof (cases "inside ph")
    case True
    note p = hs_advance_phase [OF one True]
    have "\<forall>tid sid user. ph = HsOpened tid sid user \<longrightarrow> fresh (ht_ws t) (''conn-'' @ take 12 (ht_conn t)) (reg_of w)"
      using Suc.prems(3) by (cases ph) simp_all
    then have "hs_step D (w, ts @ [t\<lparr>ht_phase := ph\<rparr>]) (w1, ts @ [t\<lparr>ht_phase := ph1\<rparr>])"
      using hs_run [of "length ts" "ts @ [t\<lparr>ht_phase := ph\<rparr>]" "t\<lparr>ht_phase := ph\<rparr>" w D ph1 w1] True one by simp
    from reach_step [OF Suc.prems(1) this] show ?thesis
      using Suc.IH [of w1 ph1] p rest Suc.prems(3) by metis
  next
    case False
    then obtain x where "ph = HsEnded x" using Suc.prems(2) by (cases ph) auto
    with Suc.prems(1,4) show ?thesis using hs_advance_ended [where n = "Suc n" and D = D] by auto
  qed
qed simp

lemma reach_handshake:
  assumes "reachable hs_init (hs_step D) (w, ts)" and "holders ts < max_handshakes_in_flight (dp_cfg D)"
    and "wsE (dp_ws D) ws WsAccept w = (Inr r, w0)" and "fresh ws (''conn-'' @ take 12 uc) (reg_of w1)"
    and "w_heap w1 = w_heap w0" "w_reg w1 = w_reg w0"
    and "handshake D db ws us uc w1 = (x, w')"
  obtains t where "reachable hs_init (hs_step D) (w', ts @ [t])" "ht_phase t = HsEnded x"
proof -
  let ?t = "\<lparr>ht_ws = ws, ht_db = db, ht_session = us, ht_conn = uc, ht_phase = HsWaiting\<rparr>"
  have "reachable hs_init (hs_step D) (w0, ts @ [?t])"
    by (rule reach_step [OF assms(1)]) (rule hs_accept [OF assms(3)])
  moreover have "gw_task D w0 w1" by (rule gw_elsewhere [OF assms(5,6)])
  ultimately have "reachable hs_init (hs_step D) (w1, ts @ [?t])" by (metis reach_step hs_other)
  moreover have "hs_step D (w1, ts @ [?t]) (w1, ts @ [?t\<lparr>ht_phase := HsEntered\<rparr>])"
    using hs_enter [of "length ts" "ts @ [?t]" ?t D w1] assms(2) by (simp add: holders_def)
  ultimately have "reachable hs_init (hs_step D) (w1, ts @ [?t\<lparr>ht_phase := HsEntered\<rparr>])" by (rule reach_step)
  from reach_segments [OF this, of 7] have "reachable hs_init (hs_step D) (w', ts @ [?t\<lparr>ht_phase := HsEnded x\<rparr>])"
    using assms(4,7) by (simp add: handshake_uncut)
  then show thesis by (rule that) simp
qed

text \<open>Where the library accepts sockets and the semaphore has a permit, every state that atomic handshakes
  reach is a state of the interleaved system.\<close>

lemma atomic_handshakes_embed:
  fixes D :: "('r, 'w) deps"
  assumes "reachable gw_init (gw_step D) w" and "0 < max_handshakes_in_flight (dp_cfg D)"
    and "\<And>ws (v :: ('r, 'w) world). \<exists>r w'. wsE (dp_ws D) ws WsAccept v = (Inr r, w')"
  shows "\<exists>ts. reachable hs_init (hs_step D) (w, ts) \<and> holders ts = 0"
  using assms(1)
proof induction
  case (reach_init w)
  then have "hs_init (w, [])" by (simp add: hs_init_def)
  then show ?case using reachable.reach_init [of hs_init "(w, [])" "hs_step D"] by (auto simp: holders_def)
next
  case (reach_step w w')
  then obtain ts where ts: "reachable hs_init (hs_step D) (w, ts)" "holders ts = 0" by blast
  from reach_step(2) show ?case
  proof cases
    case (gw_connect ws uc db us x)
    obtain r w0 where acc: "wsE (dp_ws D) ws WsAccept w = (Inr r, w0)" using assms(3) by blast
    have "w_heap w = w_heap w0" "w_reg w = w_reg w0" using quietD [OF quiet_wsE acc] by (simp_all add: outside_def)
    with reach_handshake [OF ts(1) _ acc gw_connect(1) _ _ gw_connect(2)] ts(2) assms(2)
    obtain t where "reachable hs_init (hs_step D) (w', ts @ [t])" "ht_phase t = HsEnded x" by auto
    moreover from this(2) have "holders (ts @ [t]) = 0" using ts(2) by (simp add: holders_def)
    ultimately show ?thesis by blast
  next
    case gw_other
    then show ?thesis using reachable.reach_step [OF ts(1) hs_other] ts(2) by blast
  qed
qed

section \<open>Schedules\<close>

text \<open>A turn of the \<open>i\<close>-th handshake, and schedules in which only handshakes inside the semaphore take turns.\<close>

definition hs_turn :: "('r, 'w) deps \<Rightarrow> ('r, 'w) world \<times> hs_task list \<Rightarrow> nat \<Rightarrow> ('r, 'w) world \<times> hs_task list" where
  "hs_turn D = (\<lambda>(w, ts) i.
     let t = ts ! i; r = hs_advance D (ht_db t) (ht_ws t) (ht_session t) (ht_conn t) (ht_phase t, w)
     in (snd r, ts[i := t\<lparr>ht_phase := fst r\<rparr>]))"

fun hs_schedule :: "('r, 'w) deps \<Rightarrow> ('r, 'w) world \<times> hs_task list \<Rightarrow> nat list \<Rightarrow> bool" where
  "hs_schedule D s [] = True"
| "hs_schedule D s (i # is) =
     (i < length (snd s) \<and> inside (ht_phase (snd s ! i)) \<and> hs_schedule D (hs_turn D s i) is)"

text \<open>Every connection on the heap belongs to a handshake that has registered; the sockets and the UUIDs of
  the handshakes differ.\<close>

definition made_by :: "hs_task \<Rightarrow> nat \<Rightarrow> connection \<Rightarrow> bool" where
  "made_by t r c = (r = ht_ws t \<and> connection_id c = ''conn-'' @ take 12 (ht_conn t) \<and> \<not> early (ht_phase t))"

definition registered_only :: "('r, 'w) world \<times> hs_task list \<Rightarrow> bool" where
  "registered_only = (\<lambda>(w, ts). \<forall>r c. w_heap w r = Some c \<longrightarrow> (\<exists>j < length ts. made_by (ts ! j) r c))"

definition apart :: "hs_task list \<Rightarrow> bool" where
  "apart ts = (\<forall>i < length ts. \<forall>j < length ts.
     ht_ws (ts ! i) = ht_ws (ts ! j) \<or> take 12 (ht_conn (ts ! i)) = take 12 (ht_conn (ts ! j)) \<longrightarrow> i = j)"

lemma registered_only_fresh:
  assumes "registered_only (w, ts)" and "apart ts" and "i < length ts" and "early (ht_phase (ts ! i))"
  shows "fresh (ht_ws (ts ! i)) (''conn-'' @ take 12 (ht_conn (ts ! i))) (reg_of w)"
proof -
  have "ht_ws (ts ! i) \<noteq> r \<and> connection_id c \<noteq> ''conn-'' @ take 12 (ht_conn (ts ! i))" if h: "w_heap w r = Some c" for r c
  proof -
    obtain j where j: "j < length ts" "made_by (ts ! j) r c" using assms(1) h by (auto simp: registered_only_def)
    then have "i \<noteq> j" using assms(4) by (auto simp: made_by_def)
    with j assms(2,3) show ?thesis by (auto simp: made_by_def apart_def)
  qed
  then show ?thesis by (cases "w_heap w (ht_ws (ts ! i))") (auto simp: fresh_def reg_of_def)
qed

lemma apart_update: "i < length ts \<Longrightarrow> apart ts \<Longrightarrow> apart (ts[i := (ts ! i)\<lparr>ht_phase := ph\<rparr>])"
proof -
  assume i: "i < length ts" and ap: "apart ts"
  have "ht_ws (ts[i := (ts ! i)\<lparr>ht_phase := ph\<rparr>] ! k) = ht_ws (ts ! k)" "ht_conn (ts[i := (ts ! i)\<lparr>ht_phase := ph\<rparr>] ! k) = ht_conn (ts ! k)" for k
    using i by (cases "k = i"; simp)+
  with ap show ?thesis by (simp add: apart_def)
qed

lemma registered_only_turn:
  assumes only: "registered_only (w, ts)" and i: "i < length ts" and ins: "inside (ht_phase (ts ! i))"
    and run: "hs_advance D db (ht_ws (ts ! i)) us (ht_conn (ts ! i)) (ht_phase (ts ! i), w) = (ph, w')"
  shows "registered_only (w', ts[i := (ts ! i)\<lparr>ht_phase := ph\<rparr>])"
proof -
  let ?ts = "ts[i := (ts ! i)\<lparr>ht_phase := ph\<rparr>]"
  have old: "\<exists>j < length ?ts. made_by (?ts ! j) r c" if h: "w_heap w r = Some c" for r c
  proof -
    obtain j where j: "j < length ts" "made_by (ts ! j) r c" using only h by (auto simp: registered_only_def)
    have "early ph \<Longrightarrow> early (ht_phase (ts ! i))" using hs_advance_phase(2) [OF run ins] by simp
    with j i show ?thesis by (intro exI [of _ j]) (auto simp: nth_list_update made_by_def)
  qed
  from run show ?thesis
  proof (cases rule: hs_advance_effect)
    case quiet_step
    then have "w_heap w' = w_heap w" by (simp add: reg_of_def)
    with old show ?thesis by (simp add: registered_only_def)
  next
    case (registers tid c u)
    have heap: "w_heap w' = (w_heap w)(ht_ws (ts ! i) \<mapsto> c\<lparr>user_id := u\<rparr>)"
      using registers(8) by (simp add: registered_def reg_of_def)
    have "\<exists>j < length ?ts. made_by (?ts ! j) (ht_ws (ts ! i)) (c\<lparr>user_id := u\<rparr>)"
      using i registers(4,5) by (intro exI [of _ i]) (simp add: made_by_def)
    with old show ?thesis by (auto simp: registered_only_def heap split: if_splits)
  qed
qed

lemma schedule_turn:
  assumes "registered_only s" and "apart (snd s)" and "i < length (snd s)" and "inside (ht_phase (snd s ! i))"
  shows "hs_step D s (hs_turn D s i)" and "registered_only (hs_turn D s i)" and "apart (snd (hs_turn D s i))"
proof -
  obtain w ts where s: "s = (w, ts)" by (cases s)
  obtain ph w' where run: "hs_advance D (ht_db (ts ! i)) (ht_ws (ts ! i)) (ht_session (ts ! i)) (ht_conn (ts ! i)) (ht_phase (ts ! i), w) = (ph, w')"
    by fastforce
  then have turn: "hs_turn D s i = (w', ts[i := (ts ! i)\<lparr>ht_phase := ph\<rparr>])" by (simp add: hs_turn_def s Let_def)
  have i: "i < length ts" "inside (ht_phase (ts ! i))" using assms(3,4) by (simp_all add: s)
  have "fresh (ht_ws (ts ! i)) (''conn-'' @ take 12 (ht_conn (ts ! i))) (reg_of w)" if "early (ht_phase (ts ! i))"
    using registered_only_fresh [OF _ _ i(1) that] assms(1,2) by (simp add: s)
  then have "hs_step D (w, ts) (w', ts[i := (ts ! i)\<lparr>ht_phase := ph\<rparr>])"
    using hs_run [OF i(1) refl i(2) _ run] by (cases "ht_phase (ts ! i)") simp_all
  then show "hs_step D s (hs_turn D s i)" unfolding turn unfolding s .
  show "registered_only (hs_turn D s i)" "apart (snd (hs_turn D s i))"
    unfolding turn using registered_only_turn [OF _ i run] apart_update [OF i(1)] assms(1,2) by (simp_all add: s)
qed

lemma reach_schedule:
  assumes "reachable hs_init (hs_step D) s" and "registered_only s" and "apart (snd s)" and "hs_schedule D s is"
  shows "reachable hs_init (hs_step D) (foldl (hs_turn D) s is) \<and> registered_only (foldl (hs_turn D) s is) \<and>
    apart (snd (foldl (hs_turn D) s is))"
  using assms
proof (induction "is" arbitrary: s)
  case (Cons i "is")
  from Cons.prems(4) have i: "i < length (snd s)" "inside (ht_phase (snd s ! i))" and rest: "hs_schedule D (hs_turn D s i) is" by simp_all
  note turn = schedule_turn [OF Cons.prems(2,3) i, of D]
  from Cons.IH [OF reach_step [OF Cons.prems(1) turn(1)] turn(2,3) rest] show ?case by simp
qed simp

section \<open>Limits and isolation under interleaving\<close>

text \<open>C1: Tenants are isolated.  In every state the gateway can reach, whatever clients send, with any
  number of handshakes interleaved at their awaits with all other tasks and any failures of Redis and
  the sockets, a registered connection subscribes only to channels in the namespace of the tenant its
  key authenticated; so a message delivered on a channel changes only connections of the tenant the
  channel belongs to, and with ids without a colon that is one tenant.\<close>

theorem tenant_isolation:
  assumes "reachable hs_init (hs_step D) (w, ts)" and "conn_of (reg_of w) cid = Some c"
    and "deliver_local cfg ch env sq w = (x, w')"
  shows "(\<forall>ch' \<in> set (subscriptions c). channel_belongs_to_tenant ch' (tenant_id c)) \<and>
    (conn_of (reg_of w') cid \<noteq> Some c \<longrightarrow>
       channel_belongs_to_tenant ch (tenant_id c) \<and>
       (\<forall>t. channel_belongs_to_tenant ch t \<and> CHR '':'' \<notin> set t \<and> CHR '':'' \<notin> set (tenant_id c) \<longrightarrow> t = tenant_id c))"
proof -
  have inv: "gw_inv (reg_of w)" using admission_sys.reachable_inv [OF assms(1)] by (simp add: hs_inv_def)
  then have ri: "reg_inv (reg_of w)" by (simp add: gw_inv_def)
  have own: "channel_belongs_to_tenant ch' (tenant_id c)" if "ch' \<in> set (subscriptions c)" for ch'
    using gw_inv_channels [OF inv assms(2) that] .
  have "t = tenant_id c" if "channel_belongs_to_tenant ch t" "CHR '':'' \<notin> set t" "CHR '':'' \<notin> set (tenant_id c)"
    "channel_belongs_to_tenant ch (tenant_id c)" for t
    by (rule channel_one_tenant [OF that(3,2,4,1)])
  then show ?thesis using own deliver_changes [OF ri assms(3,2)] by blast
qed

theorem tenant_isolation_witness:
  "\<exists>w ts c x w'. reachable hs_init (hs_step demo_deps) (w, ts) \<and> conn_of (reg_of w) ''conn-abc'' = Some c \<and>
     deliver_local default_settings ''t-1:chat'' ''hello'' (Some 1) w = (x, w') \<and>
     conn_of (reg_of w') ''conn-abc'' \<noteq> Some c \<and> channel_belongs_to_tenant ''t-1:chat'' (tenant_id c)"
proof -
  let ?w' = "snd (deliver_local default_settings ''t-1:chat'' ''hello'' (Some 1) subscribed_world)"
  have "conn_of (reg_of subscribed_world) ''conn-abc'' \<noteq> None"
    "conn_of (reg_of ?w') ''conn-abc'' \<noteq> conn_of (reg_of subscribed_world) ''conn-abc''" by code_simp+
  then obtain c where c: "conn_of (reg_of subscribed_world) ''conn-abc'' = Some c" "conn_of (reg_of ?w') ''conn-abc'' \<noteq> Some c"
    by auto
  obtain x w' where d: "deliver_local default_settings ''t-1:chat'' ''hello'' (Some 1) subscribed_world = (x, w')" by fastforce
  with c(2) have n: "conn_of (reg_of w') ''conn-abc'' \<noteq> Some c" by simp
  have "0 < max_handshakes_in_flight (dp_cfg demo_deps)" by code_simp
  moreover have "\<exists>r w'. wsE (dp_ws demo_deps) ws WsAccept v = (Inr r, w')" for ws and v :: "(mem, wire) world"
    by (simp add: demo_deps_def wsE_def wire_sockets_def)
  ultimately obtain ts where r: "reachable hs_init (hs_step demo_deps) (subscribed_world, ts)"
    using atomic_handshakes_embed [OF subscribed_reachable] by blast
  with n tenant_isolation [OF r c(1) d] have "channel_belongs_to_tenant ''t-1:chat'' (tenant_id c)" by blast
  with r c(1) d n show ?thesis by blast
qed

text \<open>Two clients of one tenant that may have one connection, and a semaphore with two permits: the schedule
  lets both pass the check before either is registered.\<close>

definition race_deps :: "(mem, wire) deps" where
  "race_deps = demo_deps\<lparr>dp_cfg := default_settings\<lparr>max_connections_per_tenant := 1, max_handshakes_in_flight := 2\<rparr>\<rparr>"

definition race_task :: "nat \<Rightarrow> string \<Rightarrow> hs_task" where
  "race_task ws hex = \<lparr>ht_ws = ws, ht_db = Inr demo_db, ht_session = hex, ht_conn = hex, ht_phase = HsWaiting\<rparr>"

definition race_accepted :: "(mem, wire) world" where
  "race_accepted = (demo_world [connect_json, connect_json])
     \<lparr>w_ws := \<lparr>wire_calls = [(0, WsAccept), (1, WsAccept)], wire_input = [connect_json, connect_json]\<rparr>\<rparr>"

definition race_start :: "(mem, wire) world \<times> hs_task list" where
  "race_start = (race_accepted, [(race_task 0 ''a'')\<lparr>ht_phase := HsEntered\<rparr>, (race_task 1 ''b'')\<lparr>ht_phase := HsEntered\<rparr>])"

definition race_end :: "(mem, wire) world \<times> hs_task list" where
  "race_end = foldl (hs_turn race_deps) race_start [0, 1, 0, 1, 0, 0, 0, 1, 1, 1]"

lemma race_counts: "tenant_connection_count (w_reg (fst race_end)) ''1'' = 2"
  by code_simp

lemma race_schedule: "hs_schedule race_deps race_start [0, 1, 0, 1, 0, 0, 0, 1, 1, 1]"
  by code_simp

lemma race_start_reachable: "reachable hs_init (hs_step race_deps) race_start"
proof -
  let ?w = "demo_world [connect_json, connect_json]"
  let ?w1 = "?w\<lparr>w_ws := \<lparr>wire_calls = [(0, WsAccept)], wire_input = [connect_json, connect_json]\<rparr>\<rparr>"
  let ?a = "race_task 0 ''a''" and ?b = "race_task 1 ''b''"
  let ?a' = "?a\<lparr>ht_phase := HsEntered\<rparr>" and ?b' = "?b\<lparr>ht_phase := HsEntered\<rparr>"
  have s0: "reachable hs_init (hs_step race_deps) (?w, [])"
    by (rule reach_init) (simp add: hs_init_def demo_world_ok)
  have s1: "hs_step race_deps (?w, []) (?w1, [?a])"
    using hs_accept [of race_deps 0 ?w WsDone ?w1 "[]" "Inr demo_db" "''a''" "''a''"]
    by (simp add: race_task_def race_deps_def demo_deps_def wsE_def wire_sockets_def demo_world_def new_world_def)
  have s2: "hs_step race_deps (?w1, [?a]) (race_accepted, [?a, ?b])"
    using hs_accept [of race_deps 1 ?w1 WsDone race_accepted "[?a]" "Inr demo_db" "''b''" "''b''"]
    by (simp add: race_task_def race_deps_def demo_deps_def wsE_def wire_sockets_def race_accepted_def)
  have s3: "hs_step race_deps (race_accepted, [?a, ?b]) (race_accepted, [?a', ?b])"
    using hs_enter [of 0 "[?a, ?b]" ?a race_deps race_accepted] by (simp add: race_task_def race_deps_def holders_def)
  have s4: "hs_step race_deps (race_accepted, [?a', ?b]) (race_accepted, [?a', ?b'])"
    using hs_enter [of 1 "[?a', ?b]" ?b race_deps race_accepted] by (simp add: race_task_def race_deps_def holders_def)
  note next_state = reach_step [where init = hs_init and step = "hs_step race_deps"]
  from s0 s1 have "reachable hs_init (hs_step race_deps) (?w1, [?a])" by (rule next_state)
  from this s2 have "reachable hs_init (hs_step race_deps) (race_accepted, [?a, ?b])" by (rule next_state)
  from this s3 have "reachable hs_init (hs_step race_deps) (race_accepted, [?a', ?b])" by (rule next_state)
  from this s4 show ?thesis unfolding race_start_def by (rule next_state)
qed

lemma race_apart: "registered_only race_start" "apart (snd race_start)"
  by (simp add: race_start_def race_accepted_def registered_only_def demo_world_def new_world_def)
    (auto simp: race_start_def race_task_def apart_def less_Suc_eq)

lemma race_reachable: "reachable hs_init (hs_step race_deps) race_end"
  unfolding race_end_def using reach_schedule [OF race_start_reachable race_apart race_schedule] by blast

text \<open>C2: The connection limit under overlapping handshakes.  The limit of a tenant is compared before the
  awaits of the session calls and the connection is registered after them, so handshakes that overlap
  can exceed it.  In every reachable interleaving of any number of handshakes with all other tasks, the
  registered connections of a tenant together with the handshakes that have passed the check never
  exceed the limit plus the permits of the handshake semaphore less one, and at most as many handshakes
  are inside the semaphore as it has permits; with one permit the limit is exact.\<close>

theorem tenant_limit_bound:
  assumes "reachable hs_init (hs_step D) (w, ts)"
  shows "tenant_connection_count (w_reg w) t + pending t ts
      \<le> max 0 (max_connections_per_tenant (dp_cfg D) + max_handshakes_in_flight (dp_cfg D) - 1) \<and>
    holders ts \<le> max 0 (max_handshakes_in_flight (dp_cfg D)) \<and>
    (max_handshakes_in_flight (dp_cfg D) \<le> 1 \<longrightarrow>
       tenant_connection_count (w_reg w) t \<le> max 0 (max_connections_per_tenant (dp_cfg D)))"
proof -
  have inv: "hs_inv D (w, ts)" by (rule admission_sys.reachable_inv [OF assms])
  then have "tenant_connection_count (w_reg w) t + pending t ts \<le> tenant_bound (dp_cfg D)"
    and "holders ts \<le> max 0 (max_handshakes_in_flight (dp_cfg D))" by (simp_all add: hs_inv_def)
  then show ?thesis using pending_nonneg(1) [of t ts] unfolding tenant_bound_def by linarith
qed

text \<open>The bound is reached: with a limit of one connection and two permits a tenant gets two connections.\<close>

theorem tenant_limit_bound_witness:
  "\<exists>w ts. reachable hs_init (hs_step race_deps) (w, ts) \<and>
     max_connections_per_tenant (dp_cfg race_deps) = 1 \<and> max_handshakes_in_flight (dp_cfg race_deps) = 2 \<and>
     tenant_connection_count (w_reg w) ''1'' = 2 \<and> pending ''1'' ts = 0"
proof -
  obtain w ts where s: "race_end = (w, ts)" by (cases race_end)
  have r: "reachable hs_init (hs_step race_deps) (w, ts)" using race_reachable s by simp
  have c: "tenant_connection_count (w_reg w) ''1'' = 2" using race_counts unfolding s fst_conv .
  have cfg: "max_connections_per_tenant (dp_cfg race_deps) = 1" "max_handshakes_in_flight (dp_cfg race_deps) = 2"
    by (simp_all add: race_deps_def)
  from tenant_limit_bound [OF r, of "''1''"] c cfg pending_nonneg(1) [of "''1''" ts] have "pending ''1'' ts = 0" by simp
  with r c cfg show ?thesis by blast
qed

end
