(* ===== verification/Draining.thy ===== *)
theory Draining
  imports Lifecycle Admission
begin

text \<open>
  The shutdown of the gateway beside its other tasks.  The end of \<open>lifespan\<close> is a coroutine: while it waits
  for Redis or for a socket, handshakes that were accepted before go on, clients send frames, listeners
  deliver, and new sockets reach the endpoint.  \<open>sh_own\<close> is the shutdown cut at its awaits,
  \<open>sh_step\<close> interleaves it with the steps of \<open>Admission\<close>; \<open>shutdown_uncut\<close> shows that a shutdown nobody
  interrupts is \<open>lifespan_stop\<close> of \<open>Gateway\<close>.  A call of the socket library returns or raises here; the code
  puts no time limit on it.
\<close>

section \<open>The shutdown cut at its awaits\<close>

text \<open>Where the shutdown is suspended: in \<open>mark_draining\<close>; before the next connection of the snapshot is told;
  between its DISCONNECT and its close; in \<open>registrar.stop\<close>; in \<open>close_redis\<close>; finished.  When nobody is left to
  tell, the next segment stops the listeners.\<close>

datatype sh_phase =
    ShMarking
  | ShSending "nat list"
  | ShClosing nat "nat list"
  | ShStopping
  | ShPool
  | ShDone

text \<open>Beside the process: the handshakes accepted so far, the sockets that were past the test of the flag and
  waiting in \<open>accept\<close> when the shutdown began; and of the history the snapshot of the registry, the sockets of
  the handshakes that had not registered when it was taken, and the socket calls the shutdown has made.\<close>

record ('r, 'w) sh_sys =
  sh_app :: "('r, 'w) app"
  sh_registrar :: node_registrar
  sh_phase :: sh_phase
  sh_tasks :: "hs_task list"
  sh_accepting :: "nat list"
  sh_snapshot :: "nat list"
  sh_flight :: "nat list"
  sh_made :: "(nat \<times> ws_call) list"

definition sh_begin :: "node_registrar \<Rightarrow> hs_task list \<Rightarrow> nat list \<Rightarrow> ('r, 'w) app \<Rightarrow> ('r, 'w) sh_sys" where
  "sh_begin n ts acc a =
     \<lparr>sh_app = a\<lparr>ap_draining := True\<rparr>, sh_registrar = n, sh_phase = ShMarking, sh_tasks = ts, sh_accepting = acc,
      sh_snapshot = [], sh_flight = [], sh_made = []\<rparr>"

definition drain_text :: "('r, 'w) deps \<Rightarrow> string" where
  "drain_text D = dump_json (dp_pydantic D) (DisconnectFrame ''NODE_DRAINING'')"

text \<open>The socket call of a phase and the phase after it.\<close>

fun socket_turn :: "('r, 'w) deps \<Rightarrow> sh_phase \<Rightarrow> ((nat \<times> ws_call) \<times> sh_phase) option" where
  "socket_turn D (ShSending (ws # rest)) = Some ((ws, WsSend (drain_text D)), ShClosing ws rest)"
| "socket_turn D (ShClosing ws rest) = Some ((ws, WsClose (Some 4503)), ShSending rest)"
| "socket_turn D _ = None"

definition sh_socket :: "('r, 'w) deps \<Rightarrow> nat \<times> ws_call \<Rightarrow> ('r, 'w) app \<Rightarrow> ('r, 'w) app" where
  "sh_socket D = (\<lambda>(ws, call) a. snd (worldE (suppressE (thenE (wsE (dp_ws D) ws call) (returnE ()))) a))"

definition sh_mark :: "('r, 'w) deps \<Rightarrow> ('r, 'w) sh_sys \<Rightarrow> ('r, 'w) sh_sys" where
  "sh_mark D s =
     (let w = ap_world (sh_app s); conns = all_connections (w_reg w)
      in case mark_draining (dp_redis D) (dp_float D) (dp_cfg D) (active_count (w_reg w)) (sh_registrar s) (w_redis w) of
           (n, r) \<Rightarrow> s\<lparr>sh_app := (sh_app s)\<lparr>ap_world := w\<lparr>w_redis := r\<rparr>\<rparr>, sh_registrar := n, sh_phase := ShSending conns,
                         sh_snapshot := conns,
                         sh_flight := map ht_ws (filter (\<lambda>t. early (ht_phase t)) (sh_tasks s)) @ sh_accepting s\<rparr>)"

definition sh_own :: "('r, 'w) deps \<Rightarrow> ('r, 'w) sh_sys \<Rightarrow> ('r, 'w) sh_sys" where
  "sh_own D s =
     (case socket_turn D (sh_phase s) of
        Some (call, ph) \<Rightarrow> s\<lparr>sh_app := sh_socket D call (sh_app s), sh_made := sh_made s @ [call], sh_phase := ph\<rparr>
      | None \<Rightarrow>
          (case sh_phase s of
             ShMarking \<Rightarrow> sh_mark D s
           | ShSending _ \<Rightarrow>
               s\<lparr>sh_app := snd (worldE (subsE (\<lambda>m. sub_shutdown (remdups (map lt_channel (sm_tasks m))) m)) (sh_app s)),
                 sh_phase := ShStopping\<rparr>
           | ShStopping \<Rightarrow>
               (case node_stop (dp_redis D) (sh_registrar s) (w_redis (ap_world (sh_app s))) of
                  (n, r) \<Rightarrow> s\<lparr>sh_app := (sh_app s)\<lparr>ap_world := (ap_world (sh_app s))\<lparr>w_redis := r\<rparr>\<rparr>, sh_registrar := n,
                                sh_phase := ShPool\<rparr>)
           | ShPool \<Rightarrow> s\<lparr>sh_app := (sh_app s)\<lparr>ap_client := close_redis (ap_client (sh_app s))\<rparr>, sh_phase := ShDone\<rparr>
           | _ \<Rightarrow> s))"

text \<open>The calls of a drain of the connections \<open>xs\<close>, and those a phase has left.\<close>

definition drain_calls :: "('r, 'w) deps \<Rightarrow> nat list \<Rightarrow> (nat \<times> ws_call) list" where
  "drain_calls D xs = concat (map (\<lambda>ws. [(ws, WsSend (drain_text D)), (ws, WsClose (Some 4503))]) xs)"

fun calls_left :: "('r, 'w) deps \<Rightarrow> sh_phase \<Rightarrow> (nat \<times> ws_call) list" where
  "calls_left D (ShSending xs) = drain_calls D xs"
| "calls_left D (ShClosing ws xs) = (ws, WsClose (Some 4503)) # drain_calls D xs"
| "calls_left D _ = []"

fun segments_left :: "sh_phase \<Rightarrow> nat" where
  "segments_left (ShSending xs) = 2 * length xs + 3"
| "segments_left (ShClosing ws xs) = 2 * length xs + 4"
| "segments_left ShStopping = 2"
| "segments_left ShPool = 1"
| "segments_left _ = 0"

section \<open>A shutdown nobody interrupts\<close>

lemma drain_calls_simps [simp]:
  "drain_calls D [] = []"
  "drain_calls D (ws # xs) = (ws, WsSend (drain_text D)) # (ws, WsClose (Some 4503)) # drain_calls D xs"
  by (simp_all add: drain_calls_def)

lemma sh_socket_run:
  "sh_socket D (ws, call) a = a\<lparr>ap_world := (ap_world a)\<lparr>w_ws := snd (ws_exec (dp_ws D) ws call (w_ws (ap_world a)))\<rparr>\<rparr>"
  by (auto simp: sh_socket_def worldE_def suppressE_def catchE_def thenE_def bindE_def wsE_def split: prod.split sum.split)

lemma sh_own_socket:
  assumes "sh_phase s = ShSending (ws # xs)"
  shows "(sh_own D ^^ 2) s = s\<lparr>sh_app := (sh_app s)\<lparr>ap_world := (ap_world (sh_app s))\<lparr>w_ws := drain_socket D (w_ws (ap_world (sh_app s))) ws\<rparr>\<rparr>,
    sh_made := sh_made s @ drain_calls D [ws], sh_phase := ShSending xs\<rparr>"
  using assms by (simp add: numeral_2_eq_2 sh_own_def sh_socket_run drain_socket_def drain_text_def)

lemma sh_own_drain:
  assumes "sh_phase s = ShSending xs"
  shows "(sh_own D ^^ (2 * length xs)) s =
    s\<lparr>sh_app := (sh_app s)\<lparr>ap_world := (ap_world (sh_app s))\<lparr>w_ws := foldl (drain_socket D) (w_ws (ap_world (sh_app s))) xs\<rparr>\<rparr>,
      sh_made := sh_made s @ drain_calls D xs, sh_phase := ShSending []\<rparr>"
  using assms
proof (induction xs arbitrary: s)
  case (Cons ws xs)
  have n: "2 * length (ws # xs) = 2 * length xs + 2" by simp
  show ?case unfolding n funpow_add comp_def sh_own_socket [OF Cons.prems] by (subst Cons.IH) simp_all
qed simp

lemma shutdown_uncut:
  "\<exists>t. t = (sh_own D ^^ (2 * length (all_connections (w_reg (ap_world a))) + 4)) (sh_begin n ts acc a) \<and>
     sh_phase t = ShDone \<and> lifespan_stop D n a = (Inr (sh_registrar t), sh_app t)"
proof -
  let ?w = "ap_world a" and ?k = "2 * length (all_connections (w_reg (ap_world a)))"
  obtain n1 r1 where m: "mark_draining (dp_redis D) (dp_float D) (dp_cfg D) (active_count (w_reg ?w)) n (w_redis ?w) = (n1, r1)"
    by fastforce
  obtain n2 r2 where st: "node_stop (dp_redis D) n1 r1 = (n2, r2)" by fastforce
  define s1 where "s1 = sh_own D (sh_begin n ts acc a)"
  have s1: "sh_phase s1 = ShSending (all_connections (w_reg ?w))" "sh_registrar s1 = n1"
    "sh_app s1 = a\<lparr>ap_draining := True, ap_world := ?w\<lparr>w_redis := r1\<rparr>\<rparr>"
    using m by (simp_all add: s1_def sh_own_def sh_begin_def sh_mark_def Let_def)
  have k: "?k + 4 = 3 + (?k + 1)" by simp
  have "(sh_own D ^^ (?k + 1)) (sh_begin n ts acc a) = (sh_own D ^^ ?k) s1" by (simp add: s1_def funpow_swap1)
  then have t: "(sh_own D ^^ (?k + 4)) (sh_begin n ts acc a) = (sh_own D ^^ 3) ((sh_own D ^^ ?k) s1)"
    unfolding k by (simp only: funpow_add comp_def)
  show ?thesis
    unfolding t sh_own_drain [OF s1(1)] lifespan_stop_run [OF refl m st]
    using s1 st by (simp add: numeral_3_eq_3 sh_own_def worldE_def subsE_def close_redis_def)
qed

section \<open>Beside the other tasks\<close>

text \<open>A segment of the shutdown; a step of a handshake or another task, where a handshake joins only from
  \<open>accept\<close> and the subscription manager changes by its own operations; a new socket at the endpoint.\<close>

inductive sh_step :: "('r, 'w) deps \<Rightarrow> ('r, 'w) sh_sys \<Rightarrow> ('r, 'w) sh_sys \<Rightarrow> bool" for D :: "('r, 'w) deps" where
  sh_turn: "sh_phase s \<noteq> ShDone \<Longrightarrow> sh_step D s (sh_own D s)"
| sh_other: "hs_step D (ap_world (sh_app s), sh_tasks s) (w, ts) \<Longrightarrow>
    \<forall>t \<in> set (drop (length (sh_tasks s)) ts). ht_ws t \<in> set (sh_accepting s) \<Longrightarrow>
    mgr_step\<^sup>*\<^sup>* (w_subs (ap_world (sh_app s))) (w_subs w) \<Longrightarrow>
    sh_step D s (s\<lparr>sh_app := (sh_app s)\<lparr>ap_world := w\<rparr>, sh_tasks := ts\<rparr>)"
| sh_socket_arrives: "websocket_endpoint D tbl fuel ws us uc (sh_app s) = (x, a) \<Longrightarrow> sh_step D s (s\<lparr>sh_app := a\<rparr>)"

definition sh_init :: "('r, 'w) deps \<Rightarrow> ('r, 'w) sh_sys \<Rightarrow> bool" where
  "sh_init D s =
     (\<exists>n ts acc a. s = sh_begin n ts acc a \<and> reachable hs_init (hs_step D) (ap_world a, ts) \<and> listener_inv (w_subs (ap_world a)))"

text \<open>Who may be registered: the snapshot, and the handshakes that were in flight when it was taken.\<close>

definition only_late :: "('r, 'w) world \<Rightarrow> hs_task list \<Rightarrow> nat list \<Rightarrow> nat list \<Rightarrow> bool" where
  "only_late w ts snapshot flight =
     (set (all_connections (w_reg w)) \<subseteq> set snapshot \<union> set flight \<and> (\<forall>t \<in> set ts. early (ht_phase t) \<longrightarrow> ht_ws t \<in> set flight))"

definition sh_inv :: "('r, 'w) deps \<Rightarrow> ('r, 'w) sh_sys \<Rightarrow> bool" where
  "sh_inv D s =
     (let a = sh_app s; w = ap_world a in
      ap_draining a \<and> reachable hs_init (hs_step D) (w, sh_tasks s) \<and> listener_inv (w_subs w) \<and>
      (sh_phase s = ShMarking \<longrightarrow> sh_made s = []) \<and>
      (sh_phase s \<noteq> ShMarking \<longrightarrow>
         sh_made s @ calls_left D (sh_phase s) = drain_calls D (sh_snapshot s) \<and>
         only_late w (sh_tasks s) (sh_snapshot s) (sh_flight s) \<and> set (sh_accepting s) \<subseteq> set (sh_flight s) \<and>
         nr_status (sh_registrar s) = ''draining'') \<and>
      (sh_phase s \<in> {ShPool, ShDone} \<longrightarrow> \<not> nr_task (sh_registrar s)) \<and> (sh_phase s = ShDone \<longrightarrow> ap_client a = None))"

lemma snd_update: "snd ` set (AList.update k v xs) \<subseteq> insert v (snd ` set xs)"
  by (induction xs) auto

lemma registered_listed:
  "set (all_connections (snd (registered ws c u (h, R)))) \<subseteq> insert ws (set (all_connections R))"
  using snd_update by (force simp: registered_def registry_add_def all_connections_def)

lemma only_late_step:
  assumes "only_late w ts snapshot flight" and "hs_inv D (w, ts)" and "hs_step D (w, ts) (w', ts')"
    and "\<forall>t \<in> set (drop (length ts) ts'). ht_ws t \<in> set flight"
  shows "only_late w' ts' snapshot flight"
  using assms(3)
proof (cases rule: hs_step.cases)
  case (hs_accept ws r db us uc)
  have "w_reg w' = w_reg w" using quietD [OF quiet_wsE hs_accept(2)] by (simp add: outside_def)
  with assms(1,4) hs_accept show ?thesis by (auto simp: only_late_def)
next
  case (hs_enter i t)
  have "set ts' \<subseteq> insert (t\<lparr>ht_phase := HsEntered\<rparr>) (set ts)" unfolding hs_enter(2) by (rule set_update_subset_insert)
  moreover have "ht_ws t \<in> set flight" using assms(1) hs_enter nth_mem [OF hs_enter(3)] by (auto simp: only_late_def)
  ultimately show ?thesis using assms(1) hs_enter(1) by (auto simp: only_late_def)
next
  case (hs_run i t ph)
  have sub: "set ts' \<subseteq> insert (t\<lparr>ht_phase := ph\<rparr>) (set ts)" unfolding hs_run(1) by (rule set_update_subset_insert)
  have t: "t \<in> set ts" using hs_run nth_mem by metis
  have early: "early ph \<Longrightarrow> early (ht_phase t)" using hs_advance_phase(2) [OF hs_run(6,4)] by simp
  from hs_run(6) show ?thesis
  proof (cases rule: hs_advance_effect)
    case quiet_step
    then have "w_reg w' = w_reg w" by (simp add: reg_of_def)
    with assms(1) sub early t show ?thesis by (auto simp: only_late_def)
  next
    case (registers tid c u)
    have "w_reg w' = snd (registered (ht_ws t) c u (w_heap w, w_reg w))" using registers(8) by (metis reg_of_def snd_conv)
    moreover have "ht_ws t \<in> set flight" using assms(1) t registers(3) by (auto simp: only_late_def)
    ultimately have "set (all_connections (w_reg w')) \<subseteq> set snapshot \<union> set flight"
      using assms(1) registered_listed [of "ht_ws t" c u "w_heap w" "w_reg w"] by (auto simp: only_late_def)
    with assms(1) sub early t show ?thesis by (auto simp: only_late_def)
  qed
next
  case hs_other
  have "gw_inv (reg_of w)" using assms(2) by (simp add: hs_inv_def)
  from listed.kept_task [OF this hs_other(2), of "set snapshot \<union> set flight"] assms(1) hs_other(1) show ?thesis
    by (simp add: only_late_def)
qed

text \<open>Steps that leave the registry alone are steps of the other tasks.\<close>

lemma reach_elsewhere:
  "reachable hs_init (hs_step D) (w, ts) \<Longrightarrow> w_heap w' = w_heap w \<Longrightarrow> w_reg w' = w_reg w \<Longrightarrow> reachable hs_init (hs_step D) (w', ts)"
  by (rule reach_step) (auto intro: hs_other gw_elsewhere)

lemma only_late_cong: "w_reg w' = w_reg w \<Longrightarrow> only_late w' ts sn fl = only_late w ts sn fl"
  by (simp add: only_late_def)

lemma listener_inv_shutdown: "listener_inv m \<Longrightarrow> listener_inv (sub_shutdown (remdups (map lt_channel (sm_tasks m))) m)"
  using shutdown_stops_all [of m] unfolding listener_inv_def by (simp add: sub_shutdown_def)

lemma sh_inv_turn:
  assumes "sh_inv D s"
  shows "sh_inv D (sh_own D s)"
proof -
  let ?w = "ap_world (sh_app s)"
  have r: "reachable hs_init (hs_step D) (?w, sh_tasks s)" using assms by (simp add: sh_inv_def Let_def)
  have ext: "reachable hs_init (hs_step D) (w', sh_tasks s)" if "w_heap w' = w_heap ?w" "w_reg w' = w_reg ?w" for w'
    by (rule reach_elsewhere [OF r that])
  show ?thesis
  proof (cases "sh_phase s")
    case ShMarking
    obtain n r where m: "mark_draining (dp_redis D) (dp_float D) (dp_cfg D) (active_count (w_reg ?w)) (sh_registrar s) (w_redis ?w) = (n, r)"
      by fastforce
    then have "nr_status n = ''draining''" by (auto simp: mark_draining_def Let_def)
    with assms ShMarking m ext [of "?w\<lparr>w_redis := r\<rparr>"] show ?thesis
      by (auto simp: sh_inv_def sh_own_def sh_mark_def Let_def only_late_def)
  next
    case (ShSending xs)
    show ?thesis
    proof (cases xs)
      case Nil
      with assms ShSending ext [of "?w\<lparr>w_subs := _\<rparr>"] listener_inv_shutdown show ?thesis
        by (simp add: sh_inv_def sh_own_def Let_def worldE_def subsE_def only_late_def)
    next
      case (Cons ws rest)
      with assms ShSending ext [of "?w\<lparr>w_ws := _\<rparr>"] show ?thesis
        by (simp add: sh_inv_def sh_own_def Let_def sh_socket_run only_late_def)
    qed
  next
    case (ShClosing ws rest)
    with assms ext [of "?w\<lparr>w_ws := _\<rparr>"] show ?thesis
      by (simp add: sh_inv_def sh_own_def Let_def sh_socket_run only_late_def)
  next
    case ShStopping
    obtain n r where m: "node_stop (dp_redis D) (sh_registrar s) (w_redis ?w) = (n, r)" by fastforce
    then have "nr_status n = nr_status (sh_registrar s)" "\<not> nr_task n" by (auto simp: node_stop_def)
    with assms ShStopping m ext [of "?w\<lparr>w_redis := r\<rparr>"] show ?thesis by (simp add: sh_inv_def sh_own_def Let_def only_late_def)
  qed (use assms in \<open>simp_all add: sh_inv_def sh_own_def Let_def close_redis_def\<close>)
qed

lemma sh_inv_step:
  assumes "sh_inv D s" and "sh_step D s t"
  shows "sh_inv D t"
  using assms(2)
proof (cases rule: sh_step.cases)
  case sh_turn
  then show ?thesis using sh_inv_turn [OF assms(1)] by simp
next
  case (sh_other w ts)
  let ?w = "ap_world (sh_app s)"
  have r: "reachable hs_init (hs_step D) (?w, sh_tasks s)" and li: "listener_inv (w_subs ?w)"
    using assms(1) by (simp_all add: sh_inv_def Let_def)
  note inv = admission_sys.reachable_inv [OF r]
  have late: "only_late w ts (sh_snapshot s) (sh_flight s)" if "sh_phase s \<noteq> ShMarking"
    by (rule only_late_step [OF _ inv sh_other(2)]) (use assms(1) that sh_other(3) in \<open>auto simp: sh_inv_def Let_def\<close>)
  from r sh_other(2) have r': "reachable hs_init (hs_step D) (w, ts)" by (rule reach_step)
  show ?thesis using assms(1) sh_other(1) late r' listener_inv_mgr [OF sh_other(4) li] by (simp add: sh_inv_def Let_def)
next
  case (sh_socket_arrives tbl fuel ws us uc x a)
  have "ap_draining (sh_app s)" and r: "reachable hs_init (hs_step D) (ap_world (sh_app s), sh_tasks s)"
    using assms(1) by (simp_all add: sh_inv_def Let_def)
  from draining_refuses(1) [OF this(1), of D tbl fuel ws us uc] sh_socket_arrives(2)
  have a: "a = (sh_app s)\<lparr>ap_world := (ap_world (sh_app s))\<lparr>w_ws := snd (ws_exec (dp_ws D) ws (WsClose (Some 4503)) (w_ws (ap_world (sh_app s))))\<rparr>\<rparr>"
    by simp
  show ?thesis using assms(1) reach_elsewhere [OF r, of "ap_world a"] sh_socket_arrives(1) unfolding a
    by (simp add: sh_inv_def Let_def only_late_def)
qed

interpretation shutdown_sys: invariant_system "sh_init D" "sh_step D" "sh_inv D" for D :: "('r, 'w) deps"
proof
  show "sh_inv D s" if "sh_init D s" for s
  proof -
    obtain n ts acc a where s: "s = sh_begin n ts acc a" and r: "reachable hs_init (hs_step D) (ap_world a, ts)"
      and li: "listener_inv (w_subs (ap_world a))" using \<open>sh_init D s\<close> by (auto simp: sh_init_def)
    then show ?thesis by (simp add: sh_inv_def sh_begin_def)
  qed
qed (rule sh_inv_step)

text \<open>The shutdown comes to its end once the calls it makes return.\<close>

lemma segments_left_turn: "sh_phase s \<noteq> ShDone \<Longrightarrow> sh_phase s \<noteq> ShMarking \<Longrightarrow>
    segments_left (sh_phase (sh_own D s)) < segments_left (sh_phase s) \<and> sh_phase (sh_own D s) \<noteq> ShMarking"
proof (cases "sh_phase s")
  case (ShSending xs)
  then show ?thesis by (cases xs) (simp_all add: sh_own_def)
qed (auto simp: sh_own_def split: prod.split)

lemma shutdown_ends: "\<exists>k. sh_phase ((sh_own D ^^ k) s) = ShDone"
proof -
  have run: "\<exists>k. sh_phase ((sh_own D ^^ k) s) = ShDone" if "sh_phase s \<noteq> ShMarking" for s
    using that
  proof (induction "segments_left (sh_phase s)" arbitrary: s rule: less_induct)
    case less
    show ?case
    proof (cases "sh_phase s = ShDone")
      case True
      then show ?thesis by (intro exI [of _ 0]) simp
    next
      case False
      note turn = segments_left_turn [OF False less.prems, of D]
      from less.hyps [of "sh_own D s"] turn obtain k where "sh_phase ((sh_own D ^^ k) (sh_own D s)) = ShDone" by blast
      then show ?thesis by (intro exI [of _ "Suc k"]) (simp add: funpow_swap1)
    qed
  qed
  show ?thesis
  proof (cases "sh_phase s = ShMarking")
    case True
    then have "sh_phase (sh_own D s) \<noteq> ShMarking" by (simp add: sh_own_def sh_mark_def Let_def split: prod.split)
    from run [OF this] obtain k where "sh_phase ((sh_own D ^^ k) (sh_own D s)) = ShDone" by blast
    then show ?thesis by (intro exI [of _ "Suc k"]) (simp add: funpow_swap1)
  qed (rule run)
qed

section \<open>Property\<close>

text \<open>C16: Graceful shutdown.  In every state the shutdown reaches, interleaved at its awaits with handshakes in
  flight, frames, all other tasks and new sockets, and whatever Redis and the sockets do: the gateway is
  draining and reported as not ready; a new socket is closed with 4503 and nothing else changes; once the
  snapshot of the registry is taken, the socket calls made so far and those left are exactly, for each
  connection of the snapshot in the order of registration, the DISCONNECT frame and a close with 4503, also
  when a socket raised; every registered connection is in the snapshot or comes from a handshake that was in
  flight when it was taken, and only such a connection goes untold.  The segment after the last close leaves
  no listener running, the one after it removes the record of the node when Redis answers, and as soon as the
  calls it makes return the shutdown is at its end.  A shutdown that nobody interrupts is \<open>lifespan_stop\<close>.\<close>

theorem graceful_shutdown:
  assumes "reachable (sh_init D) (sh_step D) s" and "a = sh_app s" and "w = ap_world a" and "s' = sh_own D s"
  shows "ap_draining a \<and> (\<exists>j a'. health_ready D a = (Inr (503, j), a')) \<and>
    (\<forall>tbl fuel ws us uc. snd (websocket_endpoint D tbl fuel ws us uc a) =
       a\<lparr>ap_world := w\<lparr>w_ws := snd (ws_exec (dp_ws D) ws (WsClose (Some 4503)) (w_ws w))\<rparr>\<rparr>) \<and>
    (sh_phase s \<noteq> ShMarking \<longrightarrow>
       sh_made s @ calls_left D (sh_phase s) = drain_calls D (sh_snapshot s) \<and>
       set (all_connections (w_reg w)) \<subseteq> set (sh_snapshot s) \<union> set (sh_flight s) \<and> nr_status (sh_registrar s) = ''draining'') \<and>
    (sh_phase s = ShSending [] \<longrightarrow> (\<forall>ch j. \<not> running (w_subs (ap_world (sh_app s'))) ch j)) \<and>
    (sh_phase s = ShStopping \<and> redis_calm (dp_redis D) db \<longrightarrow>
       rkeys (db (w_redis (ap_world (sh_app s')))) (node_key (nr_node_id (sh_registrar s))) = None) \<and>
    (sh_phase s = ShDone \<longrightarrow> \<not> nr_task (sh_registrar s) \<and> ap_client a = None) \<and>
    (\<exists>k. sh_phase ((sh_own D ^^ k) s) = ShDone) \<and>
    (\<exists>k t. t = (sh_own D ^^ k) (sh_begin n ts acc b) \<and> sh_phase t = ShDone \<and> lifespan_stop D n b = (Inr (sh_registrar t), sh_app t))"
proof -
  have inv: "sh_inv D s" by (rule shutdown_sys.reachable_inv [OF assms(1)])
  then have dr: "ap_draining a" and li: "listener_inv (w_subs w)" by (simp_all add: sh_inv_def Let_def assms(2,3))
  have l: "\<forall>ch j. \<not> running (w_subs (ap_world (sh_app s'))) ch j" if "sh_phase s = ShSending []"
    using that shutdown_stops_all [OF li] by (simp add: assms(2-4) sh_own_def worldE_def subsE_def)
  have k: "rkeys (db (w_redis (ap_world (sh_app s')))) (node_key (nr_node_id (sh_registrar s))) = None"
    if "sh_phase s = ShStopping" "redis_calm (dp_redis D) db"
    using that redis_calm.calm_node_stop [OF that(2), of "sh_registrar s" "w_redis w"]
    by (auto simp: assms(2-4) sh_own_def split: prod.split)
  have u: "\<exists>k t. t = (sh_own D ^^ k) (sh_begin n ts acc b) \<and> sh_phase t = ShDone \<and> lifespan_stop D n b = (Inr (sh_registrar t), sh_app t)"
    using shutdown_uncut by blast
  have i: "sh_phase s \<noteq> ShMarking \<longrightarrow> sh_made s @ calls_left D (sh_phase s) = drain_calls D (sh_snapshot s) \<and>
       set (all_connections (w_reg w)) \<subseteq> set (sh_snapshot s) \<union> set (sh_flight s) \<and> nr_status (sh_registrar s) = ''draining''"
    "sh_phase s = ShDone \<longrightarrow> \<not> nr_task (sh_registrar s) \<and> ap_client a = None"
    using inv by (simp_all add: sh_inv_def Let_def only_late_def assms(2,3))
  show ?thesis
    using dr draining_refuses [OF dr, of D] l k u i shutdown_ends [of D s] unfolding assms(3) by blast
qed

text \<open>A client that registers after the snapshot: of two handshakes the first is registered and the second one
  segment before it when the shutdown begins; the snapshot holds the first alone.\<close>

definition late_start :: "(mem, wire) world \<times> hs_task list" where
  "late_start = foldl (hs_turn race_deps) race_start [0, 1, 0, 1, 0, 0, 0, 1, 1]"

definition late_app :: "(mem, wire) app" where
  "late_app = \<lparr>ap_world = fst late_start, ap_draining = False, ap_client = None, ap_log = \<lparr>root_handlers = [], root_level = 30\<rparr>\<rparr>"

definition late_begin :: "(mem, wire) sh_sys" where
  "late_begin = sh_begin (new_registrar ''n1'') (snd late_start) [] late_app"

definition late_marked :: "(mem, wire) sh_sys" where
  "late_marked = sh_own race_deps late_begin"

definition late_state :: "(mem, wire) sh_sys" where
  "late_state = (case hs_turn race_deps (ap_world (sh_app late_marked), sh_tasks late_marked) 1 of
     (w, ts) \<Rightarrow> late_marked\<lparr>sh_app := (sh_app late_marked)\<lparr>ap_world := w\<rparr>, sh_tasks := ts\<rparr>)"

lemma turns_subs: "w_subs (fst (foldl (hs_turn D) s is)) = w_subs (fst s)"
proof (induction "is" arbitrary: s)
  case (Cons i "is")
  obtain w ts where s: "s = (w, ts)" by (cases s)
  have "w_subs (fst (hs_turn D s i)) = w_subs (fst s)"
    using hs_advance_subs [OF prod.collapse [symmetric]] by (simp add: s hs_turn_def Let_def)
  with Cons.IH show ?case by simp
qed simp

lemma late_schedule: "hs_schedule race_deps race_start [0, 1, 0, 1, 0, 0, 0, 1, 1]"
  by code_simp

lemma late_task: "1 < length (snd late_start) \<and> inside (ht_phase (snd late_start ! 1))"
  by code_simp

definition sh_view :: "('r, 'w) sh_sys \<Rightarrow> nat list \<times> nat list \<times> nat list \<times> bool" where
  "sh_view s = (all_connections (w_reg (ap_world (sh_app s))), sh_snapshot s, sh_flight s, sh_phase s = ShMarking)"

lemma late_view: "sh_view late_state = ([0, 1], [0], [1], False)"
  by code_simp

lemma late_observed:
  "all_connections (w_reg (ap_world (sh_app late_state))) = [0, 1] \<and> sh_snapshot late_state = [0] \<and> sh_flight late_state = [1] \<and>
   sh_phase late_state \<noteq> ShMarking"
  using late_view unfolding sh_view_def by simp

lemma sh_own_begin:
  "sh_tasks (sh_own D (sh_begin n us acc a)) = us"
  "w_heap (ap_world (sh_app (sh_own D (sh_begin n us acc a)))) = w_heap (ap_world a)"
  by (simp_all add: sh_own_def sh_begin_def sh_mark_def Let_def split: prod.split)

lemma late_reachable: "reachable (sh_init race_deps) (sh_step race_deps) late_state"
proof -
  from reach_schedule [OF race_start_reachable race_apart late_schedule]
  have ok: "reachable hs_init (hs_step race_deps) late_start" "registered_only late_start" "apart (snd late_start)"
    by (simp_all add: late_start_def)
  have "listener_inv (new_sub_mgr nid)" for nid using sub_inv_new sub_inv_iff by blast
  then have li: "listener_inv (w_subs (fst late_start))"
    unfolding late_start_def turns_subs by (simp add: race_start_def race_accepted_def demo_world_def)
  have b: "reachable (sh_init race_deps) (sh_step race_deps) late_begin"
  proof (rule reach_init)
    have "reachable hs_init (hs_step race_deps) (ap_world late_app, snd late_start)" "listener_inv (w_subs (ap_world late_app))"
      using ok(1) li by (simp_all add: late_app_def)
    then show "sh_init race_deps late_begin" unfolding sh_init_def late_begin_def by blast
  qed
  have "sh_phase late_begin \<noteq> ShDone" by (simp add: late_begin_def sh_begin_def)
  from b sh_turn [OF this] have m: "reachable (sh_init race_deps) (sh_step race_deps) late_marked"
    unfolding late_marked_def by (rule reach_step)
  let ?w = "ap_world (sh_app late_marked)" and ?ts = "sh_tasks late_marked"
  have ts: "?ts = snd late_start" and heap: "w_heap ?w = w_heap (fst late_start)"
    unfolding late_marked_def late_begin_def sh_own_begin by (simp_all add: late_app_def)
  have only: "registered_only (?w, ?ts)" "apart (snd (?w, ?ts))"
    using ok(2,3) ts heap by (simp_all add: registered_only_def case_prod_beta)
  obtain w ts' where turn: "hs_turn race_deps (?w, ?ts) 1 = (w, ts')" by fastforce
  have i: "1 < length (snd (?w, ?ts))" "inside (ht_phase (snd (?w, ?ts) ! 1))" using late_task ts by simp_all
  from schedule_turn(1) [OF only i, of race_deps] turn have step: "hs_step race_deps (?w, ?ts) (w, ts')" by simp
  have "length ts' = length ?ts" using turn by (auto simp: hs_turn_def Let_def)
  moreover have "w_subs w = w_subs ?w" using turns_subs [of race_deps "(?w, ?ts)" "[1]"] turn by simp
  ultimately have "sh_step race_deps late_marked (late_marked\<lparr>sh_app := (sh_app late_marked)\<lparr>ap_world := w\<rparr>, sh_tasks := ts'\<rparr>)"
    using sh_other [OF step] by simp
  from m this show ?thesis unfolding late_state_def turn prod.case by (rule reach_step)
qed

theorem graceful_shutdown_witness:
  "\<exists>s. reachable (sh_init race_deps) (sh_step race_deps) s \<and> sh_snapshot s = [0] \<and> sh_flight s = [1] \<and>
     all_connections (w_reg (ap_world (sh_app s))) = [0, 1] \<and>
     sh_made s @ calls_left race_deps (sh_phase s) = drain_calls race_deps [0]"
proof -
  from graceful_shutdown [OF late_reachable refl refl refl] late_observed
  have "sh_made late_state @ calls_left race_deps (sh_phase late_state) = drain_calls race_deps [0]" by simp
  with late_reachable late_observed show ?thesis by blast
qed

end
