(* ===== verification/Heartbeat.thy ===== *)
theory Heartbeat
  imports Connections Redis_Client Frames
begin

text \<open>
  \<open>apps/gateway/heartbeat/monitor.py\<close>: the task that pings a connection and calls \<open>on_dead\<close> when no PONG
  comes back.  \<open>hb_task\<close> is \<open>run_heartbeat\<close> cut at its awaits: a step runs from one \<open>asyncio.sleep\<close> to the
  next, with the clock read once.  \<open>hb_step\<close> interleaves it with the passing of time, with the frame
  loop that records PONGs and with every other task that changes the connection; \<open>hs_pings\<close>,
  \<open>hs_pongs\<close> and \<open>hs_dead\<close> are histories.  \<open>hb_alone\<close> runs the task against a silent client.
\<close>

section \<open>The task\<close>

text \<open>Where the task is suspended: at the head of the outer loop, in the sleep between two pings, in the sleep of
  the poll loop (when the ping was sent, its deadline, when the sleep ends), or finished.\<close>

datatype hb_pc =
    HbLoop
  | HbSleep time
  | HbPoll time time time
  | HbDone

text \<open>The test of the inner \<open>while\<close> at time \<open>now\<close>, with \<open>alive\<close> still false.\<close>

definition hb_poll :: "connection \<Rightarrow> time \<Rightarrow> time \<Rightarrow> time \<Rightarrow> connection \<times> hb_pc \<times> string option" where
  "hb_poll c now sent_at deadline =
     (if now < deadline then (c, HbPoll sent_at deadline (now + 1 / 2), None)
      else (c, HbDone, Some ''HEARTBEAT_TIMEOUT''))"

text \<open>One step: \<open>None\<close> while the task sleeps, otherwise the connection, where it is suspended next, and the
  reason \<open>on_dead\<close> is called with, if it is.\<close>

fun hb_task ::
  "settings \<Rightarrow> pydantic \<Rightarrow> pyfloat \<Rightarrow> time \<Rightarrow> connection \<Rightarrow> hb_pc \<Rightarrow>
     (connection \<times> hb_pc \<times> string option) option" where
  "hb_task cfg P F now c HbLoop =
     Some (c, if conn_state c = ACTIVE then HbSleep (now + heartbeat_interval_seconds cfg) else HbDone, None)"
| "hb_task cfg P F now c (HbSleep until) =
     (if now < until then None
      else if conn_state c \<noteq> ACTIVE then Some (c, HbDone, None)
      else
        let server_time = str_float F now
        in case enqueue cfg (dump_json P (PingFrame server_time)) HIGH None None c of
             (Inl (SlowConsumerError _), c1) \<Rightarrow> Some (c1, HbDone, Some ''SLOW_CONSUMER'')
           | (Inl _, c1) \<Rightarrow> Some (c1, HbDone, None)
           | (Inr _, c1) \<Rightarrow>
               (case float_str F server_time of
                  None \<Rightarrow> Some (c1, HbDone, None)
                | Some sent_at \<Rightarrow> Some (hb_poll c1 now sent_at (now + heartbeat_timeout_seconds cfg))))"
| "hb_task cfg P F now c (HbPoll sent_at deadline until) =
     (if now < until then None
      else if conn_state c \<noteq> ACTIVE then Some (c, HbDone, None)
      else if sent_at \<le> last_pong_at c then Some (c, HbLoop, None)
      else Some (hb_poll c now sent_at deadline))"
| "hb_task cfg P F now c HbDone = None"

section \<open>The task among the others\<close>

record hb_sys =
  hs_conn :: connection
  hs_pc :: hb_pc
  hs_now :: time
  hs_pings :: "time list"
  hs_pongs :: "time list"
  hs_dead :: "(string \<times> time) list"

definition hb_init :: "hb_sys \<Rightarrow> bool" where
  "hb_init s =
     (hs_pc s = HbLoop \<and> hs_pings s = [] \<and> hs_pongs s = [] \<and> hs_dead s = [] \<and>
      last_pong_at (hs_conn s) \<le> hs_now s)"

text \<open>A ping is queued when the task goes from the sleep to the poll loop or ends there.\<close>

inductive hb_step :: "settings \<Rightarrow> pydantic \<Rightarrow> pyfloat \<Rightarrow> hb_sys \<Rightarrow> hb_sys \<Rightarrow> bool"
  for cfg :: settings and P :: pydantic and F :: pyfloat where
  tick_step: "hs_now s \<le> t \<Longrightarrow> hb_step cfg P F s (s\<lparr>hs_now := t\<rparr>)"
| pong_step: "hb_step cfg P F s
    (s\<lparr>hs_conn := (hs_conn s)\<lparr>last_pong_at := hs_now s\<rparr>, hs_pongs := hs_pongs s @ [hs_now s]\<rparr>)"
| other_step: "last_pong_at c = last_pong_at (hs_conn s) \<Longrightarrow> hb_step cfg P F s (s\<lparr>hs_conn := c\<rparr>)"
| beat_step: "hb_task cfg P F (hs_now s) (hs_conn s) (hs_pc s) = Some (c, pc, dead) \<Longrightarrow>
    hb_step cfg P F s
      (s\<lparr>hs_conn := c, hs_pc := pc,
         hs_pings := hs_pings s @ (if queue_depth c = queue_depth (hs_conn s) then [] else [hs_now s]),
         hs_dead := hs_dead s @ (case dead of None \<Rightarrow> [] | Some r \<Rightarrow> [(r, hs_now s)])\<rparr>)"

inductive_cases hb_stepE: "hb_step cfg P F s t"

section \<open>Invariant\<close>

lemma enqueue_high:
  "enqueue cfg p HIGH ch sq c = (Inr (), push_message p HIGH ch sq c)"
  by (rule enqueue_ok) simp

lemma push_message_keeps [simp]:
  "conn_state (push_message p prio ch sq c) = conn_state c"
  "last_pong_at (push_message p prio ch sq c) = last_pong_at c"
  "queue_depth (push_message p prio ch sq c) = queue_depth c + 1"
  by (simp_all add: push_message_def queue_depth_def)

abbreviation pinged :: "pydantic \<Rightarrow> pyfloat \<Rightarrow> time \<Rightarrow> connection \<Rightarrow> connection" where
  "pinged P F now c \<equiv> push_message (dump_json P (PingFrame (str_float F now))) HIGH None None c"

lemma hb_task_ping:
  assumes "pyfloat_ok F"
  shows "hb_task cfg P F now c (HbSleep until) =
    (if now < until then None else if conn_state c \<noteq> ACTIVE then Some (c, HbDone, None)
     else Some (hb_poll (pinged P F now c) now now (now + heartbeat_timeout_seconds cfg)))"
  using pyfloat_ok.float_str_float [OF assms] by (simp add: enqueue_high Let_def)

lemma fst_hb_poll [simp]: "fst (hb_poll c now sent dl) = c"
  by (simp add: hb_poll_def)

text \<open>The cases of a step, once floats read back as they were written.\<close>

lemma hb_task_cases:
  assumes "pyfloat_ok F" and "hb_task cfg P F now c pc = Some (c', pc', dead)"
  obtains (loop) "pc = HbLoop" "c' = c" "dead = None" "conn_state c = ACTIVE"
      "pc' = HbSleep (now + heartbeat_interval_seconds cfg)"
    | (stop) "c' = c" "dead = None" "pc' = HbDone" "conn_state c \<noteq> ACTIVE"
    | (ping) until where "pc = HbSleep until" "until \<le> now" "conn_state c = ACTIVE"
      "c' = pinged P F now c" "(c', pc', dead) = hb_poll c' now now (now + heartbeat_timeout_seconds cfg)"
    | (alive) sent dl until where "pc = HbPoll sent dl until" "sent \<le> last_pong_at c" "c' = c" "dead = None" "pc' = HbLoop"
    | (poll) sent dl until where "pc = HbPoll sent dl until" "until \<le> now" "last_pong_at c < sent" "conn_state c = ACTIVE" "c' = c"
      "(c', pc', dead) = hb_poll c now sent dl"
proof (cases pc)
  case HbLoop
  then show thesis using assms(2) loop stop by (auto split: if_splits)
next
  case (HbSleep until)
  note run = hb_task_ping [OF assms(1), of cfg P now c until, folded HbSleep]
  consider "conn_state c \<noteq> ACTIVE" | "conn_state c = ACTIVE" by blast
  then show thesis
  proof cases
    case 1
    with run assms(2) show thesis by (intro stop) (auto split: if_splits)
  next
    case 2
    with run assms(2) have "until \<le> now"
      and e: "(c', pc', dead) = hb_poll (pinged P F now c) now now (now + heartbeat_timeout_seconds cfg)"
      by (auto split: if_splits)
    moreover from e have "c' = pinged P F now c" by (metis fst_conv fst_hb_poll)
    ultimately show thesis using HbSleep 2 by (intro ping) simp_all
  qed
next
  case (HbPoll sent dl until)
  consider "conn_state c \<noteq> ACTIVE" | "conn_state c = ACTIVE" "sent \<le> last_pong_at c"
    | "conn_state c = ACTIVE" "last_pong_at c < sent" by fastforce
  then show thesis
  proof cases
    case 1
    with HbPoll assms(2) show thesis by (intro stop) (auto split: if_splits)
  next
    case 2
    with HbPoll assms(2) show thesis by (intro alive [of sent dl until]) (auto split: if_splits)
  next
    case 3
    with HbPoll assms(2) have "until \<le> now" "(c', pc', dead) = hb_poll c now sent dl" by (auto split: if_splits)
    moreover from this(2) have "c' = c" by (metis fst_conv fst_hb_poll)
    ultimately show thesis using HbPoll 3 by (intro poll [of sent dl until]) simp_all
  qed
qed (use assms(2) in auto)

definition hb_inv :: "settings \<Rightarrow> hb_sys \<Rightarrow> bool" where
  "hb_inv cfg s =
     (last_pong_at (hs_conn s) \<le> hs_now s \<and>
      (\<forall>t \<in> set (hs_pongs s). t \<le> last_pong_at (hs_conn s)) \<and>
      (\<forall>sent dl u. hs_pc s = HbPoll sent dl u \<longrightarrow>
         sent \<in> set (hs_pings s) \<and> sent \<le> hs_now s \<and> dl = sent + heartbeat_timeout_seconds cfg) \<and>
      (hs_dead s = [] \<or>
       hs_pc s = HbDone \<and>
       (\<exists>T t. hs_dead s = [(''HEARTBEAT_TIMEOUT'', T)] \<and> t \<in> set (hs_pings s) \<and> T \<le> hs_now s \<and>
          t + heartbeat_timeout_seconds cfg \<le> T \<and>
          (0 < heartbeat_timeout_seconds cfg \<longrightarrow> (\<forall>p \<in> set (hs_pongs s). p < t \<or> T \<le> p)))))"

lemma hb_inv_beat:
  assumes F: "pyfloat_ok F" and inv: "hb_inv cfg s"
    and t: "hb_task cfg P F (hs_now s) (hs_conn s) (hs_pc s) = Some (c, pc, dead)"
    and s': "s' = s\<lparr>hs_conn := c, hs_pc := pc,
         hs_pings := hs_pings s @ (if queue_depth c = queue_depth (hs_conn s) then [] else [hs_now s]),
         hs_dead := hs_dead s @ (case dead of None \<Rightarrow> [] | Some r \<Rightarrow> [(r, hs_now s)])\<rparr>"
  shows "hb_inv cfg s'"
proof -
  have nd: "hs_dead s = []" using inv t by (auto simp: hb_inv_def)
  from F t show ?thesis
  proof (cases rule: hb_task_cases)
    case (ping until)
    then show ?thesis using inv nd unfolding s' by (auto simp: hb_inv_def hb_poll_def split: if_splits)
  next
    case (poll sent dl until)
    then show ?thesis
      using inv nd unfolding s' by (fastforce simp: hb_inv_def hb_poll_def split: if_splits)
  qed (use inv nd in \<open>auto simp: s' hb_inv_def\<close>)
qed

lemma hb_inv_step:
  assumes "pyfloat_ok F" and "hb_inv cfg s" and "hb_step cfg P F s s'"
  shows "hb_inv cfg s'"
  using assms(3)
proof (cases rule: hb_step.cases)
  case (tick_step t)
  then show ?thesis using assms(2) by (force simp: hb_inv_def)
next
  case pong_step
  then show ?thesis using assms(2) by (force simp: hb_inv_def)
next
  case (other_step c)
  then show ?thesis using assms(2) by (simp add: hb_inv_def)
next
  case (beat_step c pc dead)
  with hb_inv_beat [OF assms(1,2)] show ?thesis by blast
qed

sublocale pyfloat_ok \<subseteq> beats: invariant_system hb_init "hb_step cfg P F" "hb_inv cfg" for cfg P
proof
  show "hb_inv cfg s" if "hb_init s" for s using that by (simp add: hb_init_def hb_inv_def)
  show "hb_inv cfg t" if "hb_inv cfg s" "hb_step cfg P F s t" for s t
    using hb_inv_step [OF pyfloat_ok_axioms that] .
qed

context pyfloat_ok
begin

lemma reachable_hb_inv: "reachable hb_init (hb_step cfg P F) s \<Longrightarrow> hb_inv cfg s"
  by (rule beats.reachable_inv)

end

section \<open>The task against a silent client\<close>

text \<open>Every sleep ends on time and no other task touches the connection; the result is the reason and the
  time of the call of \<open>on_dead\<close>, \<open>None\<close> when the fuel ends first or the task returns.\<close>

definition wake_time :: "time \<Rightarrow> hb_pc \<Rightarrow> time" where
  "wake_time now pc = (case pc of HbSleep u \<Rightarrow> max now u | HbPoll _ _ u \<Rightarrow> max now u | _ \<Rightarrow> now)"

fun hb_alone ::
  "settings \<Rightarrow> pydantic \<Rightarrow> pyfloat \<Rightarrow> nat \<Rightarrow> time \<Rightarrow> connection \<Rightarrow> hb_pc \<Rightarrow> (string \<times> time) option" where
  "hb_alone cfg P F 0 now c pc = None"
| "hb_alone cfg P F (Suc n) now c pc =
     (let t = wake_time now pc
      in case hb_task cfg P F t c pc of
           None \<Rightarrow> None
         | Some (c', pc', Some r) \<Rightarrow> Some (r, t)
         | Some (c', pc', None) \<Rightarrow> hb_alone cfg P F n t c' pc')"

lemma silent_poll:
  assumes "conn_state c = ACTIVE" and "last_pong_at c < sent"
  shows "dl \<le> u + of_nat k / 2 \<Longrightarrow> u < dl + 1 / 2 \<Longrightarrow> now \<le> u \<Longrightarrow> k < n \<Longrightarrow>
    \<exists>T. hb_alone cfg P F n now c (HbPoll sent dl u) = Some (''HEARTBEAT_TIMEOUT'', T) \<and> dl \<le> T \<and> T < dl + 1 / 2"
proof (induction k arbitrary: n now u)
  case 0
  then obtain m where n: "n = Suc m" by (cases n) auto
  from 0 assms show ?case by (simp add: n wake_time_def hb_poll_def max_def Let_def)
next
  case (Suc k)
  then obtain m where n: "n = Suc m" and m: "k < m" by (cases n) auto
  show ?case
  proof (cases "u < dl")
    case True
    have step: "hb_alone cfg P F n now c (HbPoll sent dl u) = hb_alone cfg P F m u c (HbPoll sent dl (u + 1 / 2))"
      using True Suc.prems(3) assms by (simp add: n wake_time_def hb_poll_def max_absorb2 Let_def)
    have "dl \<le> (u + 1 / 2) + of_nat k / 2" using Suc.prems(1) by (simp add: field_simps)
    from Suc.IH [OF this _ _ m, of u] True step show ?thesis by simp
  next
    case False
    with Suc.prems assms show ?thesis by (simp add: n wake_time_def hb_poll_def max_absorb2 Let_def)
  qed
qed

section \<open>Properties\<close>

text \<open>C28: A connection is declared dead only when it is.  Under any interleaving with the other tasks,
  \<open>on_dead\<close> is called at most once and only with HEARTBEAT_TIMEOUT (the SLOW_CONSUMER branch is never
  taken, because control frames are always queued), and then a ping had been queued at least the
  timeout earlier and no PONG was recorded since that ping.\<close>

theorem heartbeat_timeout_justified:
  assumes "pyfloat_ok F" and "reachable hb_init (hb_step cfg P F) s"
  shows "hs_dead s = [] \<or>
    (\<exists>T t. hs_dead s = [(''HEARTBEAT_TIMEOUT'', T)] \<and> t \<in> set (hs_pings s) \<and>
       t + heartbeat_timeout_seconds cfg \<le> T \<and> T \<le> hs_now s \<and>
       (0 < heartbeat_timeout_seconds cfg \<longrightarrow> (\<forall>p \<in> set (hs_pongs s). p < t \<or> T \<le> p)))"
proof -
  have "hb_inv cfg s" by (rule pyfloat_ok.reachable_hb_inv [OF assms])
  then show ?thesis unfolding hb_inv_def by blast
qed

text \<open>A run in which the client never answers: the states after each step of the task.\<close>

definition demo_conn :: connection where
  "demo_conn = new_connection ''c'' ''s'' ''t'' ACTIVE 0"

definition demo_beats :: "hb_pc \<Rightarrow> time \<Rightarrow> connection \<Rightarrow> time list \<Rightarrow> (string \<times> time) list \<Rightarrow> hb_sys" where
  "demo_beats pc now c pings dead =
     \<lparr>hs_conn = c, hs_pc = pc, hs_now = now, hs_pings = pings, hs_pongs = [], hs_dead = dead\<rparr>"

lemma demo_tick:
  assumes "reachable hb_init (hb_step cfg P F) (demo_beats pc now c pings dead)" and "now \<le> t"
  shows "reachable hb_init (hb_step cfg P F) (demo_beats pc t c pings dead)"
  using reach_step [OF assms(1) tick_step [of "demo_beats pc now c pings dead" t]] assms(2)
  by (simp add: demo_beats_def)

lemma demo_beat:
  assumes "reachable hb_init (hb_step cfg P F) (demo_beats pc now c pings [])"
    and "hb_task cfg P F now c pc = Some (c', pc', dead)"
  shows "reachable hb_init (hb_step cfg P F)
    (demo_beats pc' now c' (pings @ (if queue_depth c' = queue_depth c then [] else [now]))
       (case dead of None \<Rightarrow> [] | Some r \<Rightarrow> [(r, now)]))"
  using reach_step [OF assms(1) beat_step [of cfg P F "demo_beats pc now c pings []" c' pc' dead]] assms(2)
  by (cases dead; cases "queue_depth c' = queue_depth c") (simp_all add: demo_beats_def)

lemma demo_reachable:
  "reachable hb_init (hb_step default_settings strict_pydantic frac_float)
    (demo_beats HbDone 25 (pinged strict_pydantic frac_float 15 demo_conn) [15] [(''HEARTBEAT_TIMEOUT'', 25)])"
proof -
  let ?R = "reachable hb_init (hb_step default_settings strict_pydantic frac_float)"
  let ?c = "pinged strict_pydantic frac_float 15 demo_conn"
  have st: "conn_state demo_conn = ACTIVE" "last_pong_at demo_conn = 0" by (simp_all add: demo_conn_def new_connection_def)
  have "?R (demo_beats HbLoop 0 demo_conn [] [])"
    by (rule reach_init) (simp add: hb_init_def demo_beats_def st)
  from demo_beat [OF this, of demo_conn "HbSleep 15" None] have "?R (demo_beats (HbSleep 15) 0 demo_conn [] [])" by (simp add: st)
  from demo_tick [OF this, of 15] have "?R (demo_beats (HbSleep 15) 15 demo_conn [] [])" by simp
  from demo_beat [OF this, of ?c "HbPoll 15 25 (31 / 2)" None] have "?R (demo_beats (HbPoll 15 25 (31 / 2)) 15 ?c [15] [])"
    by (simp add: st hb_task_ping [OF frac.pyfloat_ok_axioms] hb_poll_def del: hb_task.simps(2))
  from demo_tick [OF this, of 25] have "?R (demo_beats (HbPoll 15 25 (31 / 2)) 25 ?c [15] [])" by simp
  from demo_beat [OF this, of ?c HbDone "Some ''HEARTBEAT_TIMEOUT''"] show ?thesis by (simp add: st hb_poll_def)
qed

theorem heartbeat_timeout_justified_witness:
  "\<exists>s. reachable hb_init (hb_step default_settings strict_pydantic frac_float) s \<and>
     (\<exists>T t. hs_dead s = [(''HEARTBEAT_TIMEOUT'', T)] \<and> t \<in> set (hs_pings s) \<and> t + 10 \<le> T)"
  using heartbeat_timeout_justified [OF frac.pyfloat_ok_axioms demo_reachable] demo_reachable
  by (intro exI conjI) (auto simp: demo_beats_def)

text \<open>C27: A silent client is detected in time.  When the client of an active connection has not answered
  since before the next ping and never answers again, the task terminates by calling \<open>on_dead\<close> with
  HEARTBEAT_TIMEOUT no earlier than one interval and one timeout from now, and less than half a second
  later; \<open>\<lceil>2 \<cdot> timeout\<rceil> + 3\<close> steps are enough.\<close>

theorem silent_client_detected:
  assumes "pyfloat_ok F" and "conn_state c = ACTIVE" and "0 \<le> heartbeat_interval_seconds cfg"
    and "0 < heartbeat_timeout_seconds cfg" and "last_pong_at c < now + heartbeat_interval_seconds cfg"
    and "nat \<lceil>2 * heartbeat_timeout_seconds cfg\<rceil> + 3 \<le> n"
  shows "\<exists>T. hb_alone cfg P F n now c HbLoop = Some (''HEARTBEAT_TIMEOUT'', T) \<and>
    now + heartbeat_interval_seconds cfg + heartbeat_timeout_seconds cfg \<le> T \<and>
    T < now + heartbeat_interval_seconds cfg + heartbeat_timeout_seconds cfg + 1 / 2"
proof -
  let ?t = "now + heartbeat_interval_seconds cfg" and ?out = "heartbeat_timeout_seconds cfg"
  let ?k = "nat \<lceil>2 * ?out\<rceil>"
  obtain m where n: "n = Suc (Suc m)" and m: "?k < m" using assms(6) by (cases n; cases "n - 1") auto
  have run: "hb_alone cfg P F n now c HbLoop =
      hb_alone cfg P F m ?t (pinged P F ?t c) (HbPoll ?t (?t + ?out) (?t + 1 / 2))"
    using assms(2-4)
    by (simp add: n wake_time_def hb_task_ping [OF assms(1)] hb_poll_def max_absorb2 Let_def del: hb_task.simps(2))
  have "2 * ?out \<le> of_nat ?k" by (simp add: of_nat_ceiling)
  then have "?t + ?out \<le> ?t + 1 / 2 + of_nat ?k / 2" by simp
  from silent_poll [OF _ _ this _ _ m, of "pinged P F ?t c" ?t ?t cfg P F] assms(2,4,5) run show ?thesis by simp
qed

theorem silent_client_detected_witness:
  "\<exists>T. hb_alone default_settings strict_pydantic frac_float 23 0 demo_conn HbLoop = Some (''HEARTBEAT_TIMEOUT'', T) \<and>
     25 \<le> T \<and> T < 51 / 2"
  using silent_client_detected [OF frac.pyfloat_ok_axioms, of demo_conn default_settings 0 23 strict_pydantic]
  by (simp add: demo_conn_def new_connection_def)

end
