(* ===== verification/Resume.thy ===== *)
theory Resume
  imports Isolation
begin

text \<open>
  The effect of single frames on the connection that sent them: a RESUME queues what the client missed and
  joins the channel, and an UNSUBSCRIBE releases a channel of the node whether or not the connection
  was subscribed to it.
\<close>

section \<open>Queueing the missed messages\<close>

definition replay_text :: "('r, 'w) deps \<Rightarrow> string \<Rightarrow> buffered_message \<Rightarrow> string" where
  "replay_text D ch m = envelope (dp_pydantic D) (dp_strftime D) (bm_id m) ch (bm_sequence m) (bm_payload m) (bm_created m)"

definition replay_item :: "('r, 'w) deps \<Rightarrow> string \<Rightarrow> buffered_message \<Rightarrow> queued_message" where
  "replay_item D ch m =
     \<lparr>qm_payload = replay_text D ch m, qm_size_bytes = int (utf8_size (replay_text D ch m)), qm_priority = NORMAL,
      qm_channel = Some ch, qm_sequence = Some (bm_sequence m)\<rparr>"

definition is_object :: "json \<Rightarrow> bool" where
  "is_object v = (case v of JObj _ \<Rightarrow> True | _ \<Rightarrow> False)"

text \<open>There is room in the queue for the items.\<close>

definition fits :: "settings \<Rightarrow> connection \<Rightarrow> queued_message list \<Rightarrow> bool" where
  "fits cfg c ms =
     (queue_depth c + int (length ms) \<le> connection_queue_max_messages cfg \<and>
      queue_bytes c + bytes ms \<le> connection_queue_max_bytes cfg)"

definition queued :: "connection \<Rightarrow> queued_message list \<Rightarrow> connection" where
  "queued c ms = c\<lparr>queue_bytes := queue_bytes c + bytes ms, queue := queue c @ ms\<rparr>"

lemma queued_Nil [simp]: "queued c [] = c"
  by (simp add: queued_def)

lemma queued_Cons: "queued (queued c [m]) ms = queued c (m # ms)"
  by (simp add: queued_def)

lemma queued_keeps [simp]:
  "connection_id (queued c ms) = connection_id c" "session_id (queued c ms) = session_id c"
  "tenant_id (queued c ms) = tenant_id c" "subscriptions (queued c ms) = subscriptions c"
  "queue (queued c ms) = queue c @ ms"
  by (simp_all add: queued_def)

lemma bytes_nonneg: "\<forall>m \<in> set ms. 0 \<le> qm_size_bytes m \<Longrightarrow> 0 \<le> bytes ms"
  by (induction ms) auto

lemma fits_Cons:
  assumes "fits cfg c (m # ms)" and "\<forall>x \<in> set ms. 0 \<le> qm_size_bytes x" and "qm_size_bytes m = int (utf8_size p)"
  shows "\<not> over_limit cfg p c" and "fits cfg (queued c [m]) ms"
  using assms bytes_nonneg [OF assms(2)] by (auto simp: fits_def over_limit_def queue_depth_def queued_def)

lemma queue_replayed_run:
  assumes "w_heap w ws = Some c" and "is_object (bm_payload m)" and "\<not> over_limit (dp_cfg D) (replay_text D ch m) c"
  shows "queue_replayed D ws ch m w = (Inr (), w\<lparr>w_heap := (w_heap w)(ws \<mapsto> queued c [replay_item D ch m])\<rparr>)"
proof -
  have "enqueue (dp_cfg D) (replay_text D ch m) NORMAL (Some ch) (Some (bm_sequence m)) c = (Inr (), queued c [replay_item D ch m])"
    using assms(3) by (simp add: enqueue_def queued_def replay_item_def Let_def)
  moreover have "replay_frame D ch m = Inr (replay_text D ch m)"
    using assms(2) by (auto simp: replay_frame_def replay_text_def is_object_def split: json.splits)
  ultimately show ?thesis using assms(1) by (simp add: queue_replayed_def connE_def)
qed

lemma forE_replayed_run:
  assumes "w_heap w ws = Some c" and "\<forall>m \<in> set ms. is_object (bm_payload m)"
    and "fits (dp_cfg D) c (map (replay_item D ch) ms)"
  shows "forE ms (queue_replayed D ws ch) w = (Inr (), w\<lparr>w_heap := (w_heap w)(ws \<mapsto> queued c (map (replay_item D ch) ms))\<rparr>)"
  using assms
proof (induction ms arbitrary: w c)
  case Nil
  then show ?case by (simp add: fun_upd_idem)
next
  case (Cons m ms)
  let ?i = "replay_item D ch m" and ?is = "map (replay_item D ch) ms"
  let ?w = "w\<lparr>w_heap := (w_heap w)(ws \<mapsto> queued c [?i])\<rparr>"
  have sz: "qm_size_bytes ?i = int (utf8_size (replay_text D ch m))" "\<forall>x \<in> set ?is. 0 \<le> qm_size_bytes x"
    by (auto simp: replay_item_def)
  have fit: "fits (dp_cfg D) c (?i # ?is)" using Cons.prems(3) by simp
  note room = fits_Cons [OF fit sz(2,1)]
  have one: "queue_replayed D ws ch m w = (Inr (), ?w)"
    by (rule queue_replayed_run [OF Cons.prems(1) _ room(1)]) (use Cons.prems(2) in simp)
  have "w_heap ?w ws = Some (queued c [?i])" by simp
  from Cons.IH [OF this _ room(2)] Cons.prems(2) show ?case
    by (simp add: thenE_Inr [where m = "queue_replayed D ws ch m", OF one] queued_Cons fun_upd_def cong: if_cong)
qed

section \<open>Joining the channel\<close>

lemma regE_run: "regE f w = (Inr (), snd (regE f w))"
  by (simp add: regE_def split: prod.split)

lemma join_channel_run:
  assumes "w_heap w ws = Some c" and "join_channel D ws ch w = (x, w')"
  shows "reg_of w' = registry_subscribe (connection_id c) ch (reg_of w)"
proof -
  let ?w = "snd (regE (registry_subscribe (connection_id c) ch) w)"
  have g: "the_conn ws w = (Inr c, w)" using assms(1) by (simp add: the_conn_def connE_def fun_upd_idem)
  have "on_local_subscribe (dp_redis D) (dp_cfg D) ch ?w = (x, w')"
    using assms(2) unfolding join_channel_def bindE_Inr [where m = "the_conn ws", OF g]
      thenE_Inr [where m = "regE (registry_subscribe (connection_id c) ch)", OF regE_run] .
  from on_local_subscribe_subs [OF this] have "reg_of w' = reg_of ?w" by (simp add: reg_of_def)
  then show ?thesis by (simp add: reg_of_regE)
qed

lemma registered_at:
  assumes "gw_inv (reg_of w)" and "w_heap w ws = Some c" and "conn_of (reg_of w) (connection_id c) = Some c"
  shows "map_of (by_id (w_reg w)) (connection_id c) = Some ws"
proof -
  from assms(3) obtain r where r: "map_of (by_id (w_reg w)) (connection_id c) = Some r" "w_heap w r = Some c"
    by (auto simp: conn_of_def reg_of_def split: Option.bind_splits)
  with assms(1,2) show ?thesis unfolding gw_inv_def reg_of_def by (metis fst_conv)
qed

lemma subscribe_heap:
  assumes "map_of (by_id R) (connection_id c) = Some ws" and "h ws = Some c"
  shows "fst (registry_subscribe (connection_id c) ch (h, R)) ws = Some (c\<lparr>subscriptions := set_add ch (subscriptions c)\<rparr>)"
  using assms by (simp add: registry_subscribe_def)

lemma off_quiet: "quiet m \<Longrightarrow> off_registry m"
  by (simp add: quiet_def outside_def off_registry_def)

lemma off_the_conn: "off_registry (the_conn ws)"
  by (auto simp: off_registry_def the_conn_def connE_def fun_upd_idem split: option.split)

lemma off_bindE: "off_registry (m :: (('b, 'c) world, 'a) io) \<Longrightarrow> (\<And>a. off_registry (f a)) \<Longrightarrow> off_registry (bindE m f)"
  unfolding off_registry_def
proof
  fix w :: "('b, 'c) world"
  assume "\<forall>w. w_heap (snd (m w)) = w_heap w \<and> w_reg (snd (m w)) = w_reg w"
    and "\<And>a. \<forall>w. w_heap (snd (f a w)) = w_heap w \<and> w_reg (snd (f a w)) = w_reg w"
  then show "w_heap (snd (bindE m f w)) = w_heap w \<and> w_reg (snd (bindE m f w)) = w_reg w"
    by (cases "m w"; cases "fst (m w)") (simp_all add: bindE_def, metis snd_conv, metis snd_conv)
qed

lemma off_thenE: "off_registry m \<Longrightarrow> off_registry m' \<Longrightarrow> off_registry (thenE m m')"
  by (simp add: thenE_def off_bindE)

definition resume_raw :: "string \<Rightarrow> string \<Rightarrow> int \<Rightarrow> (string \<times> json) list" where
  "resume_raw sid ch n =
     [(''type'', JStr (frame_type_value RESUME)), (''session_id'', JStr sid), (''last_ack_by_channel'', JObj [(ch, JInt n)])]"

lemma parse_resume_raw:
  assumes "pydantic_lib P"
  shows "parse_resume P (resume_raw sid ch n) = Inr (ResumeFrame sid [(ch, n)])"
  using pydantic_lib.str_ok [OF assms] pydantic_lib.int_ok [OF assms]
  by (simp add: parse_resume_def resume_raw_def field_str_def jget_def)

lemma handle_resume:
  assumes "pydantic_lib (dp_pydantic D)" and "handle_frame D ws tid (resume_raw sid ch n) w = (x, w')"
  obtains y w1 where "resume_channels D ws tid [(ch, n)] [] [] w = (y, w1)" "w_heap w' = w_heap w1" "w_reg w' = w_reg w1"
    "\<And>e. y = Inl e \<Longrightarrow> x = Inl e"
proof -
  obtain y w1 where r: "resume_channels D ws tid [(ch, n)] [] [] w = (y, w1)" by fastforce
  let ?rest = "\<lambda>(replayed, gaps). bindE (the_conn ws) (\<lambda>c.
    send_frame (dp_ws D) (dp_pydantic D) ws (ResumedFrame (session_id c) replayed gaps))"
  have run: "thenE (bindE (resume_channels D ws tid [(ch, n)] [] []) ?rest) (returnE True) w = (x, w')"
    using assms(2) parse_resume_raw [OF assms(1), of sid ch n]
    by (simp add: handle_frame_def on_resume_def raw_get_def resume_raw_def jget_def)
  have q: "off_registry (thenE (?rest z) (returnE True))" for z
    by (cases z) (simp add: off_bindE off_thenE off_the_conn off_quiet quiets)
  show thesis
  proof (cases y)
    case (Inl e)
    with run r have "x = Inl e" "w' = w1" by (auto simp: thenE_def bindE_def)
    with r Inl show thesis by (intro that) auto
  next
    case (Inr z)
    with run r have "thenE (?rest z) (returnE True) w1 = (x, w')" by (simp add: thenE_def bindE_def)
    with q [of z] have "w_heap w' = w_heap w1" "w_reg w' = w_reg w1" unfolding off_registry_def by (metis snd_conv)+
    with r Inr show thesis by (intro that) auto
  qed
qed

section \<open>What a RESUME does to the connection\<close>

lemma resume_effect:
  assumes "redis_calm (dp_redis D) db" and "pyfloat_ok (dp_float D)" and "pydantic_lib (dp_pydantic D)"
    and "gw_inv (reg_of w)" and "w_heap w ws = Some c" and "conn_of (reg_of w) (connection_id c) = Some c"
    and "channel_belongs_to_tenant ch tid" and "buffer_holds (dp_float D) (db (w_redis w)) ch ms"
    and "\<forall>m \<in> set ms. wf_message m \<and> is_object (bm_payload m)"
    and "missed = map (replay_item D ch) (rr_messages (replay_spec ms n))" and "fits (dp_cfg D) c missed"
    and "handle_frame D ws tid (resume_raw sid ch n) w = (x, w')"
  shows "w_heap w' ws =
    Some (if rr_gap (replay_spec ms n) then c
          else (queued c missed)\<lparr>subscriptions := set_add ch (subscriptions c)\<rparr>)"
proof -
  obtain y w1 where r: "resume_channels D ws tid [(ch, n)] [] [] w = (y, w1)" and h: "w_heap w' = w_heap w1"
    by (rule handle_resume [OF assms(3,12)])
  have wf: "\<forall>m \<in> set ms. wf_message m" using assms(9) by blast
  obtain s' where rep: "replay_channel (dp_redis D) (dp_float D) ch n (w_redis w) = (Inr (replay_spec ms n), s')"
    using redis_calm.calm_replay [OF assms(1,2) wf assms(8)] by metis
  let ?w1 = "w\<lparr>w_redis := s'\<rparr>"
  have red: "redisE (replay_channel (dp_redis D) (dp_float D) ch n) w = (Inr (replay_spec ms n), ?w1)"
    using rep by (simp add: redisE_def)
  show ?thesis
  proof (cases "rr_gap (replay_spec ms n)")
    case True
    then have "thenE (send_error D ws RESUME_GAP ch) (returnE ([], [ch])) ?w1 = (y, w1)"
      using r assms(7) by (simp add: bindE_Inr [where m = "redisE (replay_channel (dp_redis D) (dp_float D) ch n)", OF red])
    then have "outside ?w1 w1" by (rule quietD [rotated]) (auto intro!: quiets)
    with h True assms(5) show ?thesis by (simp add: outside_def)
  next
    case False
    have obj: "\<forall>m \<in> set (rr_messages (replay_spec ms n)). is_object (bm_payload m)"
      using assms(9) by (auto simp: replay_spec_def)
    let ?w2 = "?w1\<lparr>w_heap := (w_heap ?w1)(ws \<mapsto> queued c missed)\<rparr>"
    have fo: "forE (rr_messages (replay_spec ms n)) (queue_replayed D ws ch) ?w1 = (Inr (), ?w2)"
      using forE_replayed_run [of ?w1 ws c, OF _ obj] assms(5,10,11) by simp
    have tail: "thenE (join_channel D ws ch) (returnE ([(ch, int (length (rr_messages (replay_spec ms n))))], [])) ?w2 = (y, w1)"
      using r assms(7) False
      by (simp add: bindE_Inr [where m = "redisE (replay_channel (dp_redis D) (dp_float D) ch n)", OF red]
          thenE_Inr [where m = "forE (rr_messages (replay_spec ms n)) (queue_replayed D ws ch)", OF fo])
    obtain z w3 where j: "join_channel D ws ch ?w2 = (z, w3)" by fastforce
    have w3: "w1 = w3" using tail j by (cases z) (auto simp: thenE_def bindE_def)
    have "reg_of w1 = registry_subscribe (connection_id c) ch (reg_of ?w2)"
      using join_channel_run [of ?w2 ws "queued c missed", OF _ j] w3 by simp
    moreover have "map_of (by_id (w_reg ?w2)) (connection_id (queued c missed)) = Some ws"
      using registered_at [OF assms(4-6)] by simp
    ultimately have "w_heap w1 ws = Some ((queued c missed)\<lparr>subscriptions := set_add ch (subscriptions c)\<rparr>)"
      using subscribe_heap [of "w_reg ?w2" "queued c missed" ws "w_heap ?w2" ch]
      by (simp add: reg_of_def) (metis fst_conv)
    with h False show ?thesis by simp
  qed
qed

section \<open>Properties\<close>

text \<open>C7: A RESUME delivers what was missed.  For a channel of its own tenant, when the buffer of the
  channel holds the messages \<open>ms\<close>, the client has not fallen out of the retained range and its queue
  has room, a RESUME frame appends to the queue of the connection, after what is already there,
  exactly the messages beyond the last acknowledged one, in the order of their sequence numbers, as
  MESSAGE frames that count against the in-flight window, and subscribes the connection to the
  channel.  When the range is gone it changes nothing of the connection.\<close>

theorem resume_delivers_missed:
  assumes "redis_calm (dp_redis D) db" and "pyfloat_ok (dp_float D)" and "pydantic_lib (dp_pydantic D)"
    and "gw_inv (reg_of w)" and "w_heap w ws = Some c" and "conn_of (reg_of w) (connection_id c) = Some c"
    and "channel_belongs_to_tenant ch tid" and "buffer_holds (dp_float D) (db (w_redis w)) ch ms"
    and "\<forall>m \<in> set ms. wf_message m \<and> is_object (bm_payload m)"
    and "missed = map (replay_item D ch) (rr_messages (replay_spec ms n))" and "fits (dp_cfg D) c missed"
    and "handle_frame D ws tid (resume_raw sid ch n) w = (x, w')"
  shows "w_heap w' ws =
    Some (if rr_gap (replay_spec ms n) then c
          else (queued c missed)\<lparr>subscriptions := set_add ch (subscriptions c)\<rparr>)"
  by (rule resume_effect [OF assms])

theorem resume_delivers_missed_witness:
  "\<exists>w c x w'. w_heap w 0 = Some c \<and>
     handle_frame (demo_deps\<lparr>dp_redis := calm_redis\<rparr>) 0 ''1'' (resume_raw ''s'' ''t-1:a'' 5) w = (x, w') \<and>
     w_heap w' 0 = Some ((queued c (map (replay_item (demo_deps\<lparr>dp_redis := calm_redis\<rparr>) ''t-1:a'') [demo_message 6, demo_message 7]))
       \<lparr>subscriptions := set_add ''t-1:a'' (subscriptions c)\<rparr>)"
proof -
  let ?D = "demo_deps\<lparr>dp_redis := calm_redis\<rparr>" and ?ms = "[demo_message 6, demo_message 5, demo_message 7]"
  let ?missed = "map (replay_item ?D ''t-1:a'') [demo_message 6, demo_message 7]"
  define w where "w = connected_world\<lparr>w_redis := demo_buffer\<rparr>"
  have r: "reachable gw_init (gw_step demo_deps) w"
    unfolding w_def by (rule reach_step [OF connected_reachable]) (rule gw_other, rule gw_elsewhere, simp_all)
  have "case w_heap w 0 of None \<Rightarrow> False | Some c \<Rightarrow> conn_of (reg_of w) (connection_id c) = Some c \<and> fits (dp_cfg ?D) c ?missed"
    unfolding w_def by code_simp
  then obtain c where c: "w_heap w 0 = Some c" "conn_of (reg_of w) (connection_id c) = Some c" "fits (dp_cfg ?D) c ?missed"
    by (cases "w_heap w 0") auto
  have spec: "replay_spec ?ms 5 = \<lparr>rr_messages = [demo_message 6, demo_message 7], rr_gap = False\<rparr>"
    by (simp add: replay_spec_def demo_message_def)
  obtain x w' where run: "handle_frame ?D 0 ''1'' (resume_raw ''s'' ''t-1:a'' 5) w = (x, w')" by fastforce
  have "w_heap w' 0 = Some (if rr_gap (replay_spec ?ms 5) then c
          else (queued c ?missed)\<lparr>subscriptions := set_add ''t-1:a'' (subscriptions c)\<rparr>)"
  proof (rule resume_delivers_missed [where D = ?D and db = mem_db and ms = ?ms and n = 5 and tid = "''1''" and sid = "''s''" and x = x])
    show "redis_calm (dp_redis ?D) mem_db" "pyfloat_ok (dp_float ?D)" "pydantic_lib (dp_pydantic ?D)"
      using calm_mem.redis_calm_axioms frac.pyfloat_ok_axioms strict.pydantic_lib_axioms by (simp_all add: demo_deps_def)
    show "buffer_holds (dp_float ?D) (mem_db (w_redis w)) ''t-1:a'' ?ms"
      using demo_buffer_holds by (simp add: w_def demo_deps_def)
    show "\<forall>m \<in> set ?ms. wf_message m \<and> is_object (bm_payload m)"
      using demo_message_wf by (simp add: is_object_def demo_message_def)
    show "?missed = map (replay_item ?D ''t-1:a'') (rr_messages (replay_spec ?ms 5))" by (simp add: spec)
  qed (use gateway_sys.reachable_inv [OF r] c run in \<open>simp_all add: channel_belongs_to_tenant_def startswith_def\<close>)
  then have "w_heap w' 0 = Some ((queued c ?missed)\<lparr>subscriptions := set_add ''t-1:a'' (subscriptions c)\<rparr>)" by (simp add: spec)
  with c(1) run show ?thesis by blast
qed

section \<open>Leaving a channel\<close>

definition unsubscribe_raw :: "string \<Rightarrow> (string \<times> json) list" where
  "unsubscribe_raw ch = [(''type'', JStr (frame_type_value UNSUBSCRIBE)), (''channel'', JStr ch)]"

lemma handle_unsubscribe:
  assumes "pydantic_lib (dp_pydantic D)" and "w_heap w ws = Some c"
    and "handle_frame D ws tid (unsubscribe_raw ch) w = (x, w')"
  shows "reg_of w' = registry_unsubscribe (connection_id c) ch (reg_of w) \<and>
    w_subs w' = sub_exec (w_subs w) (Unsubscribed ch)"
proof -
  let ?w = "snd (regE (registry_unsubscribe (connection_id c) ch) w)"
  have parse: "parse_unsubscribe (dp_pydantic D) (unsubscribe_raw ch) = Inr (UnsubscribeFrame ch)"
    by (rule pydantic_lib.parse_unsubscribe_ok [OF assms(1)]) (simp add: unsubscribe_raw_def jget_def)
  have g: "the_conn ws w = (Inr c, w)" using assms(2) by (simp add: the_conn_def connE_def fun_upd_idem)
  let ?send = "send_frame (dp_ws D) (dp_pydantic D) ws (UnsubscribedFrame ch)"
  have "handle_frame D ws tid (unsubscribe_raw ch) = thenE (on_unsubscribe D ws (unsubscribe_raw ch)) (returnE True)"
    by (simp add: handle_frame_def raw_get_def unsubscribe_raw_def jget_def)
  then have run: "thenE (thenE (on_local_unsubscribe (dp_redis D) ch) ?send) (returnE True) ?w = (x, w')"
    using assms(3) unfolding on_unsubscribe_def parse
    by (simp add: thenE_def [of "bindE _ _"] bindE_Inr [where m = "the_conn ws", OF g] bindE_def [of "bindE _ _"]
        thenE_Inr [where m = "regE (registry_unsubscribe (connection_id c) ch)", OF regE_run])
      (simp add: thenE_def [of "thenE _ _"] bindE_def [of "thenE _ _"])
  obtain y w1 where u: "on_local_unsubscribe (dp_redis D) ch ?w = (y, w1)" by fastforce
  have "outside w1 w'"
  proof (cases y)
    case (Inl e)
    then show ?thesis using run u by (simp add: thenE_def bindE_def)
  next
    case (Inr a)
    then have "thenE ?send (returnE True) w1 = (x, w')" using run u by (simp add: thenE_def bindE_def)
    then show ?thesis by (rule quietD [rotated]) (auto intro!: quiets)
  qed
  moreover have "w_subs ?w = w_subs w" by (simp add: regE_def case_prod_beta)
  ultimately show ?thesis
    using on_local_unsubscribe_subs [OF u] reg_of_regE [of "registry_unsubscribe (connection_id c) ch" w]
    by (simp add: outside_def reg_of_def)
qed

lemma last_count_stops:
  assumes "sub_inv m" and "get_count m ch = 1"
  shows "\<not> running (sub_exec m (Unsubscribed ch)) ch j"
proof -
  have "sub_exec m (Unsubscribed ch) = drop_listener ch m" using assms(2) by (simp add: count_down_def)
  moreover have "sm_listeners (drop_listener ch m) ch = None"
    by (simp add: drop_listener_def Let_def split: option.split)
  ultimately show ?thesis using sub_inv_drop [OF assms(1), of ch] unfolding sub_inv_def by force
qed

text \<open>C40: Any connection can cut off a channel of the node.  UNSUBSCRIBE checks neither the tenant nor
  whether the connection is subscribed: when a channel has one subscriber on the node, an UNSUBSCRIBE
  for it from any other connection, of any tenant, leaves the subscriber registered for the channel
  but stops the listener that serves it.\<close>

theorem unsubscribe_stops_foreign_listener:
  assumes "pydantic_lib (dp_pydantic D)" and "gw_inv (reg_of w)" and "sub_inv (w_subs w)" and "get_count (w_subs w) ch = 1"
    and "w_heap w ws = Some c" and "connection_id c \<noteq> cid"
    and "conn_of (reg_of w) cid = Some victim" and "ch \<in> set (subscriptions victim)"
    and "handle_frame D ws tid (unsubscribe_raw ch) w = (x, w')"
  shows "(\<exists>v. conn_of (reg_of w') cid = Some v \<and> ch \<in> set (subscriptions v)) \<and> (\<forall>j. \<not> running (w_subs w') ch j)"
proof -
  note eff = handle_unsubscribe [OF assms(1,5,9)]
  have ri: "reg_inv (reg_of w)" using assms(2) by (simp add: gw_inv_def)
  have "conn_of (reg_of w') cid = Some victim"
    using eff conn_of_unsubscribe [OF ri, of "connection_id c" ch] assms(6,7) by simp
  with eff last_count_stops [OF assms(3,4)] assms(8) show ?thesis by metis
qed

text \<open>Connection \<open>a\<close> subscribes, connection \<open>b\<close> does not.\<close>

definition one_subscriber :: reg_state where
  "one_subscriber = registry_unsubscribe ''b'' ''t-t:c'' two_subscribers"

definition attacked_world :: "(mem, wire) world" where
  "attacked_world = (mem_world [])\<lparr>w_heap := fst one_subscriber, w_reg := snd one_subscriber,
     w_subs := sub_exec (new_sub_mgr ''n1'') (Subscribed ''t-t:c'' True)\<rparr>"

lemma one_subscriber_ok:
  "gw_inv one_subscriber"
  "conn_of one_subscriber ''a'' = Some (fast_conn\<lparr>subscriptions := [''t-t:c'']\<rparr>)"
  "map_option connection_id (fst one_subscriber 1) = Some ''b''"
proof -
  have co: "conn_of one_subscriber = [''a'' \<mapsto> fast_conn\<lparr>subscriptions := [''t-t:c'']\<rparr>, ''b'' \<mapsto> full_conn\<lparr>subscriptions := []\<rparr>]"
    unfolding one_subscriber_def conn_of_unsubscribe [OF two_subscribers_inv] two_subscribers_conns
    by (simp add: set_discard_def)
  have ids: "ids_of one_subscriber = [0 \<mapsto> (''a'', ''t''), 1 \<mapsto> (''b'', ''t'')]"
    unfolding one_subscriber_def two_subscribers_def ids_of_reg
    by (rule ext) (simp add: ids_of_def demo_conns)
  have "reg_inv one_subscriber" unfolding one_subscriber_def by (rule reg_inv_unsubscribe [OF two_subscribers_inv])
  moreover have "channel_belongs_to_tenant ''t-t:c'' ''t''" by (simp add: channel_belongs_to_tenant_def startswith_def)
  ultimately show "gw_inv one_subscriber"
    unfolding gw_inv_ids ids reg_view_def co by (auto simp: info_def demo_conns split: if_splits)
  show "conn_of one_subscriber ''a'' = Some (fast_conn\<lparr>subscriptions := [''t-t:c'']\<rparr>)" by (simp add: co)
  have "ids_of one_subscriber 1 = Some (''b'', ''t'')" by (simp add: ids)
  then show "map_option connection_id (fst one_subscriber 1) = Some ''b''" by (auto simp: ids_of_def)
qed

theorem unsubscribe_stops_foreign_listener_witness:
  "\<exists>x w'. running (w_subs attacked_world) ''t-t:c'' 0 \<and>
     handle_frame demo_deps 1 ''other'' (unsubscribe_raw ''t-t:c'') attacked_world = (x, w') \<and>
     (\<exists>v. conn_of (reg_of w') ''a'' = Some v \<and> ''t-t:c'' \<in> set (subscriptions v)) \<and>
     (\<forall>j. \<not> running (w_subs w') ''t-t:c'' j)"
proof -
  obtain x w' where run: "handle_frame demo_deps 1 ''other'' (unsubscribe_raw ''t-t:c'') attacked_world = (x, w')" by fastforce
  have reg: "reg_of attacked_world = one_subscriber" by (simp add: attacked_world_def reg_of_def)
  have subs: "w_subs attacked_world = sub_exec (new_sub_mgr ''n1'') (Subscribed ''t-t:c'' True)" by (simp add: attacked_world_def)
  have cnt: "get_count (w_subs attacked_world) ''t-t:c'' = 1" "running (w_subs attacked_world) ''t-t:c'' 0"
    unfolding subs by (simp_all add: get_count_def ensure_listener_def count_up_def new_sub_mgr_def running_def)
  have inv: "sub_inv (w_subs attacked_world)" unfolding subs by (rule sub_inv_exec [OF sub_inv_new])
  from one_subscriber_ok(3) obtain c where c: "fst one_subscriber 1 = Some c" "connection_id c = ''b''" by auto
  then have hp: "w_heap attacked_world 1 = Some c" "connection_id c \<noteq> ''a''" by (simp_all add: attacked_world_def)
  have "pydantic_lib (dp_pydantic demo_deps)" using strict.pydantic_lib_axioms by (simp add: demo_deps_def)
  from unsubscribe_stops_foreign_listener [OF this _ inv cnt(1) hp _ _ run, unfolded reg, OF one_subscriber_ok(1,2)] cnt(2) run
  show ?thesis by auto
qed

end
