(* ===== verification/Publishers.thy ===== *)
theory Publishers
  imports Publish
begin

text \<open>
  \<open>publish_message\<close> by several publishers at once, on any number of gateway nodes: a state machine in
  which each publisher executes the four Redis commands of its call one at a time and may fail in
  between.  The commands of the step relation are those of \<open>allocate_sequence\<close>,
  \<open>append_to_channel_buffer\<close> and \<open>publish_message\<close>.  A command whose reply is lost takes effect and is
  executed again by the client library, or the publisher fails; one that failed keeps the number it took,
  under which its message may be buffered or announced.
\<close>

section \<open>The state machine\<close>

datatype pub_pc =
    PubStart string json
  | PubNumbered string json int
  | PubBuffered string json int
  | PubTrimmed string json int
  | PubDone string json int
  | PubFailed "int list"

record pub_sys =
  ps_db :: rdb
  ps_pcs :: "pub_pc list"

fun number_of :: "pub_pc \<Rightarrow> int list" where
  "number_of (PubNumbered _ _ n) = [n]"
| "number_of (PubBuffered _ _ n) = [n]"
| "number_of (PubTrimmed _ _ n) = [n]"
| "number_of (PubDone _ _ n) = [n]"
| "number_of (PubFailed ns) = ns"
| "number_of (PubStart _ _) = []"

text \<open>The command a publisher is about to execute; \<open>t0\<close> is the time it read.\<close>

fun pub_command ::
  "pyfloat \<Rightarrow> pydantic \<Rightarrow> settings \<Rightarrow> (time \<Rightarrow> string) \<Rightarrow> string \<Rightarrow> time \<Rightarrow> pub_pc \<Rightarrow> rcmd option" where
  "pub_command F P cfg stf ch t0 (PubStart mid p) = Some (INCR (channel_sequence_key ch))"
| "pub_command F P cfg stf ch t0 (PubNumbered mid p n) =
     Some (XADD (channel_stream_key ch) (buffer_fields F mid n p t0) (channel_buffer_max_messages cfg))"
| "pub_command F P cfg stf ch t0 (PubBuffered mid p n) =
     Some (XTRIM (channel_stream_key ch) (int_of_float ((t0 - of_int (message_retention_seconds cfg)) * 1000)))"
| "pub_command F P cfg stf ch t0 (PubTrimmed mid p n) =
     Some (PUBLISH (pubsub_channel_key ch) (envelope P stf mid ch n p t0))"
| "pub_command F P cfg stf ch t0 (PubDone mid p n) = None"
| "pub_command F P cfg stf ch t0 (PubFailed ns) = None"

definition pub_init :: "string \<Rightarrow> pub_sys \<Rightarrow> bool" where
  "pub_init ch s =
     (ps_pcs s = [] \<and> rpublished (ps_db s) = [] \<and> rkeys (ps_db s) (channel_sequence_key ch) = None \<and>
      rkeys (ps_db s) (channel_stream_key ch) = None)"

inductive pub_step ::
  "pyfloat \<Rightarrow> pydantic \<Rightarrow> settings \<Rightarrow> (time \<Rightarrow> string) \<Rightarrow> string \<Rightarrow> pub_sys \<Rightarrow> pub_sys \<Rightarrow> bool"
  for F :: pyfloat and P :: pydantic and cfg :: settings and stf :: "time \<Rightarrow> string" and ch :: string where
  arrive: "pub_step F P cfg stf ch s (s\<lparr>ps_pcs := ps_pcs s @ [PubStart mid p]\<rparr>)"
| number: "i < length (ps_pcs s) \<Longrightarrow> ps_pcs s ! i = PubStart mid p \<Longrightarrow>
    pub_command F P cfg stf ch t0 (ps_pcs s ! i) = Some c \<Longrightarrow> redis_ok t c (ps_db s) (RInt n) d \<Longrightarrow>
    pub_step F P cfg stf ch s (s\<lparr>ps_db := d, ps_pcs := (ps_pcs s)[i := PubNumbered mid p n]\<rparr>)"
| buffer: "i < length (ps_pcs s) \<Longrightarrow> ps_pcs s ! i = PubNumbered mid p n \<Longrightarrow>
    pub_command F P cfg stf ch t0 (ps_pcs s ! i) = Some c \<Longrightarrow> redis_ok t c (ps_db s) (RBulk x) d \<Longrightarrow>
    pub_step F P cfg stf ch s (s\<lparr>ps_db := d, ps_pcs := (ps_pcs s)[i := PubBuffered mid p n]\<rparr>)"
| trim: "i < length (ps_pcs s) \<Longrightarrow> ps_pcs s ! i = PubBuffered mid p n \<Longrightarrow>
    pub_command F P cfg stf ch t0 (ps_pcs s ! i) = Some c \<Longrightarrow> redis_ok t c (ps_db s) (RInt k) d \<Longrightarrow>
    pub_step F P cfg stf ch s (s\<lparr>ps_db := d, ps_pcs := (ps_pcs s)[i := PubTrimmed mid p n]\<rparr>)"
| publish: "i < length (ps_pcs s) \<Longrightarrow> ps_pcs s ! i = PubTrimmed mid p n \<Longrightarrow>
    pub_command F P cfg stf ch t0 (ps_pcs s ! i) = Some c \<Longrightarrow> redis_ok t c (ps_db s) (RInt k) d \<Longrightarrow>
    pub_step F P cfg stf ch s (s\<lparr>ps_db := d, ps_pcs := (ps_pcs s)[i := PubDone mid p n]\<rparr>)"
| lost_reply: "i < length (ps_pcs s) \<Longrightarrow> pub_command F P cfg stf ch t0 (ps_pcs s ! i) = Some c \<Longrightarrow>
    redis_ok t c (ps_db s) r d \<Longrightarrow> pub_step F P cfg stf ch s (s\<lparr>ps_db := d\<rparr>)"
| fail: "i < length (ps_pcs s) \<Longrightarrow>
    pub_step F P cfg stf ch s (s\<lparr>ps_pcs := (ps_pcs s)[i := PubFailed (number_of (ps_pcs s ! i))]\<rparr>)"

inductive_cases pub_stepE: "pub_step F P cfg stf ch s t"

section \<open>Invariant\<close>

abbreviation numbers :: "pub_pc list \<Rightarrow> int list" where
  "numbers pcs \<equiv> concat (map number_of pcs)"

definition pub_inv :: "string \<Rightarrow> pub_sys \<Rightarrow> bool" where
  "pub_inv ch s =
     (counter_wf (ps_db s) ch \<and> distinct (numbers (ps_pcs s)) \<and>
      (\<forall>n \<in> set (numbers (ps_pcs s)). 1 \<le> n \<and> n \<le> seq_counter (ps_db s) ch))"

lemma numbers_update:
  assumes "i < length pcs"
  shows "mset (numbers (pcs[i := pc])) + mset (number_of (pcs ! i)) = mset (numbers pcs) + mset (number_of pc)"
proof -
  have "pcs = take i pcs @ pcs ! i # drop (Suc i) pcs" using assms by (simp add: id_take_nth_drop)
  then have "numbers pcs = numbers (take i pcs) @ number_of (pcs ! i) @ numbers (drop (Suc i) pcs)"
    by (metis concat.simps(2) concat_append list.simps(9) map_append)
  moreover have "numbers (pcs[i := pc]) = numbers (take i pcs) @ number_of pc @ numbers (drop (Suc i) pcs)"
    using assms by (simp add: upd_conv_take_nth_drop)
  ultimately show ?thesis by simp
qed

lemma numbers_same:
  assumes "i < length pcs" and "number_of pc = number_of (pcs ! i)"
  shows "mset (numbers (pcs[i := pc])) = mset (numbers pcs)"
  using numbers_update [OF assms(1), of pc] assms(2) by simp

lemma distinct_submset:
  assumes "mset xs \<subseteq># mset ys" and "distinct ys"
  shows "distinct xs"
  unfolding distinct_count_atmost_1
proof
  fix a
  have "count (mset xs) a \<le> count (mset ys) a" using assms(1) by (simp add: subseteq_mset_def)
  also have "\<dots> \<le> 1" using assms(2) by (simp add: distinct_count_atmost_1)
  finally show "count (mset xs) a = (if a \<in> set xs then 1 else 0)"
    by (simp add: count_eq_zero_iff) (metis count_mset_0_iff le_less_Suc_eq less_one not_less_eq_eq One_nat_def le_antisym Suc_leI neq0_conv)
qed

lemma pub_inv_mset:
  assumes "pub_inv ch s" and "mset (numbers pcs) \<subseteq># mset (numbers (ps_pcs s))"
    and "rkeys d (channel_sequence_key ch) = rkeys (ps_db s) (channel_sequence_key ch)"
  shows "pub_inv ch (s\<lparr>ps_db := d, ps_pcs := pcs\<rparr>)"
proof -
  have "distinct (numbers pcs)"
    using assms(1) by (intro distinct_submset [OF assms(2)]) (simp add: pub_inv_def)
  moreover have "set (numbers pcs) \<subseteq> set (numbers (ps_pcs s))" using assms(2) by (metis set_mset_mono set_mset_mset)
  ultimately show ?thesis using assms(1) counter_frame [OF assms(3)] by (auto simp: pub_inv_def)
qed

text \<open>A new number is above all others.\<close>

lemma pub_inv_number:
  assumes "pub_inv ch s" and "i < length (ps_pcs s)" and "number_of (ps_pcs s ! i) = []" and "number_of pc = [n]"
    and "counter_wf d ch" and "n = seq_counter (ps_db s) ch + 1" and "seq_counter d ch = n"
  shows "pub_inv ch (s\<lparr>ps_db := d, ps_pcs := (ps_pcs s)[i := pc]\<rparr>)"
proof -
  have ms: "mset (numbers ((ps_pcs s)[i := pc])) = add_mset n (mset (numbers (ps_pcs s)))"
    using numbers_update [OF assms(2), of pc] assms(3,4) by simp
  then have set: "set (numbers ((ps_pcs s)[i := pc])) = insert n (set (numbers (ps_pcs s)))"
    by (metis set_mset_add_mset_insert set_mset_mset)
  have old: "1 \<le> k \<and> k \<le> seq_counter (ps_db s) ch" if "k \<in> set (numbers (ps_pcs s))" for k
    using assms(1) that unfolding pub_inv_def by blast
  have pos: "0 \<le> seq_counter (ps_db s) ch"
    using assms(1) by (auto simp: pub_inv_def counter_wf_def seq_counter_def)
  have "n \<notin> set (numbers (ps_pcs s))" using old [of n] assms(6) by linarith
  then have new: "distinct (n # numbers (ps_pcs s))" using assms(1) unfolding pub_inv_def by (metis distinct.simps(2))
  have "mset (numbers ((ps_pcs s)[i := pc])) \<subseteq># mset (n # numbers (ps_pcs s))"
    unfolding ms by (simp only: mset.simps subset_mset.order_refl)
  from distinct_submset [OF this new] have "distinct (numbers ((ps_pcs s)[i := pc]))" .
  moreover have "1 \<le> k \<and> k \<le> seq_counter d ch" if k: "k \<in> set (numbers ((ps_pcs s)[i := pc]))" for k
  proof (cases "k = n")
    case True
    then show ?thesis using assms(6,7) pos by linarith
  next
    case False
    with k have "k \<in> set (numbers (ps_pcs s))" unfolding set by blast
    from old [OF this] assms(6,7) show ?thesis by linarith
  qed
  ultimately show ?thesis using assms(5) by (simp add: pub_inv_def del: set_concat set_map)
qed

text \<open>The counter only grows, and only \<open>INCR\<close> changes it.\<close>

lemma pub_inv_lost:
  assumes "pub_inv ch s" and "pub_command F P cfg stf ch t0 pc = Some c" and "redis_ok t c (ps_db s) r d"
  shows "pub_inv ch (s\<lparr>ps_db := d\<rparr>)"
proof (cases "\<exists>mid p. pc = PubStart mid p")
  case True
  with assms(2) have c: "c = INCR (channel_sequence_key ch)" by auto
  from incr_counter [OF _ assms(3) [unfolded c]] assms(1) show ?thesis unfolding pub_inv_def by fastforce
next
  case False
  with assms(2) have "channel_sequence_key ch \<notin> written c" by (cases pc) auto
  from pub_inv_mset [OF assms(1) _ redis_ok_frame [OF assms(3) this], of "ps_pcs s"] show ?thesis by simp
qed

lemma pub_inv_step:
  assumes "pub_inv ch s" and "pub_step F P cfg stf ch s t"
  shows "pub_inv ch t"
  using assms(2)
proof (cases rule: pub_step.cases)
  case (arrive mid p)
  with pub_inv_mset [OF assms(1), of "ps_pcs s @ [PubStart mid p]" "ps_db s"] show ?thesis by simp
next
  case (number i mid p t0 c u n d)
  then have "redis_ok u (INCR (channel_sequence_key ch)) (ps_db s) (RInt n) d" by simp
  from incr_counter [OF _ this] assms(1) have "counter_wf d ch" "n = seq_counter (ps_db s) ch + 1" "seq_counter d ch = n"
    by (auto simp: pub_inv_def)
  with pub_inv_number [OF assms(1) number(2), of "PubNumbered mid p n"] number(1,3) show ?thesis by simp
next
  case (buffer i mid p n t0 c u x d)
  then have "channel_sequence_key ch \<notin> written c" by auto
  with buffer show ?thesis
    using pub_inv_mset [OF assms(1), of "(ps_pcs s)[i := PubBuffered mid p n]" d] numbers_same [OF buffer(2), of "PubBuffered mid p n"]
      redis_ok_frame [OF buffer(5), of "channel_sequence_key ch"] by simp
next
  case (trim i mid p n t0 c u k d)
  then have "channel_sequence_key ch \<notin> written c" by auto
  with trim show ?thesis
    using pub_inv_mset [OF assms(1), of "(ps_pcs s)[i := PubTrimmed mid p n]" d] numbers_same [OF trim(2), of "PubTrimmed mid p n"]
      redis_ok_frame [OF trim(5), of "channel_sequence_key ch"] by simp
next
  case (publish i mid p n t0 c u k d)
  then have "channel_sequence_key ch \<notin> written c" by auto
  with publish show ?thesis
    using pub_inv_mset [OF assms(1), of "(ps_pcs s)[i := PubDone mid p n]" d] numbers_same [OF publish(2), of "PubDone mid p n"]
      redis_ok_frame [OF publish(5), of "channel_sequence_key ch"] by simp
next
  case (lost_reply i t0 c u r d)
  with pub_inv_lost [OF assms(1)] show ?thesis by blast
next
  case (fail i)
  have "mset (numbers ((ps_pcs s)[i := PubFailed (number_of (ps_pcs s ! i))])) \<subseteq># mset (numbers (ps_pcs s))"
    using numbers_same [OF fail(2), of "PubFailed (number_of (ps_pcs s ! i))"] by simp
  from pub_inv_mset [OF assms(1) this, of "ps_db s"] fail(1) show ?thesis by simp
qed

interpretation publishers: invariant_system "pub_init ch" "pub_step F P cfg stf ch" "pub_inv ch" for F P cfg stf ch
proof unfold_locales
  show "pub_init ch s \<Longrightarrow> pub_inv ch s" for s by (simp add: pub_init_def pub_inv_def counter_wf_def)
  show "pub_inv ch s \<Longrightarrow> pub_step F P cfg stf ch s t \<Longrightarrow> pub_inv ch t" for s t by (rule pub_inv_step)
qed

section \<open>Properties\<close>

text \<open>C20: Concurrent publishers never share a sequence number.  In every reachable state of any number of
  publishers interleaved at their Redis commands, with lost replies, retried commands and failures in
  between, the numbers the publishers were given, those of failed ones included, are pairwise different,
  positive, and not above the counter of the channel.\<close>

theorem publishers_numbers_unique:
  assumes "reachable (pub_init ch) (pub_step F P cfg stf ch) s"
  shows "distinct (numbers (ps_pcs s)) \<and> (\<forall>n \<in> set (numbers (ps_pcs s)). 1 \<le> n \<and> n \<le> seq_counter (ps_db s) ch)"
  using publishers.reachable_inv [OF assms] by (simp add: pub_inv_def)

text \<open>A schedule: two publishers take the numbers 1 and 2, and the second one finishes first.\<close>

definition half_overtaken ::
  "pyfloat \<Rightarrow> pydantic \<Rightarrow> (time \<Rightarrow> string) \<Rightarrow> string \<Rightarrow> pub_sys" where
  "half_overtaken F P stf ch =
     \<lparr>ps_db = \<lparr>rkeys = [channel_sequence_key ch \<mapsto> (RString (show_int 2), None),
                        channel_stream_key ch \<mapsto> (RStream [((0, 0), buffer_fields F ''b'' 2 (JObj []) 0)], None)],
               rpublished = [(pubsub_channel_key ch, envelope P stf ''b'' ch 2 (JObj []) 0)]\<rparr>,
      ps_pcs = [PubNumbered ''a'' (JObj []) 1, PubDone ''b'' (JObj []) 2]\<rparr>"

definition overtaking ::
  "pyfloat \<Rightarrow> pydantic \<Rightarrow> (time \<Rightarrow> string) \<Rightarrow> string \<Rightarrow> pub_sys" where
  "overtaking F P stf ch =
     \<lparr>ps_db = \<lparr>rkeys = [channel_sequence_key ch \<mapsto> (RString (show_int 2), None),
                        channel_stream_key ch \<mapsto>
                          (RStream [((0, 0), buffer_fields F ''b'' 2 (JObj []) 0), ((1, 1), buffer_fields F ''a'' 1 (JObj []) 0)], None)],
               rpublished = [(pubsub_channel_key ch, envelope P stf ''b'' ch 2 (JObj []) 0),
                             (pubsub_channel_key ch, envelope P stf ''a'' ch 1 (JObj []) 0)]\<rparr>,
      ps_pcs = [PubDone ''a'' (JObj []) 1, PubDone ''b'' (JObj []) 2]\<rparr>"

text \<open>The steps of publisher \<open>i\<close>, on explicit states, for a set of states closed under steps.\<close>

lemma pub_steps_at:
  assumes "\<forall>s t. R s \<longrightarrow> pub_step F P cfg stf ch s t \<longrightarrow> R t" and "R \<lparr>ps_db = d, ps_pcs = pcs\<rparr>" and "i < length pcs"
    and "pub_command F P cfg stf ch t0 (pcs ! i) = Some c"
  shows "pcs ! i = PubStart mid p \<Longrightarrow> redis_ok t c d (RInt n) d' \<Longrightarrow> R \<lparr>ps_db = d', ps_pcs = pcs[i := PubNumbered mid p n]\<rparr>"
    and "pcs ! i = PubNumbered mid p n \<Longrightarrow> redis_ok t c d (RBulk x) d' \<Longrightarrow> R \<lparr>ps_db = d', ps_pcs = pcs[i := PubBuffered mid p n]\<rparr>"
    and "pcs ! i = PubBuffered mid p n \<Longrightarrow> redis_ok t c d (RInt k) d' \<Longrightarrow> R \<lparr>ps_db = d', ps_pcs = pcs[i := PubTrimmed mid p n]\<rparr>"
    and "pcs ! i = PubTrimmed mid p n \<Longrightarrow> redis_ok t c d (RInt k) d' \<Longrightarrow> R \<lparr>ps_db = d', ps_pcs = pcs[i := PubDone mid p n]\<rparr>"
proof -
  let ?s = "\<lparr>ps_db = d, ps_pcs = pcs\<rparr>"
  have i: "i < length (ps_pcs ?s)" and c: "pub_command F P cfg stf ch t0 (ps_pcs ?s ! i) = Some c" using assms(3,4) by simp_all
  note st = assms(1) [rule_format, OF assms(2)]
  show "R \<lparr>ps_db = d', ps_pcs = pcs[i := PubNumbered mid p n]\<rparr>" if "pcs ! i = PubStart mid p" "redis_ok t c d (RInt n) d'"
    using st [OF number [OF i _ c, of mid p]] that by simp
  show "R \<lparr>ps_db = d', ps_pcs = pcs[i := PubBuffered mid p n]\<rparr>" if "pcs ! i = PubNumbered mid p n" "redis_ok t c d (RBulk x) d'"
    using st [OF buffer [OF i _ c, of mid p n]] that by simp
  show "R \<lparr>ps_db = d', ps_pcs = pcs[i := PubTrimmed mid p n]\<rparr>" if "pcs ! i = PubBuffered mid p n" "redis_ok t c d (RInt k) d'"
    using st [OF trim [OF i _ c, of mid p n]] that by simp
  show "R \<lparr>ps_db = d', ps_pcs = pcs[i := PubDone mid p n]\<rparr>" if "pcs ! i = PubTrimmed mid p n" "redis_ok t c d (RInt k) d'"
    using st [OF publish [OF i _ c, of mid p n]] that by simp
qed

lemma put_key_same: "rkeys d k = Some x \<Longrightarrow> put_key k x d = d"
  by (simp add: put_key_def fun_upd_idem)

lemma half_overtaken_reachable:
  assumes "2 \<le> channel_buffer_max_messages cfg"
  shows "reachable (pub_init ch) (pub_step F P cfg stf ch) (half_overtaken F P stf ch)"
proof -
  let ?R = "reachable (pub_init ch) (pub_step F P cfg stf ch)" and ?J = "JObj []"
  let ?q = "channel_sequence_key ch" and ?k = "channel_stream_key ch" and ?n = "channel_buffer_max_messages cfg"
  let ?A = "PubStart ''a'' ?J" and ?B = "PubStart ''b'' ?J"
  let ?eb = "((0, 0), buffer_fields F ''b'' 2 ?J 0) :: entry"
  let ?pb = "(pubsub_channel_key ch, envelope P stf ''b'' ch 2 ?J 0)"
  define d0 where "d0 = (\<lparr>rkeys = Map.empty, rpublished = []\<rparr> :: rdb)"
  define d1 where "d1 = put_key ?q (RString (show_int 1), None) d0"
  define d2 where "d2 = put_key ?q (RString (show_int 2), None) d1"
  define d3 where "d3 = put_key ?k (RStream [?eb], None) d2"
  define d4 where "d4 = d3\<lparr>rpublished := rpublished d3 @ [?pb]\<rparr>"
  note defs = d0_def d1_def d2_def d3_def d4_def
  have kl: "keep_last ?n [x] = [x]" for x :: entry using assms by (simp add: keep_last_def)
  have i1: "redis_ok 0 (INCR ?q) d0 (RInt 1) d1" and i2: "redis_ok 0 (INCR ?q) d1 (RInt 2) d2"
    by (simp_all add: defs lookup_at_def)
  have xb: "redis_ok 0 (XADD ?k (buffer_fields F ''b'' 2 ?J 0) ?n) d2 (RBulk []) d3"
    using assms kl by (auto simp: defs lookup_at_def millis_def intro!: exI [of _ 0])
  have tb: "redis_ok 0 (XTRIM ?k m) d3 (RInt 0) d3" for m by (simp add: defs lookup_at_def put_key_same)
  have pb: "redis_ok 0 (PUBLISH (pubsub_channel_key ch) (envelope P stf ''b'' ch 2 ?J 0)) d3 (RInt 0) d4"
    by (simp add: d4_def)
  have all: "\<forall>s t. ?R s \<longrightarrow> pub_step F P cfg stf ch s t \<longrightarrow> ?R t" using reach_step by metis
  note closed = all [rule_format]
  note at = pub_steps_at [where R = ?R and F = F and P = P and cfg = cfg and stf = stf and ch = ch and ?t0.0 = 0, OF all]
  have "?R \<lparr>ps_db = d0, ps_pcs = []\<rparr>" by (rule reach_init) (simp add: pub_init_def d0_def)
  from closed [OF this arrive, of "''a''" ?J] have "?R \<lparr>ps_db = d0, ps_pcs = [?A]\<rparr>" by simp
  from closed [OF this arrive, of "''b''" ?J] have "?R \<lparr>ps_db = d0, ps_pcs = [?A, ?B]\<rparr>" by simp
  from at(1) [OF this, of 0, OF _ _ _ i1] have "?R \<lparr>ps_db = d1, ps_pcs = [PubNumbered ''a'' ?J 1, ?B]\<rparr>" by simp
  from at(1) [OF this, of 1, OF _ _ _ i2]
  have "?R \<lparr>ps_db = d2, ps_pcs = [PubNumbered ''a'' ?J 1, PubNumbered ''b'' ?J 2]\<rparr>" by simp
  from at(2) [OF this, of 1, OF _ _ _ xb]
  have "?R \<lparr>ps_db = d3, ps_pcs = [PubNumbered ''a'' ?J 1, PubBuffered ''b'' ?J 2]\<rparr>" by simp
  from at(3) [OF this, of 1, OF _ _ _ tb]
  have "?R \<lparr>ps_db = d3, ps_pcs = [PubNumbered ''a'' ?J 1, PubTrimmed ''b'' ?J 2]\<rparr>" by simp
  from at(4) [OF this, of 1, OF _ _ _ pb]
  have "?R \<lparr>ps_db = d4, ps_pcs = [PubNumbered ''a'' ?J 1, PubDone ''b'' ?J 2]\<rparr>" by simp
  moreover have "\<lparr>ps_db = d4, ps_pcs = [PubNumbered ''a'' ?J 1, PubDone ''b'' ?J 2]\<rparr> = half_overtaken F P stf ch"
    by (simp add: half_overtaken_def defs put_key_def fun_upd_twist)
  ultimately show ?thesis by simp
qed

lemma overtaking_steps:
  assumes "2 \<le> channel_buffer_max_messages cfg"
  shows "(pub_step F P cfg stf ch)\<^sup>*\<^sup>* (half_overtaken F P stf ch) (overtaking F P stf ch)"
proof -
  let ?R = "(pub_step F P cfg stf ch)\<^sup>*\<^sup>* (half_overtaken F P stf ch)" and ?J = "JObj []"
  let ?k = "channel_stream_key ch" and ?n = "channel_buffer_max_messages cfg"
  let ?ea = "((1, 1), buffer_fields F ''a'' 1 ?J 0) :: entry" and ?eb = "((0, 0), buffer_fields F ''b'' 2 ?J 0) :: entry"
  let ?pa = "(pubsub_channel_key ch, envelope P stf ''a'' ch 1 ?J 0)"
  define d4 where "d4 = ps_db (half_overtaken F P stf ch)"
  define d5 where "d5 = put_key ?k (RStream [?eb, ?ea], None) d4"
  define d6 where "d6 = d5\<lparr>rpublished := rpublished d5 @ [?pa]\<rparr>"
  have k: "rkeys d4 ?k = Some (RStream [?eb], None)" by (simp add: d4_def half_overtaken_def)
  have kl: "keep_last ?n [x, y] = [x, y]" for x y :: entry using assms by (simp add: keep_last_def)
  have xa: "redis_ok 0 (XADD ?k (buffer_fields F ''a'' 1 ?J 0) ?n) d4 (RBulk []) d5"
    using assms kl k by (auto simp: d5_def lookup_at_def millis_def id_less_def intro!: exI [of _ 1])
  have ta: "redis_ok 0 (XTRIM ?k m) d5 (RInt 0) d5" for m by (simp add: d5_def lookup_at_def put_key_same)
  have pa: "redis_ok 0 (PUBLISH (pubsub_channel_key ch) (envelope P stf ''a'' ch 1 ?J 0)) d5 (RInt 0) d6"
    by (simp add: d6_def)
  have all: "\<forall>s t. ?R s \<longrightarrow> pub_step F P cfg stf ch s t \<longrightarrow> ?R t" by (meson rtranclp.rtrancl_into_rtrancl)
  note at = pub_steps_at [where R = ?R and F = F and P = P and cfg = cfg and stf = stf and ch = ch and ?t0.0 = 0, OF all]
  have "half_overtaken F P stf ch = \<lparr>ps_db = d4, ps_pcs = [PubNumbered ''a'' ?J 1, PubDone ''b'' ?J 2]\<rparr>"
    by (simp add: d4_def half_overtaken_def)
  then have "?R \<lparr>ps_db = d4, ps_pcs = [PubNumbered ''a'' ?J 1, PubDone ''b'' ?J 2]\<rparr>" by simp
  from at(2) [OF this, of 0, OF _ _ _ xa]
  have "?R \<lparr>ps_db = d5, ps_pcs = [PubBuffered ''a'' ?J 1, PubDone ''b'' ?J 2]\<rparr>" by simp
  from at(3) [OF this, of 0, OF _ _ _ ta]
  have "?R \<lparr>ps_db = d5, ps_pcs = [PubTrimmed ''a'' ?J 1, PubDone ''b'' ?J 2]\<rparr>" by simp
  from at(4) [OF this, of 0, OF _ _ _ pa]
  have "?R \<lparr>ps_db = d6, ps_pcs = [PubDone ''a'' ?J 1, PubDone ''b'' ?J 2]\<rparr>" by simp
  moreover have "\<lparr>ps_db = d6, ps_pcs = [PubDone ''a'' ?J 1, PubDone ''b'' ?J 2]\<rparr> = overtaking F P stf ch"
    by (simp add: overtaking_def half_overtaken_def d4_def d5_def d6_def put_key_def fun_upd_twist)
  ultimately show ?thesis by simp
qed

lemma overtaking_reachable:
  assumes "2 \<le> channel_buffer_max_messages cfg"
  shows "reachable (pub_init ch) (pub_step F P cfg stf ch) (overtaking F P stf ch)"
  using half_overtaken_reachable [OF assms] overtaking_steps [OF assms] by (rule reachable_steps)

theorem publishers_numbers_unique_witness:
  "numbers (ps_pcs (overtaking frac_float strict_pydantic (\<lambda>_. []) ''c'')) = [1, 2] \<and>
   distinct (numbers (ps_pcs (overtaking frac_float strict_pydantic (\<lambda>_. []) ''c'')))"
  using publishers_numbers_unique [OF overtaking_reachable [of default_settings]] by (simp add: overtaking_def)

end
