(* ===== verification/Delivery.thy ===== *)
theory Delivery
  imports Resume Publishers
begin

text \<open>
  From publication to the outbound queues: the announcements a sequence of publications makes on Redis
  Pub/Sub, what a listener that receives them does to the subscribers of its node, and how a message of an
  overtaken publisher misses a client that resumes.
\<close>

section \<open>Announcements\<close>

fun envelopes ::
  "pydantic \<Rightarrow> (time \<Rightarrow> string) \<Rightarrow> string \<Rightarrow> int \<Rightarrow> (string \<times> json) list \<Rightarrow> time list \<Rightarrow> string list" where
  "envelopes P stf ch n ((mid, p) # ms) (t # ts) = envelope P stf mid ch n p t # envelopes P stf ch (n + 1) ms ts"
| "envelopes P stf ch n _ _ = []"

lemma length_envelopes: "length ts = length ms \<Longrightarrow> length (envelopes P stf ch n ms ts) = length ms"
  by (induction P stf ch n ms ts rule: envelopes.induct) auto

lemma envelopes_nth:
  assumes "length ts = length ms" and "i < length ms"
  shows "envelopes P stf ch n ms ts ! i = envelope P stf (fst (ms ! i)) ch (n + int i) (snd (ms ! i)) (ts ! i)"
  using assms
proof (induction P stf ch n ms ts arbitrary: i rule: envelopes.induct)
  case (1 P stf ch n mid p ms t ts)
  then show ?case by (cases i) (simp_all add: algebra_simps)
qed auto

context redis_calm
begin

lemma calm_announcements:
  assumes "channel_log F T (channel_buffer_max_messages cfg) (db s) ch lg ret" and "T \<le> millis (rclock X s)"
    and "0 \<le> channel_buffer_max_messages cfg" and "int (length lg + length ms) < 2 ^ 63 - 1"
    and "publish_many X F P cfg stf ch ms s = (xs, s')"
  shows "\<exists>ts. length ts = length ms \<and>
    rpublished (db s') = rpublished (db s) @ map (Pair (pubsub_channel_key ch)) (envelopes P stf ch (int (length lg) + 1) ms ts)"
  using assms
proof (induction ms arbitrary: s lg ret xs)
  case (Cons a ms)
  obtain mid p where a: "a = (mid, p)" by (cases a)
  from Cons.prems(4) have room: "int (length lg) < 2 ^ 63 - 1" by simp
  obtain s1 m ret1 t where run: "publish_message X F P cfg stf mid ch p s =
      (Inr \<lparr>pr_message_id = mid, pr_sequence = int (length lg) + 1\<rparr>, s1)" and k: "rclock X s \<le> rclock X s1"
    and log: "channel_log F T (channel_buffer_max_messages cfg) (db s1) ch (lg @ [m]) ret1"
    and pub: "rpublished (db s1) = rpublished (db s) @ [(pubsub_channel_key ch, envelope P stf mid ch (int (length lg) + 1) p t)]"
    by (rule calm_publish [OF Cons.prems(1,2,3) room, where P = P and stf = stf and mid = mid and p = p]) blast
  obtain ys where ys: "publish_many X F P cfg stf ch ms s1 = (ys, s')"
    using Cons.prems(5) run a by (auto split: prod.splits)
  have "millis (rclock X s) \<le> millis (rclock X s1)" unfolding millis_def using k by (intro floor_mono) simp
  then have T1: "T \<le> millis (rclock X s1)" using Cons.prems(2) by simp
  have "int (length (lg @ [m]) + length ms) < 2 ^ 63 - 1" using Cons.prems(4) by simp
  from Cons.IH [OF log T1 Cons.prems(3) this ys] obtain ts where "length ts = length ms"
    "rpublished (db s') = rpublished (db s1) @ map (Pair (pubsub_channel_key ch)) (envelopes P stf ch (int (length lg) + 1 + 1) ms ts)"
    by auto
  with pub a show ?case by (intro exI [of _ "t # ts"]) simp
qed simp

end

section \<open>What a listener makes of them\<close>

context pydantic_lib
begin

lemma envelope_loads:
  assumes "wf_json p"
  shows "json_loads (envelope P stf mid ch n p t) = Some (frame_json (float_text P) (MessageFrame mid ch n (stf t) p))"
  unfolding envelope_def by (rule dump_loads) (rule wf_frame_json_MessageFrame [OF assms])

lemma envelope_sequence_envelope: "wf_json p \<Longrightarrow> envelope_sequence (envelope P stf mid ch n p t) = Some n"
  by (simp add: envelope_sequence_def envelope_loads frame_json_def jget_def)

end

definition live_item :: "string \<Rightarrow> string \<Rightarrow> int \<Rightarrow> queued_message" where
  "live_item ch e n =
     \<lparr>qm_payload = e, qm_size_bytes = int (utf8_size e), qm_priority = NORMAL, qm_channel = Some ch, qm_sequence = Some n\<rparr>"

fun live_items :: "string \<Rightarrow> int \<Rightarrow> string list \<Rightarrow> queued_message list" where
  "live_items ch n [] = []"
| "live_items ch n (e # es) = live_item ch e n # live_items ch (n + 1) es"

fun numbered_from :: "int \<Rightarrow> string list \<Rightarrow> bool" where
  "numbered_from n [] = True"
| "numbered_from n (e # es) = (envelope_sequence e = Some n \<and> numbered_from (n + 1) es)"

lemma live_items_sizes: "\<forall>x \<in> set (live_items ch n es). 0 \<le> qm_size_bytes x"
  by (induction es arbitrary: n) (auto simp: live_item_def)

lemma listen_queues:
  assumes "reg_inv (reg_of v)" and "conn_of (reg_of v) cid = Some c" and "ch \<in> set (subscriptions c)" and "conn_state c = ACTIVE"
    and "numbered_from n es" and "fits cfg c (live_items ch n es)"
  shows "\<exists>v'. listen_items cfg ch (map (\<lambda>e. (False, ''message'', e)) es) v = (Inr (), v') \<and>
    conn_of (reg_of v') cid = Some (queued c (live_items ch n es))"
  using assms
proof (induction es arbitrary: v c n)
  case (Cons e es)
  have inv: "reg_inv (w_heap v, w_reg v)" using Cons.prems(1) by (simp add: reg_of_def)
  obtain v1 where run: "deliver_local cfg ch e (Some n) v = (Inr (slow_ids cfg e (w_heap v) (local_subscribers (w_reg v) ch)), v1)"
    and d: "delivery cfg ch e (Some n) (local_subscribers (w_reg v) ch) v v1" by (rule deliver_local_run [OF inv])
  have fit: "fits cfg c (live_item ch e n # live_items ch (n + 1) es)" using Cons.prems(6) by simp
  have sz: "qm_size_bytes (live_item ch e n) = int (utf8_size e)" by (simp add: live_item_def)
  note room = fits_Cons [OF fit live_items_sizes sz]
  have push: "push_message e NORMAL (Some ch) (Some n) c = queued c [live_item ch e n]"
    by (simp add: push_message_def queued_def live_item_def)
  have c1: "conn_of (reg_of v1) cid = Some (queued c [live_item ch e n])"
    using delivery_conn [OF inv d, of cid c] Cons.prems(2-4) room(1) push by (simp add: reg_of_def delivered_push)
  have i1: "reg_inv (reg_of v1)" using delivery_reg [OF inv d] by (simp add: reg_of_def)
  have "conn_state (queued c [live_item ch e n]) = ACTIVE" using Cons.prems(4) by (simp add: queued_def)
  from Cons.IH [OF i1 c1 _ this _ room(2)] Cons.prems(3,5) obtain v' where
    "listen_items cfg ch (map (\<lambda>e. (False, ''message'', e)) es) v1 = (Inr (), v')"
    "conn_of (reg_of v') cid = Some (queued c (live_items ch n (e # es)))" by (auto simp: queued_Cons)
  with run Cons.prems(5) show ?case by (auto simp: thenE_def bindE_def)
qed simp

lemma envelopes_numbered:
  assumes "pydantic_lib P" and "length ts = length ms" and "\<forall>(mid, p) \<in> set ms. wf_json p"
  shows "numbered_from n (envelopes P stf ch n ms ts)"
  using assms
  by (induction P stf ch n ms ts rule: envelopes.induct) (auto simp: pydantic_lib.envelope_sequence_envelope)

section \<open>Properties\<close>

text \<open>C3: From the publisher to the queues.  The publications of \<open>ms\<close> on a fresh channel announce, in order
  and each once, MESSAGE frames that carry the id and the payload of each message and the numbers 1, 2
  and so on.  On every node, a listener that receives the announcements appends all of them, in
  this order and under these numbers, to the queue of every active subscriber of the channel that has
  room for them.\<close>

theorem published_reaches_subscribers:
  fixes v :: "('q, 'w) world"
  assumes "redis_calm X db" and "pydantic_lib P"
    and "rkeys (db s) (channel_sequence_key ch) = None" and "rkeys (db s) (channel_stream_key ch) = None"
    and "0 \<le> channel_buffer_max_messages cfg" and "int (length ms) < 2 ^ 63 - 1"
    and "\<forall>(mid, p) \<in> set ms. wf_json p" and "publish_many X F P cfg stf ch ms s = (xs, s1)"
  shows "\<exists>es. rpublished (db s1) = rpublished (db s) @ map (Pair (pubsub_channel_key ch)) es \<and> length es = length ms \<and>
    (\<forall>i < length ms. \<exists>t. json_loads (es ! i) =
       Some (frame_json (float_text P) (MessageFrame (fst (ms ! i)) ch (int i + 1) t (snd (ms ! i))))) \<and>
    (\<forall>cid c. reg_inv (reg_of v) \<and> conn_of (reg_of v) cid = Some c \<and> ch \<in> set (subscriptions c) \<and> conn_state c = ACTIVE \<and>
       fits cfg' c (live_items ch 1 es) \<longrightarrow>
       (\<exists>v'. listen_items cfg' ch (map (\<lambda>e. (False, ''message'', e)) es) v = (Inr (), v') \<and>
          conn_of (reg_of v') cid = Some (queued c (live_items ch 1 es))))"
proof -
  have lg: "channel_log F (millis (rclock X s)) (channel_buffer_max_messages cfg) (db s) ch [] []"
    by (rule channel_log_start [OF assms(3,4)])
  have "int (length [] + length ms) < 2 ^ 63 - 1" using assms(6) by simp
  from redis_calm.calm_announcements [OF assms(1) lg order_refl assms(5) this assms(8)] obtain ts where
    ts: "length ts = length ms"
    and pub: "rpublished (db s1) = rpublished (db s) @ map (Pair (pubsub_channel_key ch)) (envelopes P stf ch 1 ms ts)" by auto
  let ?es = "envelopes P stf ch 1 ms ts"
  have loads: "\<exists>t. json_loads (?es ! i) =
      Some (frame_json (float_text P) (MessageFrame (fst (ms ! i)) ch (int i + 1) t (snd (ms ! i))))" if "i < length ms" for i
  proof -
    have "wf_json (snd (ms ! i))" using assms(7) nth_mem [OF that] by (auto simp: case_prod_beta)
    then show ?thesis
      using envelopes_nth [OF ts that] pydantic_lib.envelope_loads [OF assms(2)] by (simp add: add.commute) blast
  qed
  show ?thesis
    by (rule exI [of _ ?es], intro conjI allI impI)
      (use pub length_envelopes [OF ts] loads listen_queues envelopes_numbered [OF assms(2) ts assms(7)] in blast)+
qed

definition demo_announced :: "string list" where
  "demo_announced = map snd (mem_pub (snd (publish_many calm_redis frac_float strict_pydantic default_settings (\<lambda>_. ''now'')
     ''t-t:c'' demo_payloads (mem_start 1000 []))))"

theorem published_reaches_subscribers_witness:
  "\<exists>v' c. listen_items default_settings ''t-t:c'' (map (\<lambda>e. (False, ''message'', e)) demo_announced)
       ((demo_world [])\<lparr>w_heap := fst two_subscribers, w_reg := snd two_subscribers\<rparr>) = (Inr (), v') \<and>
     conn_of (reg_of v') ''a'' = Some c \<and> map qm_sequence (queue c) = [Some 1, Some 2, Some 3]"
proof -
  let ?s = "mem_start 1000 []" and ?c = "fast_conn\<lparr>subscriptions := [''t-t:c'']\<rparr>"
  let ?v = "(demo_world [])\<lparr>w_heap := fst two_subscribers, w_reg := snd two_subscribers\<rparr>"
  obtain xs s1 where run: "publish_many calm_redis frac_float strict_pydantic default_settings (\<lambda>_. ''now'') ''t-t:c'' demo_payloads ?s = (xs, s1)"
    by fastforce
  have fresh: "rkeys (mem_db ?s) k = None" for k by (simp add: mem_db_def mem_start_def)
  have n: "0 \<le> channel_buffer_max_messages default_settings" "int (length demo_payloads) < 2 ^ 63 - 1" by (simp_all add: demo_payloads_def)
  have wf: "\<forall>(mid, p) \<in> set demo_payloads. wf_json p" by (simp add: demo_payloads_def)
  from published_reaches_subscribers [OF calm_mem.redis_calm_axioms strict.pydantic_lib_axioms fresh fresh n wf run,
      where v = ?v and cfg' = default_settings]
  obtain es where es: "rpublished (mem_db s1) = map (Pair (pubsub_channel_key ''t-t:c'')) es"
    and q: "\<And>cid c. reg_inv (reg_of ?v) \<and> conn_of (reg_of ?v) cid = Some c \<and> ''t-t:c'' \<in> set (subscriptions c) \<and> conn_state c = ACTIVE \<and>
       fits default_settings c (live_items ''t-t:c'' 1 es) \<Longrightarrow>
       (\<exists>v'. listen_items default_settings ''t-t:c'' (map (\<lambda>e. (False, ''message'', e)) es) ?v = (Inr (), v') \<and>
          conn_of (reg_of v') cid = Some (queued c (live_items ''t-t:c'' 1 es)))"
    by (auto simp: mem_start_def)
  have e: "es = demo_announced" using es run by (simp add: demo_announced_def comp_def)
  have "reg_of ?v = two_subscribers" by (simp add: reg_of_def)
  then have "reg_inv (reg_of ?v) \<and> conn_of (reg_of ?v) ''a'' = Some ?c"
    using two_subscribers_inv two_subscribers_conns by simp
  moreover have "fits default_settings ?c (live_items ''t-t:c'' 1 demo_announced)" by code_simp
  moreover have "map qm_sequence (queue (queued ?c (live_items ''t-t:c'' 1 demo_announced))) = [Some 1, Some 2, Some 3]" by code_simp
  ultimately show ?thesis using q [of "''a''" ?c] unfolding e by (auto simp: demo_conns)
qed

text \<open>C38: A message of an overtaken publisher can be lost without a gap.  The number of a message is taken
  before it is buffered and announced.  So the publishers of a channel reach a state in which message 2
  has been announced and message 1 has not, and from there one in which both calls have returned, both
  messages are in the buffer and message 1 was announced last.  In the first state a listener queues for
  a subscriber message 2 alone.  When that client disconnects, having acknowledged 2, and resumes in the
  second state, \<open>replay_channel\<close> returns no message and reports no gap, and its RESUME frame queues
  nothing on the new connection: message 1 is neither delivered nor replayed to it.\<close>

theorem overtaken_message_lost:
  fixes D :: "('r, 'w) deps" and v :: "('q, 'u) world" and w :: "('r, 'w) world"
  assumes "2 \<le> channel_buffer_max_messages (dp_cfg D)"
    and "redis_calm (dp_redis D) db" and "pyfloat_ok (dp_float D)" and "pydantic_lib (dp_pydantic D)"
    and "s1 = half_overtaken (dp_float D) (dp_pydantic D) (dp_strftime D) ch"
    and "s2 = overtaking (dp_float D) (dp_pydantic D) (dp_strftime D) ch"
    and "steps = pub_step (dp_float D) (dp_pydantic D) (dp_cfg D) (dp_strftime D) ch"
    and "e1 = envelope (dp_pydantic D) (dp_strftime D) ''a'' ch 1 (JObj []) 0"
    and "e2 = envelope (dp_pydantic D) (dp_strftime D) ''b'' ch 2 (JObj []) 0"
    and "reg_inv (reg_of v)" and "conn_of (reg_of v) cid = Some c" and "ch \<in> set (subscriptions c)" and "conn_state c = ACTIVE"
    and "fits cfg' c [live_item ch e2 2]"
    and "gw_inv (reg_of w)" and "w_heap w ws = Some c'" and "conn_of (reg_of w) (connection_id c') = Some c'"
    and "channel_belongs_to_tenant ch tid" and "fits (dp_cfg D) c' []" and "db (w_redis w) = ps_db s2"
    and "handle_frame D ws tid (resume_raw sid ch 2) w = (x, w')"
  shows "reachable (pub_init ch) steps s1 \<and> steps\<^sup>*\<^sup>* s1 s2 \<and>
    rpublished (ps_db s1) = [(pubsub_channel_key ch, e2)] \<and>
    rpublished (ps_db s2) = [(pubsub_channel_key ch, e2), (pubsub_channel_key ch, e1)] \<and>
    ps_pcs s2 = [PubDone ''a'' (JObj []) 1, PubDone ''b'' (JObj []) 2] \<and>
    (\<exists>v'. listen_items cfg' ch [(False, ''message'', e2)] v = (Inr (), v') \<and>
       conn_of (reg_of v') cid = Some (queued c [live_item ch e2 2])) \<and>
    (\<exists>r. replay_channel (dp_redis D) (dp_float D) ch 2 (w_redis w) = (Inr \<lparr>rr_messages = [], rr_gap = False\<rparr>, r)) \<and>
    w_heap w' ws = Some (c'\<lparr>subscriptions := set_add ch (subscriptions c')\<rparr>)"
proof -
  let ?m = "\<lambda>i n. \<lparr>bm_id = i, bm_sequence = n, bm_payload = JObj [], bm_created = 0\<rparr>"
  let ?ms = "[?m ''b'' 2, ?m ''a'' 1]"
  have holds: "buffer_holds (dp_float D) (db (w_redis w)) ch ?ms"
    unfolding assms(20) by (simp add: assms(6) buffer_holds_def overtaking_def encode_message_def)
  have wf: "\<forall>m \<in> set ?ms. wf_message m \<and> is_object (bm_payload m)" by (simp add: wf_message_def is_object_def)
  have spec: "replay_spec ?ms 2 = \<lparr>rr_messages = [], rr_gap = False\<rparr>" by (simp add: replay_spec_def)
  have "\<forall>m \<in> set ?ms. wf_message m" using wf by blast
  then have rep: "\<exists>r. replay_channel (dp_redis D) (dp_float D) ch 2 (w_redis w) = (Inr \<lparr>rr_messages = [], rr_gap = False\<rparr>, r)"
    using redis_calm.calm_replay [OF assms(2,3) _ holds, of 2] spec by metis
  have nil: "[] = map (replay_item D ch) (rr_messages (replay_spec ?ms 2))" by (simp add: spec)
  have res: "w_heap w' ws = Some (c'\<lparr>subscriptions := set_add ch (subscriptions c')\<rparr>)"
    using resume_effect [OF assms(2-4,15-18) holds wf nil assms(19,21)] by (simp add: spec)
  have "wf_json (JObj [])" by simp
  from pydantic_lib.envelope_sequence_envelope [OF assms(4) this] have num: "numbered_from 2 [e2]" by (simp add: assms(9))
  have "fits cfg' c (live_items ch 2 [e2])" using assms(14) by simp
  from listen_queues [OF assms(10-13) num this]
  have q: "\<exists>v'. listen_items cfg' ch [(False, ''message'', e2)] v = (Inr (), v') \<and>
      conn_of (reg_of v') cid = Some (queued c [live_item ch e2 2])" by simp
  show ?thesis
    using half_overtaken_reachable [OF assms(1)] overtaking_steps [OF assms(1)] q rep res
    unfolding assms(5-9) by (auto simp: half_overtaken_def overtaking_def)
qed

text \<open>A subscriber of the listening node and a resumed connection, over the contents of the second state.\<close>

definition overtaken_redis :: mem where
  "overtaken_redis =
     (mem_start 0 [])
       \<lparr>mem_keys := [(channel_sequence_key ''t-1:chat'', (RString ''2'', None)),
                      (channel_stream_key ''t-1:chat'',
                        (RStream [((0, 0), buffer_fields frac_float ''b'' 2 (JObj []) 0),
                                  ((1, 1), buffer_fields frac_float ''a'' 1 (JObj []) 0)], None))],
        mem_pub := [(pubsub_channel_key ''t-1:chat'', envelope strict_pydantic (dp_strftime demo_deps) ''b'' ''t-1:chat'' 2 (JObj []) 0),
                    (pubsub_channel_key ''t-1:chat'', envelope strict_pydantic (dp_strftime demo_deps) ''a'' ''t-1:chat'' 1 (JObj []) 0)]\<rparr>"

lemma overtaken_redis_db:
  "mem_db overtaken_redis = ps_db (overtaking frac_float strict_pydantic (dp_strftime demo_deps) ''t-1:chat'')"
proof -
  have "show_int 2 = ''2''" by code_simp
  then show ?thesis by (simp add: mem_db_def overtaken_redis_def overtaking_def fun_upd_twist)
qed

theorem overtaken_message_lost_witness:
  "\<exists>D s1 s2 e2 v' cid c w' c'. reachable (pub_init ''t-1:chat'') (pub_step frac_float strict_pydantic default_settings (dp_strftime D) ''t-1:chat'') s1 \<and>
     (pub_step frac_float strict_pydantic default_settings (dp_strftime D) ''t-1:chat'')\<^sup>*\<^sup>* s1 s2 \<and>
     listen_items default_settings ''t-1:chat'' [(False, ''message'', e2)] subscribed_world = (Inr (), v') \<and>
     conn_of (reg_of v') cid = Some (queued c [live_item ''t-1:chat'' e2 2]) \<and>
     snd (handle_frame D 0 ''1'' (resume_raw ''s'' ''t-1:chat'' 2) (connected_world\<lparr>w_redis := overtaken_redis\<rparr>)) = w' \<and>
     mem_db overtaken_redis = ps_db s2 \<and> w_heap connected_world 0 = Some c' \<and> map_option queue (w_heap w' 0) = Some (queue c')"
proof -
  let ?D = "demo_deps\<lparr>dp_redis := calm_redis\<rparr>" and ?ch = "''t-1:chat''" and ?w = "connected_world\<lparr>w_redis := overtaken_redis\<rparr>"
  let ?e = "envelope (dp_pydantic ?D) (dp_strftime ?D) ''b'' ?ch 2 (JObj []) 0"
  have r: "reachable gw_init (gw_step demo_deps) ?w"
    by (rule reach_step [OF connected_reachable]) (rule gw_other, rule gw_elsewhere, simp_all)
  have "case conn_of (reg_of subscribed_world) ''conn-abc'' of None \<Rightarrow> False
      | Some c \<Rightarrow> ?ch \<in> set (subscriptions c) \<and> conn_state c = ACTIVE \<and> fits default_settings c [live_item ?ch ?e 2]" by code_simp
  then obtain c where c: "conn_of (reg_of subscribed_world) ''conn-abc'' = Some c" "?ch \<in> set (subscriptions c)"
    "conn_state c = ACTIVE" "fits default_settings c [live_item ?ch ?e 2]" by (auto split: option.splits)
  have "case w_heap ?w 0 of None \<Rightarrow> False
      | Some c \<Rightarrow> conn_of (reg_of ?w) (connection_id c) = Some c \<and> fits (dp_cfg ?D) c []" by code_simp
  then obtain c' where c': "w_heap ?w 0 = Some c'" "conn_of (reg_of ?w) (connection_id c') = Some c'" "fits (dp_cfg ?D) c' []"
    by (auto split: option.splits)
  obtain x w' where run: "handle_frame ?D 0 ''1'' (resume_raw ''s'' ?ch 2) ?w = (x, w')" by fastforce
  have inv: "reg_inv (reg_of subscribed_world)" "gw_inv (reg_of ?w)"
    using gateway_sys.reachable_inv [OF subscribed_reachable] gateway_sys.reachable_inv [OF r] by (auto simp: gw_inv_def)
  have lib: "redis_calm (dp_redis ?D) mem_db" "pyfloat_ok (dp_float ?D)" "pydantic_lib (dp_pydantic ?D)"
    "2 \<le> channel_buffer_max_messages (dp_cfg ?D)" "channel_belongs_to_tenant ?ch ''1''"
    using calm_mem.redis_calm_axioms frac.pyfloat_ok_axioms strict.pydantic_lib_axioms
    by (simp_all add: demo_deps_def channel_belongs_to_tenant_def startswith_def)
  have db: "mem_db (w_redis ?w) = ps_db (overtaking (dp_float ?D) (dp_pydantic ?D) (dp_strftime ?D) ?ch)"
    using overtaken_redis_db by (simp add: demo_deps_def)
  note lost = overtaken_message_lost [OF lib(4,1-3) refl refl refl refl refl inv(1) c inv(2) c'(1,2) lib(5) c'(3) db run]
  have cfg: "dp_float ?D = frac_float" "dp_pydantic ?D = strict_pydantic" "dp_cfg ?D = default_settings" by (simp_all add: demo_deps_def)
  from lost obtain v' where "listen_items default_settings ?ch [(False, ''message'', ?e)] subscribed_world = (Inr (), v')"
    "conn_of (reg_of v') ''conn-abc'' = Some (queued c [live_item ?ch ?e 2])" by blast
  moreover have "snd (handle_frame ?D 0 ''1'' (resume_raw ''s'' ?ch 2) ?w) = w'" using run by simp
  moreover have "map_option queue (w_heap w' 0) = Some (queue c')" "w_heap connected_world 0 = Some c'" using lost c'(1) by simp_all
  moreover have "mem_db overtaken_redis = ps_db (overtaking (dp_float ?D) (dp_pydantic ?D) (dp_strftime ?D) ?ch)" using db by simp
  ultimately show ?thesis using lost unfolding cfg by blast
qed

end
