(* ===== verification/Publisher_Client.thy ===== *)
theory Publisher_Client
  imports Gateway
begin

text \<open>
  \<open>demo-publisher/publish.py\<close>: the client side of the publish API, which repeats a POST up to three times
  under one idempotency key.  An exchange of HTTP is answered, or \<open>httpx\<close> raises because the request or
  the response was lost; what the rest of the system does while the client sleeps is a function of the
  attempt.  A request that reached the gateway has been handled before the client goes on: the attempts do
  not overlap.  In the program they can, when the 10 seconds of the client's timeout end while the gateway
  still works on the request; two overlapping requests with one key are then both published, as any two
  concurrent requests with the same key.  The theorem puts client, gateway and Redis together.
\<close>

section \<open>The client\<close>

datatype exchange = Answered | RequestLost | ResponseLost

record ('r, 'w) attempt =
  at_fate :: exchange
  at_uuid :: string
  at_pause :: "('r, 'w) world \<Rightarrow> ('r, 'w) world"

text \<open>The status code FastAPI answers with.\<close>

fun status_code :: "exn + publish_response \<Rightarrow> int" where
  "status_code (Inr _) = 200"
| "status_code (Inl (HTTPException c _)) = c"
| "status_code (Inl _) = 500"

text \<open>The inner loop: the sequence number printed, if any.\<close>

fun post_attempts ::
  "('r, 'w) deps \<Rightarrow> exn + database \<Rightarrow> publish_request \<Rightarrow> string option \<Rightarrow> string \<Rightarrow> ('r, 'w) attempt list \<Rightarrow>
     ('r, 'w) world \<Rightarrow> int option \<times> ('r, 'w) world" where
  "post_attempts D tbl body h key [] w = (None, w)"
| "post_attempts D tbl body h key (a # as) w =
     (case at_fate a of
        RequestLost \<Rightarrow> post_attempts D tbl body h key as (at_pause a w)
      | fate \<Rightarrow>
          (case publish D tbl (at_uuid a) body h (Some key) w of
             (x, w1) \<Rightarrow>
               if fate = Answered \<and> status_code x = 200
               then (case x of Inr r \<Rightarrow> Some (rs_sequence r) | Inl _ \<Rightarrow> None, w1)
               else post_attempts D tbl body h key as (at_pause a w1)))"

definition demo_body :: "string \<Rightarrow> nat \<Rightarrow> publish_request" where
  "demo_body channel i =
     \<lparr>rq_channel = channel, rq_payload = [(''n'', JInt (int i)), (''text'', JStr (''message '' @ show_nat i))]\<rparr>"

text \<open>\<open>main\<close>: one key and at most three attempts per message, and a sleep after each message.\<close>

fun publisher_main ::
  "('r, 'w) deps \<Rightarrow> exn + database \<Rightarrow> string \<Rightarrow> string \<Rightarrow> nat \<Rightarrow>
     (string \<times> ('r, 'w) attempt list \<times> (('r, 'w) world \<Rightarrow> ('r, 'w) world)) list \<Rightarrow>
     ('r, 'w) world \<Rightarrow> int option list \<times> ('r, 'w) world" where
  "publisher_main D tbl api_key channel i [] w = ([], w)"
| "publisher_main D tbl api_key channel i ((key, as, pause) # rest) w =
     (let (r, w1) = post_attempts D tbl (demo_body channel i) (Some (''Bearer '' @ api_key)) key (take 3 as) w;
          (rs, w2) = publisher_main D tbl api_key channel (Suc i) rest (pause w1)
      in (r # rs, w2))"

section \<open>Requests to a gateway whose Redis answers\<close>

context redis_calm
begin

lemma calm_get:
  assumes "case rkeys (db s) k of Some (RString _, _) \<Rightarrow> True | None \<Rightarrow> True | _ \<Rightarrow> False"
  obtains s' t where "rclock X s \<le> t" "t \<le> rclock X s'" "db s' = db s"
    "rcall X (GET k) s = (Inr (case lookup_at t (db s) k of Some (RString v, _) \<Rightarrow> RBulk v | _ \<Rightarrow> RNil), s')"
proof -
  obtain r s' t where t: "rclock X s \<le> t" "t \<le> rclock X s'" "redis_ok t (GET k) (db s) r (db s')"
    and c: "rcall X (GET k) s = (if r = RErr then Inl ResponseError else Inr r, s')" by (rule calm_call)
  have "r = (case lookup_at t (db s) k of Some (RString v, _) \<Rightarrow> RBulk v | _ \<Rightarrow> RNil)" "r \<noteq> RErr"
    using t(3) assms by (auto simp: lookup_at_def split: option.splits prod.splits rvalue.splits)
  with t c show thesis by (intro that [of t s']) auto
qed

lemma calm_set:
  assumes "0 < n"
  obtains r s' t where "rclock X s \<le> t" "t \<le> rclock X s'" "rcall X (SET k v (Some n)) s = (Inr r, s')"
    "db s' = put_key k (RString v, Some (t + of_int n)) (db s)"
proof -
  obtain r s' t where "rclock X s \<le> t" "t \<le> rclock X s'" "redis_ok t (SET k v (Some n)) (db s) r (db s')"
    "rcall X (SET k v (Some n)) s = (if r = RErr then Inl ResponseError else Inr r, s')" by (rule calm_call)
  with assms show thesis by (intro that [of t s' r]) auto
qed

end

text \<open>What both parties assume: the key is accepted, the request passes the guards.\<close>

definition request_ok ::
  "('r, 'w) deps \<Rightarrow> exn + database \<Rightarrow> publish_request \<Rightarrow> string option \<Rightarrow> string \<Rightarrow> string \<Rightarrow> bool" where
  "request_ok D tbl body h tid k =
     (k \<noteq> [] \<and> 0 < idempotency_ttl_seconds (dp_cfg D) \<and> check_publish (dp_cfg D) tid body = None \<and>
      (\<exists>a. ac_tenant_id a = tid \<and> (\<forall>w. auth_http D tbl h w = (Inr a, w))))"

lemma publish_ok_run:
  assumes "request_ok D tbl body h tid k"
  shows "publish D tbl u body h (Some k) w =
    bindE (read_cached D tid (Some k)) (\<lambda>cached. case cached of
        Some data \<Rightarrow> (case cached_response (dp_pydantic D) data of Inl e \<Rightarrow> raiseE e | Inr res \<Rightarrow> returnE res)
      | None \<Rightarrow> publish_new D u tid body (Some k)) w"
  using assms by (auto simp: request_ok_def publish_def bindE_Inr Let_def)

text \<open>The first request that reaches the gateway publishes and stores its answer.\<close>

lemma first_request:
  assumes X: "redis_calm (dp_redis D) db" and ok: "request_ok D tbl body h tid k"
    and lg: "channel_log F T (channel_buffer_max_messages (dp_cfg D)) (db (w_redis w)) (rq_channel body) lg ret"
    and T: "T \<le> millis (rclock (dp_redis D) (w_redis w))" and n: "0 \<le> channel_buffer_max_messages (dp_cfg D)"
    and room: "int (length lg) < 2 ^ 63 - 1" and F: "F = dp_float D"
    and key: "rkeys (db (w_redis w)) (idempotency_redis_key tid k) = None"
  obtains w1 t q where
    "publish D tbl u body h (Some k) w = (Inr \<lparr>rs_message_id = u, rs_sequence = int (length lg) + 1\<rparr>, w1)"
    "rclock (dp_redis D) (w_redis w) \<le> t" "rclock (dp_redis D) (w_redis w) \<le> rclock (dp_redis D) (w_redis w1)"
    "rkeys (db (w_redis w1)) (idempotency_redis_key tid k) =
       Some (RString (response_text \<lparr>pr_message_id = u, pr_sequence = int (length lg) + 1\<rparr>),
             Some (t + of_int (idempotency_ttl_seconds (dp_cfg D))))"
    "rpublished (db (w_redis w1)) = rpublished (db (w_redis w)) @
       [(pubsub_channel_key (rq_channel body),
         envelope (dp_pydantic D) (dp_strftime D) u (rq_channel body) (int (length lg) + 1) (JObj (rq_payload body)) q)]"
proof -
  let ?K = "idempotency_redis_key tid k" and ?X = "dp_redis D" and ?r = "w_redis w"
  let ?res = "\<lparr>pr_message_id = u, pr_sequence = int (length lg) + 1\<rparr>"
  have "case rkeys (db ?r) ?K of Some (RString _, _) \<Rightarrow> True | None \<Rightarrow> True | _ \<Rightarrow> False" using key by simp
  from redis_calm.calm_get [OF X this] obtain s1 t1 where t1: "rclock ?X ?r \<le> t1" "t1 \<le> rclock ?X s1" "db s1 = db ?r"
    and g: "rcall ?X (GET ?K) ?r = (Inr (case lookup_at t1 (db ?r) ?K of Some (RString v, _) \<Rightarrow> RBulk v | _ \<Rightarrow> RNil), s1)" .
  have get: "rcall ?X (GET ?K) ?r = (Inr RNil, s1)" using g key by (simp add: lookup_at_def)
  have rc: "read_cached D tid (Some k) w = (Inr None, w\<lparr>w_redis := s1\<rparr>)"
    by (simp add: read_cached_def unavailable_run bindE_def get string_reply_def)
  have "millis (rclock ?X ?r) \<le> millis (rclock ?X s1)" unfolding millis_def using t1 by (intro floor_mono) simp
  then have T1: "T \<le> millis (rclock ?X s1)" using T by simp
  have lg1: "channel_log F T (channel_buffer_max_messages (dp_cfg D)) (db s1) (rq_channel body) lg ret" using lg t1 by simp
  obtain s2 q where pub: "publish_call D u body s1 = (Inr ?res, s2)" and c2: "rclock ?X s1 \<le> rclock ?X s2"
    and p2: "rpublished (db s2) = rpublished (db s1) @ [(pubsub_channel_key (rq_channel body),
      envelope (dp_pydantic D) (dp_strftime D) u (rq_channel body) (int (length lg) + 1) (JObj (rq_payload body)) q)]"
    by (rule redis_calm.calm_publish [OF X lg1 T1 n room, where P = "dp_pydantic D" and stf = "dp_strftime D" and mid = u
          and p = "JObj (rq_payload body)"]) (auto simp: publish_call_def F)
  have ttl: "0 < idempotency_ttl_seconds (dp_cfg D)" using ok by (simp add: request_ok_def)
  obtain y s3 t3 where t3: "rclock ?X s2 \<le> t3" "t3 \<le> rclock ?X s3"
    and set: "rcall ?X (SET ?K (response_text ?res) (Some (idempotency_ttl_seconds (dp_cfg D)))) s2 = (Inr y, s3)"
    and d3: "db s3 = put_key ?K (RString (response_text ?res), Some (t3 + of_int (idempotency_ttl_seconds (dp_cfg D)))) (db s2)"
    by (rule redis_calm.calm_set [OF X ttl])
  obtain w1 where w1: "publish D tbl u body h (Some k) w = (Inr \<lparr>rs_message_id = u, rs_sequence = int (length lg) + 1\<rparr>, w1)"
    and r1: "w_redis w1 = s3"
    unfolding publish_ok_run [OF ok] bindE_Inr [where m = "read_cached D tid (Some k)" and s = w, OF rc]
    using pub set by (auto simp: publish_new_def unavailable_run bindE_def thenE_def metric_add_def redisE_run)
  show thesis
    by (rule that [OF w1, of t3]) (use t1 c2 t3 d3 p2 r1 in auto)
qed

text \<open>Every later one is answered from the store.\<close>

lemma later_request:
  assumes X: "redis_calm (dp_redis D) db" and P: "pydantic_lib (dp_pydantic D)" and ok: "request_ok D tbl body h tid k"
    and slot: "rkeys (db (w_redis w)) (idempotency_redis_key tid k) = Some (RString (response_text res), Some dl)"
    and run: "publish D tbl u body h (Some k) w = (x, w1)" and live: "rclock (dp_redis D) (w_redis w1) < dl"
  shows "x = Inr \<lparr>rs_message_id = pr_message_id res, rs_sequence = pr_sequence res\<rparr> \<and> db (w_redis w1) = db (w_redis w) \<and>
    rclock (dp_redis D) (w_redis w) \<le> rclock (dp_redis D) (w_redis w1)"
proof -
  let ?K = "idempotency_redis_key tid k" and ?X = "dp_redis D" and ?r = "w_redis w"
  have "case rkeys (db ?r) ?K of Some (RString _, _) \<Rightarrow> True | None \<Rightarrow> True | _ \<Rightarrow> False" using slot by simp
  from redis_calm.calm_get [OF X this] obtain s1 t1 where t1: "rclock ?X ?r \<le> t1" "t1 \<le> rclock ?X s1" "db s1 = db ?r"
    and g: "rcall ?X (GET ?K) ?r = (Inr (case lookup_at t1 (db ?r) ?K of Some (RString v, _) \<Rightarrow> RBulk v | _ \<Rightarrow> RNil), s1)" .
  note resp = cached_response_text [OF P, of res]
  show ?thesis
  proof (cases "t1 < dl")
    case True
    then have "rcall ?X (GET ?K) ?r = (Inr (RBulk (response_text res)), s1)" using g slot by (simp add: lookup_at_def)
    then have "read_cached D tid (Some k) w = (Inr (Some (response_text res)), w\<lparr>w_redis := s1\<rparr>)"
      using resp(2) by (simp add: read_cached_def unavailable_run bindE_def string_reply_def)
    from run [unfolded publish_ok_run [OF ok] bindE_Inr [where m = "read_cached D tid (Some k)" and s = w, OF this]] resp t1 show ?thesis by auto
  next
    case False
    then have "rcall ?X (GET ?K) ?r = (Inr RNil, s1)" using g slot by (simp add: lookup_at_def)
    then have rc: "read_cached D tid (Some k) w = (Inr None, w\<lparr>w_redis := s1\<rparr>)"
      by (simp add: read_cached_def unavailable_run bindE_def string_reply_def)
    from publish_new_clock [OF redis_calm.calm_service [OF X]] run [unfolded publish_ok_run [OF ok] bindE_Inr [where m = "read_cached D tid (Some k)" and s = w, OF rc]]
    have "rclock ?X s1 \<le> rclock ?X (w_redis w1)" by fastforce
    with False live t1 show ?thesis by linarith
  qed
qed

section \<open>All attempts of a message\<close>

text \<open>While the client sleeps, time passes.\<close>

definition idle :: "('r, 'w) deps \<Rightarrow> ('r \<Rightarrow> rdb) \<Rightarrow> (('r, 'w) world \<Rightarrow> ('r, 'w) world) \<Rightarrow> bool" where
  "idle D db p =
     (\<forall>v. db (w_redis (p v)) = db (w_redis v) \<and> rclock (dp_redis D) (w_redis v) \<le> rclock (dp_redis D) (w_redis (p v)))"

lemma publish_clock:
  assumes "redis_service (dp_redis D) db rely" and "publish D tbl u body h key w = (x, w')"
  shows "rclock (dp_redis D) (w_redis w) \<le> rclock (dp_redis D) (w_redis w')"
proof -
  have read: "rclock (dp_redis D) (w_redis w) \<le> rclock (dp_redis D) (w_redis w1)"
    if r: "read_cached D tid k w = (y, w1)" for tid k y w1
  proof (cases k)
    case (Some k')
    obtain z s1 where "rcall (dp_redis D) (GET (idempotency_redis_key tid k')) (w_redis w) = (z, s1)" "w1 = w\<lparr>w_redis := s1\<rparr>"
      by (rule read_cached_run [OF r [unfolded Some]])
    then show ?thesis using redis_service.rcall_clock [OF assms(1), of "w_redis w" "GET (idempotency_redis_key tid k')"] by simp
  qed (use r in \<open>simp add: read_cached_def\<close>)
  from assms(2) refl show ?thesis
    by (cases rule: publish_cases) (use read publish_new_clock [OF assms(1)] in \<open>force intro: order_trans\<close>)+
qed

lemma post_attempts_clock:
  assumes "redis_service (dp_redis D) db rely" and "\<forall>a \<in> set as. idle D db (at_pause a)"
    and "post_attempts D tbl body h k as w = (res, w')"
  shows "rclock (dp_redis D) (w_redis w) \<le> rclock (dp_redis D) (w_redis w')"
  using assms(2,3)
proof (induction as arbitrary: w)
  case (Cons a as)
  obtain x w1 where p: "publish D tbl (at_uuid a) body h (Some k) w = (x, w1)" by fastforce
  note c = publish_clock [OF assms(1) p]
  have idle: "rclock (dp_redis D) (w_redis v) \<le> rclock (dp_redis D) (w_redis (at_pause a v))" for v
    using Cons.prems(1) by (simp add: idle_def)
  from Cons.prems p consider "w' = w1" | "post_attempts D tbl body h k as (at_pause a w) = (res, w')"
    | "post_attempts D tbl body h k as (at_pause a w1) = (res, w')"
    by (auto split: exchange.splits if_splits)
  then show ?case using Cons.IH [of "at_pause a w"] Cons.IH [of "at_pause a w1"] Cons.prems(1) c idle [of w] idle [of w1]
    by cases auto
qed simp

lemma later_attempts:
  assumes X: "redis_calm (dp_redis D) db" and P: "pydantic_lib (dp_pydantic D)" and ok: "request_ok D tbl body h tid k"
    and "\<forall>a \<in> set as. idle D db (at_pause a)"
    and "rkeys (db (w_redis w)) (idempotency_redis_key tid k) = Some (RString (response_text r), Some dl)"
    and "post_attempts D tbl body h k as w = (res, w')" and "rclock (dp_redis D) (w_redis w') < dl"
  shows "db (w_redis w') = db (w_redis w) \<and>
    res = (if \<exists>a \<in> set as. at_fate a = Answered then Some (pr_sequence r) else None)"
  using assms(4-)
proof (induction as arbitrary: w)
  case (Cons a as)
  have id: "idle D db (at_pause a)" "\<forall>a \<in> set as. idle D db (at_pause a)" using Cons.prems(1) by simp_all
  have same: "db (w_redis (at_pause a v)) = db (w_redis v)" and up: "rclock (dp_redis D) (w_redis v) \<le> rclock (dp_redis D) (w_redis (at_pause a v))"
    for v using id(1) by (simp_all add: idle_def)
  note clk = post_attempts_clock [OF redis_calm.calm_service [OF X] id(2)]
  show ?case
  proof (cases "at_fate a = RequestLost")
    case True
    with Cons.prems Cons.IH [OF id(2), of "at_pause a w"] same show ?thesis by simp
  next
    case False
    obtain x w1 where p: "publish D tbl (at_uuid a) body h (Some k) w = (x, w1)" by fastforce
    let ?stop = "at_fate a = Answered \<and> status_code x = 200"
    have next_step: "if ?stop then w' = w1 \<and> res = (case x of Inr r \<Rightarrow> Some (rs_sequence r) | Inl _ \<Rightarrow> None)
        else post_attempts D tbl body h k as (at_pause a w1) = (res, w')"
      using Cons.prems(3) p False by (auto split: exchange.splits if_splits)
    then have "rclock (dp_redis D) (w_redis w1) \<le> rclock (dp_redis D) (w_redis w')"
      using clk [of tbl body h k "at_pause a w1" res w'] up [of w1] by (auto split: if_splits)
    with Cons.prems(4) have "rclock (dp_redis D) (w_redis w1) < dl" by simp
    note l = later_request [OF X P ok Cons.prems(2) p this]
    show ?thesis
    proof (cases "at_fate a = Answered")
      case True
      with next_step l show ?thesis by auto
    next
      case no: False
      with next_step have "post_attempts D tbl body h k as (at_pause a w1) = (res, w')" by simp
      with Cons.IH [OF id(2), of "at_pause a w1"] Cons.prems(2,4) same l no show ?thesis by simp
    qed
  qed
qed simp

text \<open>C5: A retried publish creates one message.  The client repeats a request under one idempotency key while
  requests and responses get lost.  The hypotheses: Redis answers every call of the gateway, so that the
  answer is also stored under the key (\<open>failed_store_duplicates\<close> is what happens otherwise); an attempt is
  over before the next begins; nobody else changes Redis between the attempts (\<open>idle\<close>); the key is new; and
  all attempts fall within its time to live.  Then the message is announced exactly once when at least one
  request reached the gateway and not at all when every request was lost, under the next sequence number of
  the channel, and the client learns exactly that number if some exchange is answered, and nothing otherwise.\<close>

theorem retried_publish_once:
  assumes "redis_calm (dp_redis D) db" and "pydantic_lib (dp_pydantic D)" and "request_ok D tbl body h tid k"
    and "\<forall>a \<in> set as. idle D db (at_pause a)"
    and "channel_log (dp_float D) T (channel_buffer_max_messages (dp_cfg D)) (db (w_redis w)) (rq_channel body) lg ret"
    and "T \<le> millis (rclock (dp_redis D) (w_redis w))" and "0 \<le> channel_buffer_max_messages (dp_cfg D)"
    and "int (length lg) < 2 ^ 63 - 1" and "rkeys (db (w_redis w)) (idempotency_redis_key tid k) = None"
    and "post_attempts D tbl body h k as w = (res, w')"
    and "rclock (dp_redis D) (w_redis w') < rclock (dp_redis D) (w_redis w) + of_int (idempotency_ttl_seconds (dp_cfg D))"
  shows "(\<exists>u q. rpublished (db (w_redis w')) = rpublished (db (w_redis w)) @
      (if \<exists>a \<in> set as. at_fate a \<noteq> RequestLost
       then [(pubsub_channel_key (rq_channel body),
              envelope (dp_pydantic D) (dp_strftime D) u (rq_channel body) (int (length lg) + 1) (JObj (rq_payload body)) q)]
       else [])) \<and>
    res = (if \<exists>a \<in> set as. at_fate a = Answered then Some (int (length lg) + 1) else None)"
  using assms(4-)
proof (induction as arbitrary: w)
  case (Cons a as)
  let ?X = "dp_redis D"
  have id: "idle D db (at_pause a)" "\<forall>a \<in> set as. idle D db (at_pause a)" using Cons.prems(1) by simp_all
  have same: "db (w_redis (at_pause a v)) = db (w_redis v)" and up: "rclock ?X (w_redis v) \<le> rclock ?X (w_redis (at_pause a v))"
    for v using id(1) by (simp_all add: idle_def)
  show ?case
  proof (cases "at_fate a = RequestLost")
    case True
    have "millis (rclock ?X (w_redis w)) \<le> millis (rclock ?X (w_redis (at_pause a w)))"
      unfolding millis_def using up by (intro floor_mono) simp
    with Cons.IH [OF id(2), of "at_pause a w"] Cons.prems True same up [of w] show ?thesis by simp
  next
    case False
    obtain w1 t q where p: "publish D tbl (at_uuid a) body h (Some k) w =
        (Inr \<lparr>rs_message_id = at_uuid a, rs_sequence = int (length lg) + 1\<rparr>, w1)" and t: "rclock ?X (w_redis w) \<le> t"
      and slot: "rkeys (db (w_redis w1)) (idempotency_redis_key tid k) =
       Some (RString (response_text \<lparr>pr_message_id = at_uuid a, pr_sequence = int (length lg) + 1\<rparr>),
             Some (t + of_int (idempotency_ttl_seconds (dp_cfg D))))"
      and pub: "rpublished (db (w_redis w1)) = rpublished (db (w_redis w)) @ [(pubsub_channel_key (rq_channel body),
         envelope (dp_pydantic D) (dp_strftime D) (at_uuid a) (rq_channel body) (int (length lg) + 1) (JObj (rq_payload body)) q)]"
      by (rule first_request [OF assms(1,3) Cons.prems(2,3,4,5) refl Cons.prems(6)])
    show ?thesis
    proof (cases "at_fate a = Answered")
      case True
      with Cons.prems(7) p have "w' = w1" "res = Some (int (length lg) + 1)" by simp_all
      with pub True show ?thesis by auto
    next
      case no: False
      with Cons.prems(7) p False have rest: "post_attempts D tbl body h k as (at_pause a w1) = (res, w')" by (auto split: exchange.splits)
      have "rclock ?X (w_redis w') < t + of_int (idempotency_ttl_seconds (dp_cfg D))" using Cons.prems(8) t by simp
      from later_attempts [OF assms(1-3) id(2) _ rest this] slot same [of w1]
      have "db (w_redis w') = db (w_redis w1)"
        "res = (if \<exists>a \<in> set as. at_fate a = Answered then Some (int (length lg) + 1) else None)" by simp_all
      with pub no False show ?thesis by auto
    qed
  qed
qed simp

text \<open>The first request is lost, the answer of the second is lost, the third is answered.\<close>

definition calm_deps :: "(mem, wire) deps" where
  "calm_deps = demo_deps\<lparr>dp_redis := calm_redis\<rparr>"

definition demo_attempts :: "(mem, wire) attempt list" where
  "demo_attempts =
     [\<lparr>at_fate = RequestLost, at_uuid = ''m1'', at_pause = id\<rparr>, \<lparr>at_fate = ResponseLost, at_uuid = ''m2'', at_pause = id\<rparr>,
      \<lparr>at_fate = Answered, at_uuid = ''m3'', at_pause = id\<rparr>]"

theorem retried_publish_once_witness:
  "\<exists>w'. post_attempts calm_deps (Inr demo_db) demo_request (Some ''Bearer relay_b'') ''key-1'' demo_attempts (demo_world []) = (Some 1, w') \<and>
     length (rpublished (mem_db (w_redis w'))) = 1"
proof -
  let ?w = "demo_world [] :: (mem, wire) world"
  have cfg: "dp_redis calm_deps = calm_redis" "dp_cfg calm_deps = default_settings" "dp_pydantic calm_deps = strict_pydantic"
    by (simp_all add: calm_deps_def demo_deps_def)
  have X: "redis_calm (dp_redis calm_deps) mem_db" "pydantic_lib (dp_pydantic calm_deps)"
    using calm_mem.redis_calm_axioms strict.pydantic_lib_axioms by (simp_all add: cfg)
  have au: "auth_http calm_deps (Inr demo_db) (Some ''Bearer relay_b'') w = (Inr \<lparr>ac_tenant_id = ''1'', ac_api_key_id = ''k2''\<rparr>, w)" for w
    by (simp add: auth_http_def calm_deps_def demo_deps_def startswith_def removeprefix_def authenticate_json_def truthy_def catchE_def
      authenticate_token_def auth_rows_def demo_db_def hash_api_key_def)
  have "check_publish default_settings ''1'' demo_request = None" by code_simp
  then have ok: "request_ok calm_deps (Inr demo_db) demo_request (Some ''Bearer relay_b'') ''1'' ''key-1''"
    using au by (auto simp: request_ok_def cfg)
  have idle: "\<forall>a \<in> set demo_attempts. idle calm_deps mem_db (at_pause a)" by (simp add: demo_attempts_def idle_def)
  have fresh: "rkeys (mem_db (w_redis ?w)) k = None" for k by (simp add: demo_world_def new_world_def mem_start_def mem_db_def)
  have lg: "channel_log (dp_float calm_deps) 0 (channel_buffer_max_messages (dp_cfg calm_deps)) (mem_db (w_redis ?w)) (rq_channel demo_request) [] []"
    by (rule channel_log_start) (rule fresh)+
  have T: "0 \<le> millis (rclock (dp_redis calm_deps) (w_redis ?w))"
    by (simp add: cfg millis_def calm_redis_def demo_world_def new_world_def mem_start_def)
  obtain res w' where run: "post_attempts calm_deps (Inr demo_db) demo_request (Some ''Bearer relay_b'') ''key-1'' demo_attempts ?w = (res, w')"
    by fastforce
  have "rclock calm_redis (w_redis (snd (post_attempts calm_deps (Inr demo_db) demo_request (Some ''Bearer relay_b'') ''key-1'' demo_attempts ?w))) = 0"
    by code_simp
  then have t: "rclock (dp_redis calm_deps) (w_redis w') <
      rclock (dp_redis calm_deps) (w_redis ?w) + of_int (idempotency_ttl_seconds (dp_cfg calm_deps))"
    using run by (simp add: cfg calm_redis_def demo_world_def new_world_def mem_start_def)
  have n: "0 \<le> channel_buffer_max_messages (dp_cfg calm_deps)" "int (length []) < 2 ^ 63 - 1" by (simp_all add: cfg)
  from retried_publish_once [OF X ok idle lg T n fresh run t]
  have r: "res = Some 1" "length (rpublished (mem_db (w_redis w'))) = length (rpublished (mem_db (w_redis ?w))) + 1"
    by (auto simp: demo_attempts_def)
  moreover have "rpublished (mem_db (w_redis ?w)) = []" by (simp add: demo_world_def new_world_def mem_start_def)
  ultimately show ?thesis using run by auto
qed

text \<open>The assumption on Redis is needed.  The answer is stored after the message is announced: when only that
  last call is refused the client is told 500, repeats the request, and the message is announced twice.\<close>

lemma failed_store_duplicates:
  "map_prod id (\<lambda>w'. length (rpublished (mem_db (w_redis w'))))
     (post_attempts demo_deps (Inr demo_db) demo_request (Some ''Bearer relay_b'') ''key-1''
       [\<lparr>at_fate = Answered, at_uuid = ''m1'', at_pause = id\<rparr>, \<lparr>at_fate = Answered, at_uuid = ''m2'', at_pause = id\<rparr>]
       ((demo_world [])\<lparr>w_redis := mem_start 0 [Served, Served, Served, Served, Served, Refused]\<rparr>)) = (Some 2, 2)"
  by code_simp

end
