(* ===== verification/Spec2Isabelle.thy ===== *)
theory Spec2Isabelle
  imports Control_Plane Draining Heartbeat Delivery Publisher_Client
begin

text \<open>
  \<^bold>\<open>Relay: a verification library for a real-time messaging gateway.\<close>

  \<^bold>\<open>The program.\<close>  Relay delivers messages from publishers to clients connected over WebSockets.  A
  \<^emph>\<open>gateway\<close> process (\<open>apps/gateway\<close>) accepts connections, authenticates them with the API key of a
  tenant, lets them subscribe to the channels of that tenant and forwards what is published there.
  Publishers post messages over HTTP; a message gets a sequence number, is appended to a bounded buffer
  and is announced on Redis Pub/Sub, from where a listener on every node that has subscribers hands it
  to the outbound queues of its connections.  A bounded in-flight window, released by acknowledgements,
  and bounded queues keep slow clients from holding up the others; a client that lost its connection
  resumes from the buffer.  A \<^emph>\<open>control plane\<close> (\<open>apps/control_plane\<close>) manages tenants, keys, channels and
  rooms in a database.  Sessions, presence and node records live in Redis under times to live.

  \<^bold>\<open>Theories and the code they model\<close> (paths under \<open>src/\<close>).
  \<^item> \<open>Relay_Prelude\<close>: exceptions and computations that may raise (\<open>io\<close>), Python sets, strings and decimal
    integers, and \<open>reachable\<close> with the invariant rule of all state machines (a locale).
  \<^item> \<open>Config\<close>: \<open>packages/common/config.py\<close>.  \<open>Json\<close>: \<open>json.dumps\<close> and \<open>json.loads\<close> of the standard library,
    with the round trip every stored or transmitted value relies on.
  \<^item> \<open>Frames\<close>: \<open>packages/protocol/frames.py\<close>; Pydantic is the record \<open>pydantic\<close> with the contract
    \<open>pydantic_lib\<close>, interpreted by \<open>strict_pydantic\<close>.
  \<^item> \<open>Connections\<close>, \<open>Registry\<close>: \<open>connections/manager.py\<close>; a connection with its sender task as a step
    relation, the registry over a heap of connections, refined to a plain map.
  \<^item> \<open>Redis_Service\<close>: Redis and its client library, a parameter with the documented behaviour of the commands
    (\<open>redis_ok\<close>) and two contracts, \<open>redis_service\<close> (other clients, faults, lost replies and retries) and
    \<open>redis_calm\<close>; in-memory instances interpret both.  \<open>Redis_Client\<close>: \<open>packages/redis/client.py\<close>.
  \<^item> \<open>Replay\<close>: \<open>recovery/replay.py\<close>.  \<open>Sessions\<close>: \<open>sessions/manager.py\<close>.  \<open>Presence\<close>: \<open>presence/tracker.py\<close>.
    \<open>Nodes\<close>: \<open>nodes/registration.py\<close>.  \<open>Auth\<close>: \<open>protocol/auth.py\<close>, \<open>packages/security/api_keys.py\<close> and
    the tables of \<open>packages/database/models.py\<close>.  \<open>Control_Plane\<close>: \<open>control_plane/main.py\<close> and
    \<open>scripts/seed.py\<close>; the database is a parameter with the contract \<open>durable_tables\<close>, interpreted by the
    constraints the models declare.
  \<^item> \<open>Observability\<close>: \<open>packages/observability\<close>, the Prometheus text, the root logger and the log lines with
    their redaction.
  \<^item> \<open>World\<close>: the state of one gateway process.  \<open>Subscriptions\<close>: \<open>rooms/subscriptions.py\<close>, its calls one
    after the other and interleaved at their awaits.  \<open>Publish\<close>,
    \<open>Publishers\<close> (publishers interleaved at their Redis commands), \<open>Fanout\<close>: \<open>fanout/publisher.py\<close>.  \<open>Heartbeat\<close>:
    \<open>heartbeat/monitor.py\<close>.
  \<^item> \<open>Handler\<close>: \<open>websocket/handler.py\<close>, the handshake, one definition per frame type, cleanup.  \<open>Isolation\<close>
    composes the connections of a gateway frame by frame, \<open>Admission\<close> cuts the handshakes at their awaits and
    interleaves them under the handshake semaphore, \<open>Resume\<close> puts replay, queue and subscription together, and
    \<open>Delivery\<close> follows a message from the publisher to the queues of a node.
  \<^item> \<open>Gateway\<close>, \<open>Lifecycle\<close>: \<open>apps/gateway/main.py\<close>, the HTTP endpoints, start and shutdown; \<open>Draining\<close> cuts the
    shutdown at its awaits and interleaves it with handshakes, all other tasks and new sockets.
    \<open>Publisher_Client\<close>: \<open>demo-publisher/publish.py\<close>, the retry loop of a publisher against the gateway.

  \<^bold>\<open>What the theorems show.\<close>
  \<^item> Delivery: the socket of a connection receives the accepted frames in order, without duplicates; the
    window and the queue bounds hold in every reachable state, and a released window is used again.
  \<^item> Tenants: whatever clients send, in any interleaving and with any failure, a connection subscribes only
    to channels of its tenant and a delivery changes only connections of the tenant of the channel.
    Keys authenticate exactly while they are active.  Handshakes that overlap can exceed the connection
    limit of a tenant, by the permits of the semaphore less one and no more.
  \<^item> Messages: sequence numbers increase and are unique under concurrent publishers, retries and lost
    replies; what was published is what is replayed, complete up to a reported gap; a RESUME queues
    exactly the missed messages; fanout serves every subscriber with room whatever the others do, and
    what is published reaches the queues of the subscribers in order.
  \<^item> Publish API: a request repeated under its idempotency key returns the first answer and creates no
    second message, also end to end with a client that retries, as long as Redis answers, the attempts do
    not overlap and nobody else changes Redis between them; every outcome is accounted for.
  \<^item> State kept in Redis: an acknowledgement does not move the position backwards when no other writer
    interferes, sessions, presence and node records live for their time to live; presence is a set of
    connections.  In a database that enforces the declared constraints, a created key authenticates its
    tenant until it is revoked.
  \<^item> Lifecycle: a finished connection leaves nothing behind, a silent client is detected within a computed
    time and a live one never declared dead, a channel has at most one listener in every interleaving,
    listeners reconnect with bounded backoff.  A shutdown beside all other tasks refuses new sockets, tells
    every connection of its snapshot, and leaves untold only clients whose handshake was in flight; it
    completes as soon as the calls it makes return.  A log line reads back as JSON with every field but the
    secret ones.
  \<^item> Some theorems state behaviour the documentation does not intend, so that a change of it is noticed:
    \<open>saturated_window_blocks_control_frames\<close>, \<open>replay_from_zero_hides_loss\<close>, \<open>overtaken_message_lost\<close>,
    \<open>presence_state_key_collides\<close>, \<open>touch_session_effect\<close>, \<open>unsubscribe_stops_foreign_listener\<close>,
    \<open>overtaken_subscribe_leaks_listener\<close>, \<open>tenant_limit_bound\<close> and \<open>graceful_shutdown\<close> with their witnesses,
    and the last part of \<open>handshake_admission\<close>.

  \<^bold>\<open>Bounds and fuel.\<close>  \<open>frame_loop\<close> takes the number of frames it may handle and returns \<open>None\<close> while the
  connection is still open; the statements about finished connections are about runs that returned.
  \<open>hb_alone\<close> takes a number of wake-ups, and \<open>silent_client_detected\<close> proves \<open>\<lceil>2 \<cdot> timeout\<rceil> + 3\<close> of them enough.
  \<open>run_pubsub_listener\<close> runs over the list of its rounds, \<open>node_loop\<close> over that of its writes and
  \<open>post_attempts\<close> over that of its attempts.  The JSON parser has two units of fuel per character, and
  the round trip shows that they suffice for everything the program writes.

  \<^bold>\<open>Abstractions.\<close>  Characters are the code points up to U+00FF, times and ratios are rationals, integers are
  unbounded as in Python except for the 64-bit counters of Redis and the 32-bit columns of the database.  One frame of
  a connection is handled atomically with respect to the other connections in \<open>gw_task\<close>; handshakes interleave at
  their awaits in \<open>Admission\<close>, where every handshake takes seven segments (\<open>handshake_uncut\<close>), the tasks of one
  connection in \<open>Connections\<close> and \<open>Heartbeat\<close>, publishers at every command in \<open>Publishers\<close>, the calls of the
  subscription manager in \<open>Subscriptions\<close> (\<open>subscribe_uncut\<close>), and the shutdown in \<open>Draining\<close>
  (\<open>shutdown_uncut\<close>).  Where these are composed into frames, a frame is one step.  Calls of a socket return or
  raise; the shutdown has no time limit on them, and a socket that never answers would hold it up.  A request
  of the publishing client is over before it is repeated; its timeout of 10 seconds is not modelled.

  \<^bold>\<open>Not modelled.\<close>  \<open>packages/database/engine.py\<close> and \<open>scripts/init_db.py\<close> (constructor calls into
  SQLAlchemy without logic of their own), the places where log lines are emitted, routing and request
  validation by FastAPI, the tests, and the TypeScript client and demo page.  The table \<open>SessionRecord\<close> is in the
  model; no code of the program reads or writes it.
\<close>

end
